(* ===== verification/Prelude.thy ===== *)
theory Prelude
  imports
    Main
    "HOL-Library.Word"
    "HOL-Library.Signed_Division"
begin

section \<open>Go integers, clock and text\<close>

text \<open>
  What every other theory shares: Go's 64-bit integers, the time package, and the few
  string functions the program calls.

  \<^item> \<open>int\<close> and \<open>int64\<close> (the program is taken on a 64-bit platform) are HOL integers; every
    operation that can overflow is wrapped by \<open>i64\<close>, the signed 64-bit reading.
  \<^item> \<open>time.Time\<close> is the number of nanoseconds since the zero time (January 1, year 1, UTC),
    so \<open>t.IsZero()\<close> is \<open>t = 0\<close> and \<open>Truncate\<close> rounds down to a multiple of the duration, as
    the package documents. There is one clock; the monotonic reading is not kept apart.
  \<^item> \<open>time.Duration\<close> is a count of nanoseconds.
  \<^item> A Go string is its list of bytes.
\<close>

named_theorems go_int \<open>wrap-around arithmetic that does not wrap\<close>
named_theorems go_time \<open>the time package\<close>

type_synonym gotime = int
type_synonym duration = int

abbreviation millisecond :: duration where "millisecond \<equiv> 1000000"
abbreviation second :: duration where "second \<equiv> 1000000000"

subsection \<open>Signed 64-bit integers\<close>

abbreviation min_i64 :: int where "min_i64 \<equiv> - 9223372036854775808"
abbreviation max_i64 :: int where "max_i64 \<equiv> 9223372036854775807"

definition i64 :: "int \<Rightarrow> int" where
  "i64 x = (x + 9223372036854775808) mod 18446744073709551616 - 9223372036854775808"

definition in_i64 :: "int \<Rightarrow> bool" where
  "in_i64 x \<longleftrightarrow> min_i64 \<le> x \<and> x \<le> max_i64"

lemma i64_id [go_int]: "min_i64 \<le> x \<Longrightarrow> x \<le> max_i64 \<Longrightarrow> i64 x = x"
  by (simp add: i64_def)

lemma i64_in_range: "in_i64 (i64 x)"
proof -
  have "0 \<le> (x + 9223372036854775808) mod 18446744073709551616"
    and "(x + 9223372036854775808) mod 18446744073709551616 < 18446744073709551616"
    by simp_all
  then show ?thesis
    unfolding in_i64_def i64_def by linarith
qed

lemma i64_idem [simp]: "i64 (i64 x) = i64 x"
  using i64_in_range [of x] by (simp add: in_i64_def i64_id)

lemma i64_0 [simp]: "i64 0 = 0" and i64_1 [simp]: "i64 1 = 1"
  by (simp_all add: i64_id)

lemma int_div_le: "0 < L \<Longrightarrow> 0 \<le> x \<Longrightarrow> x div L \<le> (x :: int)"
  using zdiv_mono2 [of x 1 L] by simp

lemma sdiv_nonneg [go_int]: "0 \<le> x \<Longrightarrow> 0 < y \<Longrightarrow> x sdiv y = (x :: int) div y"
  by (cases "x = 0") (simp_all add: signed_divide_int_def)

text \<open>The wrapping is the signed reading of a 64-bit machine word.\<close>

lemma i64_word: "i64 x = sint (word_of_int x :: 64 word)"
proof -
  have "signed_take_bit 63 x = i64 x"
    by (simp add: i64_def signed_take_bit_eq_take_bit_shift take_bit_eq_mod)
  then show ?thesis
    by (simp add: sint_sbintrunc')
qed

subsection \<open>The time package\<close>

text \<open>Nanoseconds from the zero time to the Unix epoch.\<close>

definition unix_epoch :: gotime where
  "unix_epoch = 62135596800000000000"

definition Time_Unix :: "gotime \<Rightarrow> int" where
  "Time_Unix t = (t - unix_epoch) div second"

definition Time_UnixMilli :: "gotime \<Rightarrow> int" where
  "Time_UnixMilli t = (t - unix_epoch) div millisecond"

definition Time_UnixNano :: "gotime \<Rightarrow> int" where
  "Time_UnixNano t = i64 (t - unix_epoch)"

definition Time_Truncate :: "gotime \<Rightarrow> duration \<Rightarrow> gotime" where
  "Time_Truncate t d = (if d \<le> 0 then t else t - t mod d)"

text \<open>\<open>t.Sub(u)\<close> saturates at the ends of the \<open>Duration\<close> range.\<close>

definition Time_Sub :: "gotime \<Rightarrow> gotime \<Rightarrow> duration" where
  "Time_Sub t u = max min_i64 (min max_i64 (t - u))"

text \<open>\<open>d.Milliseconds()\<close>; Go's integer division truncates towards zero.\<close>

definition Duration_Milliseconds :: "duration \<Rightarrow> int" where
  "Duration_Milliseconds d = d sdiv millisecond"

lemma Time_Truncate_le [go_time]: "Time_Truncate t d \<le> t"
  by (simp add: Time_Truncate_def)

lemma Time_Truncate_gt [go_time]: "0 < d \<Longrightarrow> t < Time_Truncate t d + d"
  using pos_mod_bound [of d t] by (simp add: Time_Truncate_def)

lemma Time_Truncate_same:
  assumes d: "0 < d" and t: "Time_Truncate u d \<le> t" "t < Time_Truncate u d + d"
  shows "Time_Truncate t d = Time_Truncate u d"
proof -
  obtain q where q: "Time_Truncate u d = d * q"
    using d by (auto simp: Time_Truncate_def minus_mod_eq_mult_div)
  have "t div d = q"
    using t d unfolding q
    by (intro int_div_pos_eq [where r = "t - d * q"]) auto
  then show ?thesis
    using d q by (simp add: Time_Truncate_def minus_mod_eq_mult_div)
qed

lemma Time_Sub_0 [simp]: "Time_Sub t t = 0"
  by (simp add: Time_Sub_def)

lemma Time_Sub_exact [go_time]:
  "min_i64 \<le> t - u \<Longrightarrow> t - u \<le> max_i64 \<Longrightarrow> Time_Sub t u = t - u"
  by (simp add: Time_Sub_def)

lemma Time_Sub_ge_iff:
  "min_i64 < d \<Longrightarrow> d \<le> max_i64 \<Longrightarrow> d \<le> Time_Sub t u \<longleftrightarrow> d \<le> t - u"
  by (auto simp: Time_Sub_def)

subsection \<open>Merges of two lists\<close>

lemma shuffles_snoc1: "zs \<in> shuffles xs ys \<Longrightarrow> zs @ [x] \<in> shuffles (xs @ [x]) ys"
  by (induction zs arbitrary: xs ys) (auto simp: Cons_in_shuffles_iff)

lemma shuffles_snoc2: "zs \<in> shuffles xs ys \<Longrightarrow> zs @ [y] \<in> shuffles xs (ys @ [y])"
  using shuffles_snoc1 [of zs ys xs y] by (simp add: shuffles_commutes)

lemma shuffles_append1: "zs \<in> shuffles xs ys \<Longrightarrow> zs @ us \<in> shuffles (xs @ us) ys"
proof (induction us arbitrary: zs xs)
  case (Cons u us)
  from Cons.IH [OF shuffles_snoc1 [OF Cons.prems, of u]] show ?case by simp
qed simp

lemma shuffles_append2: "zs \<in> shuffles xs ys \<Longrightarrow> zs @ us \<in> shuffles xs (ys @ us)"
  using shuffles_append1 [of zs ys xs us] by (simp add: shuffles_commutes)

end
