(* ===== verification/Text.thy ===== *)
theory Text
  imports Prelude
begin

section \<open>Decimal numbers and strings\<close>

text \<open>
  The parts of \<open>strconv\<close> and \<open>strings\<close> the program calls, on byte strings, and the
  program's own \<open>itoa\<close> (\<open>src/adaptive_limit.go\<close>). Case mapping and white space are those of
  ASCII: bytes above 127 are left as they are.
\<close>

named_theorems dec_simps \<open>decimal text\<close>

text \<open>An error value is its message.\<close>

type_synonym err = string

subsection \<open>strconv\<close>

definition digit_char :: "nat \<Rightarrow> char" where
  "digit_char d = char_of (48 + d)"

definition digit_val :: "char \<Rightarrow> nat option" where
  "digit_val c = (let n = of_char c in if 48 \<le> n \<and> n \<le> 57 then Some (n - 48) else None)"

fun dec_nat :: "nat \<Rightarrow> string" where
  "dec_nat n = (if n < 10 then [digit_char n] else dec_nat (n div 10) @ [digit_char (n mod 10)])"

declare dec_nat.simps [simp del]

definition Itoa :: "int \<Rightarrow> string" where
  "Itoa i = (if i < 0 then CHR ''-'' # dec_nat (nat (- i)) else dec_nat (nat i))"

fun dec_val :: "nat \<Rightarrow> string \<Rightarrow> nat option" where
  "dec_val acc [] = Some acc"
| "dec_val acc (c # cs) =
     (case digit_val c of None \<Rightarrow> None | Some d \<Rightarrow> dec_val (10 * acc + d) cs)"

text \<open>\<open>strconv.Atoi\<close>: an optional sign, then digits only, in the range of \<open>int\<close>;
  \<open>None\<close> is the error.\<close>

definition dec_digits :: "string \<Rightarrow> nat option" where
  "dec_digits s = (if s = [] then None else dec_val 0 s)"

fun Atoi :: "string \<Rightarrow> int option" where
  "Atoi [] = None"
| "Atoi (c # cs) =
     (case (if c = CHR ''-'' then map_option (\<lambda>n. - int n) (dec_digits cs)
            else if c = CHR ''+'' then map_option int (dec_digits cs)
            else map_option int (dec_digits (c # cs))) of
        None \<Rightarrow> None
      | Some i \<Rightarrow> if in_i64 i then Some i else None)"

lemma of_digit_char [dec_simps]: "d < 10 \<Longrightarrow> (of_char (digit_char d) :: nat) = 48 + d"
  by (simp add: digit_char_def)

lemma digit_val_char [dec_simps]: "d < 10 \<Longrightarrow> digit_val (digit_char d) = Some d"
  by (simp add: digit_val_def of_digit_char)

lemma digit_char_neq [dec_simps]:
  assumes "d < 10" and "(of_char c :: nat) < 48 \<or> 57 < (of_char c :: nat)"
  shows "digit_char d \<noteq> c"
proof
  assume "digit_char d = c"
  with of_digit_char [OF assms(1)] have "of_char c = 48 + d" by simp
  with assms show False by linarith
qed

lemma dec_nat_nonempty [simp]: "dec_nat n \<noteq> []"
  by (subst dec_nat.simps) simp

lemma dec_nat_digits: "c \<in> set (dec_nat n) \<Longrightarrow> \<exists>d<10. c = digit_char d"
proof (induction n rule: dec_nat.induct)
  case (1 n)
  show ?case
  proof (cases "n < 10")
    case True
    with "1.prems" show ?thesis by (auto simp: dec_nat.simps [of n])
  next
    case False
    with "1.prems" have "c \<in> set (dec_nat (n div 10)) \<or> c = digit_char (n mod 10)"
      by (auto simp: dec_nat.simps [of n])
    moreover have "n mod 10 < 10" by simp
    ultimately show ?thesis using "1.IH" [OF False] by blast
  qed
qed

lemma dec_val_append:
  "dec_val acc (s @ t) = (case dec_val acc s of None \<Rightarrow> None | Some v \<Rightarrow> dec_val v t)"
  by (induction acc s rule: dec_val.induct) (auto split: option.splits)

lemma dec_val_dec_nat: "dec_val 0 (dec_nat n) = Some n"
proof (induction n rule: dec_nat.induct)
  case (1 n)
  show ?case
  proof (cases "n < 10")
    case True
    then show ?thesis by (subst dec_nat.simps) (simp add: digit_val_char)
  next
    case False
    with 1 show ?thesis
      by (subst dec_nat.simps) (simp add: dec_val_append digit_val_char)
  qed
qed

lemma dec_nat_inject [simp]: "dec_nat m = dec_nat n \<longleftrightarrow> m = n"
  by (metis dec_val_dec_nat option.inject)

lemma Itoa_nonempty [simp]: "Itoa i \<noteq> []"
  by (simp add: Itoa_def)

lemma dec_nat_head_digit: "\<exists>d cs. dec_nat n = digit_char d # cs \<and> d < 10"
  using dec_nat_digits [of _ n] dec_nat_nonempty [of n]
  by (metis list.exhaust list.set_intros(1))

lemma dash_not_digit: "d < 10 \<Longrightarrow> digit_char d \<noteq> CHR ''-''"
  and plus_not_digit: "d < 10 \<Longrightarrow> digit_char d \<noteq> CHR ''+''"
  and colon_not_digit: "d < 10 \<Longrightarrow> digit_char d \<noteq> CHR '':''"
  by (rule digit_char_neq; simp)+

lemma dec_nat_no_dash: "dec_nat m \<noteq> CHR ''-'' # s" "CHR ''-'' # s \<noteq> dec_nat m"
  using dec_nat_head_digit [of m] dash_not_digit by (metis list.inject)+

lemma Itoa_inject [simp]: "Itoa i = Itoa j \<longleftrightarrow> i = j"
  by (auto simp: Itoa_def dec_nat_no_dash)

lemma colon_notin_Itoa: "CHR '':'' \<notin> set (Itoa i)"
proof -
  have "CHR '':'' \<notin> set (dec_nat n)" for n
    using dec_nat_digits [of "CHR '':''" n] colon_not_digit by metis
  then show ?thesis by (simp add: Itoa_def)
qed

lemma Atoi_Itoa: "in_i64 i \<Longrightarrow> Atoi (Itoa i) = Some i"
proof (cases "i < 0")
  case True
  then show "in_i64 i \<Longrightarrow> ?thesis"
    by (simp add: Itoa_def dec_digits_def dec_val_dec_nat)
next
  case False
  obtain d cs where d: "dec_nat (nat i) = digit_char d # cs" "d < 10"
    using dec_nat_head_digit by blast
  have "dec_digits (digit_char d # cs) = Some (nat i)"
    using dec_val_dec_nat [of "nat i"] d by (simp add: dec_digits_def)
  with False d show "in_i64 i \<Longrightarrow> ?thesis"
    by (simp add: Itoa_def dash_not_digit plus_not_digit)
qed

lemma dec_nat_snoc: "0 < n \<Longrightarrow>
  dec_nat n = (if n div 10 = 0 then [] else dec_nat (n div 10)) @ [digit_char (n mod 10)]"
  by (subst dec_nat.simps) auto

text \<open>The same digits over binary integers, for evaluation.\<close>

function dec_int :: "int \<Rightarrow> string" where
  "dec_int n =
     (if n < 10 then [digit_char (nat n)] else dec_int (n div 10) @ [digit_char (nat (n mod 10))])"
  by pat_completeness auto
termination
  by (relation "measure nat") auto

declare dec_int.simps [simp del]

lemma dec_int_eq: "0 \<le> n \<Longrightarrow> dec_int n = dec_nat (nat n)"
proof (induction n rule: dec_int.induct)
  case (1 n)
  show ?case
  proof (cases "n < 10")
    case True
    with "1.prems" show ?thesis
      by (simp add: dec_int.simps [of n] dec_nat.simps [of "nat n"])
  next
    case False
    then have "\<not> nat n < 10" by simp
    with False 1 show ?thesis
      by (simp add: dec_int.simps [of n] dec_nat.simps [of "nat n"] nat_div_distrib nat_mod_distrib)
  qed
qed

lemma Itoa_code [code]: "Itoa i = (if i < 0 then CHR ''-'' # dec_int (- i) else dec_int i)"
  by (simp add: Itoa_def dec_int_eq)

subsection \<open>The program's own itoa\<close>

text \<open>
  \<open>itoa\<close> builds the digits from the right in a loop that runs while \<open>n > 0\<close>; a negative
  argument leaves the buffer empty.
\<close>

function itoa_loop :: "int \<Rightarrow> string \<Rightarrow> string" where
  "itoa_loop n buf =
     (if n > 0 then itoa_loop (n div 10) (digit_char (nat (n mod 10)) # buf) else buf)"
  by pat_completeness auto
termination
  by (relation "measure (\<lambda>(n, buf). nat n)") auto

declare itoa_loop.simps [simp del]

definition itoa :: "int \<Rightarrow> string" where
  "itoa n = (if n = 0 then ''0'' else itoa_loop n [])"

lemma itoa_loop_dec:
  "itoa_loop n buf = (if 0 < n then dec_nat (nat n) else []) @ buf"
proof (induction n buf rule: itoa_loop.induct)
  case (1 n buf)
  show ?case
  proof (cases "0 < n")
    case True
    have "nat n div 10 = nat (n div 10)" "nat n mod 10 = nat (n mod 10)"
      using True by (simp_all add: nat_div_distrib nat_mod_distrib)
    with True 1 show ?thesis
      by (subst itoa_loop.simps) (simp add: dec_nat_snoc [of "nat n"])
  next
    case False
    then show ?thesis by (subst itoa_loop.simps) simp
  qed
qed

lemma dec_nat_0: "dec_nat 0 = ''0''"
  by (subst dec_nat.simps) code_simp

lemma itoa_eq: "itoa n = (if n < 0 then [] else Itoa n)"
  by (auto simp: itoa_def itoa_loop_dec Itoa_def dec_nat_0)

subsection \<open>strings\<close>

definition upper_char :: "char \<Rightarrow> char" where
  "upper_char c = (let n = of_char c :: nat in if 97 \<le> n \<and> n \<le> 122 then char_of (n - 32) else c)"

definition lower_char :: "char \<Rightarrow> char" where
  "lower_char c = (let n = of_char c :: nat in if 65 \<le> n \<and> n \<le> 90 then char_of (n + 32) else c)"

definition ToUpper :: "string \<Rightarrow> string" where
  "ToUpper s = map upper_char s"

definition is_space :: "char \<Rightarrow> bool" where
  "is_space c = (let n = of_char c :: nat in n = 32 \<or> (9 \<le> n \<and> n \<le> 13))"

definition TrimSpace :: "string \<Rightarrow> string" where
  "TrimSpace s = rev (dropWhile is_space (rev (dropWhile is_space s)))"

text \<open>\<open>strings.TrimRight\<close> with a one-character cutset.\<close>

definition TrimRight :: "string \<Rightarrow> char \<Rightarrow> string" where
  "TrimRight s c = rev (dropWhile (\<lambda>x. x = c) (rev s))"

text \<open>The part before the first separator (\<open>SplitN(s, sep, 2)[0]\<close>).\<close>

definition before_first :: "char \<Rightarrow> string \<Rightarrow> string" where
  "before_first c s = takeWhile (\<lambda>x. x \<noteq> c) s"

text \<open>The part before the last separator, if there is one
  (\<open>s[:strings.LastIndex(s, sep)]\<close>).\<close>

definition before_last :: "char \<Rightarrow> string \<Rightarrow> string option" where
  "before_last c s =
     (if c \<in> set s then Some (rev (tl (dropWhile (\<lambda>x. x \<noteq> c) (rev s)))) else None)"

fun Join :: "string list \<Rightarrow> string \<Rightarrow> string" where
  "Join [] sep = []"
| "Join [x] sep = x"
| "Join (x # xs) sep = x @ sep @ Join xs sep"

text \<open>\<open>%q\<close>: Go's quoted form. Bytes above 127 are taken to be printable UTF-8 and left alone.\<close>

definition hex_digit :: "nat \<Rightarrow> char" where
  "hex_digit d = char_of (if d < 10 then 48 + d else 87 + d)"

definition quote_char :: "char \<Rightarrow> string" where
  "quote_char c =
     (let n = of_char c :: nat in
      if n = 34 \<or> n = 92 then [char_of (92 :: nat), c]
      else if n = 7 then [char_of (92 :: nat), CHR ''a'']
      else if n = 8 then [char_of (92 :: nat), CHR ''b'']
      else if n = 9 then [char_of (92 :: nat), CHR ''t'']
      else if n = 10 then [char_of (92 :: nat), CHR ''n'']
      else if n = 11 then [char_of (92 :: nat), CHR ''v'']
      else if n = 12 then [char_of (92 :: nat), CHR ''f'']
      else if n = 13 then [char_of (92 :: nat), CHR ''r'']
      else if n < 32 \<or> n = 127 then [char_of (92 :: nat), CHR ''x'', hex_digit (n div 16), hex_digit (n mod 16)]
      else [c])"

definition Quote :: "string \<Rightarrow> string" where
  "Quote s = char_of (34 :: nat) # concat (map quote_char s) @ [char_of (34 :: nat)]"

lemma upper_char_idem [simp]: "upper_char (upper_char c) = upper_char c"
proof -
  have "\<not> (97 \<le> (of_char (upper_char c) :: nat) \<and> (of_char (upper_char c) :: nat) \<le> 122)"
    by (auto simp: upper_char_def Let_def)
  then show ?thesis
    unfolding upper_char_def [of "upper_char c"] Let_def by (rule if_not_P)
qed

lemma ToUpper_idem [simp]: "ToUpper (ToUpper s) = ToUpper s"
  by (simp add: ToUpper_def)

lemma before_last_append:
  assumes "c \<notin> set t"
  shows "before_last c (s @ c # t) = Some s"
proof -
  have "dropWhile (\<lambda>x. x \<noteq> c) (rev t) = []"
    using assms by auto
  then have "dropWhile (\<lambda>x. x \<noteq> c) (rev t @ c # rev s) = c # rev s"
    by (simp add: dropWhile_append)
  then show ?thesis by (simp add: before_last_def)
qed

text \<open>A name and a number joined by a colon are read back from the text: the window keys of
  the counters never collide.\<close>

lemma colon_key_inject:
  "s @ CHR '':'' # Itoa i = t @ CHR '':'' # Itoa j \<longleftrightarrow> s = t \<and> i = j"
proof
  assume eq: "s @ CHR '':'' # Itoa i = t @ CHR '':'' # Itoa j"
  then have "s = t"
    using before_last_append [OF colon_notin_Itoa] by (metis option.inject)
  with eq show "s = t \<and> i = j" by simp
qed simp

end
