(* ===== verification/GoFloat.thy ===== *)
theory GoFloat
  imports Prelude Text "HOL-Library.Log_Nat"
begin

section \<open>float64\<close>

text \<open>
  A \<open>float64\<close> is the rational number it denotes, and every arithmetic operation is the exact
  operation followed by \<open>fl64\<close>, rounding to nearest with ties to even on a 53-bit
  significand, as IEEE 754 and the Go specification have it. The exponent is not bounded:
  infinities, NaN, subnormals and the sign of zero are outside the model, so a division is
  only used where the divisor is not zero.
\<close>

named_theorems fl_simps \<open>exact cases of float64 rounding\<close>

subsection \<open>Rounding to an integer, ties to even\<close>

definition rne :: "rat \<Rightarrow> int" where
  "rne x = (let f = \<lfloor>x\<rfloor>; d = x - of_int f
            in if d < 1/2 then f else if 1/2 < d then f + 1 else if even f then f else f + 1)"

lemma rne_of_int [fl_simps]: "rne (of_int n) = n"
  by (simp add: rne_def)

lemma rne_bounds: "\<lfloor>x\<rfloor> \<le> rne x" "rne x \<le> \<lfloor>x\<rfloor> + 1"
  by (simp_all add: rne_def Let_def)

lemma rne_mono: "x \<le> y \<Longrightarrow> rne x \<le> rne y"
proof (cases "\<lfloor>x\<rfloor> = \<lfloor>y\<rfloor>")
  case True
  then show "x \<le> y \<Longrightarrow> ?thesis"
    by (auto simp: rne_def Let_def)
next
  case False
  assume "x \<le> y"
  with False have "\<lfloor>x\<rfloor> + 1 \<le> \<lfloor>y\<rfloor>"
    using floor_mono [of x y] by linarith
  with rne_bounds [of x] rne_bounds [of y] show ?thesis by linarith
qed

lemma rne_le_int: "x \<le> of_int n \<Longrightarrow> rne x \<le> n"
  using rne_mono [of x "of_int n"] by (simp add: rne_of_int)

lemma int_le_rne: "of_int n \<le> x \<Longrightarrow> n \<le> rne x"
  using rne_mono [of "of_int n" x] by (simp add: rne_of_int)

lemma rne_minus: "rne (- x) = - rne x"
proof (cases "x = of_int \<lfloor>x\<rfloor>")
  case True
  then show ?thesis by (metis of_int_minus rne_of_int)
next
  case False
  then have "of_int \<lfloor>x\<rfloor> < x" by linarith
  then have "\<lfloor>- x\<rfloor> = - \<lfloor>x\<rfloor> - 1"
    by (intro floor_unique) (simp_all, linarith+)
  then show ?thesis by (auto simp: rne_def Let_def)
qed

subsection \<open>The binary exponent of a positive number\<close>

definition expo :: "rat \<Rightarrow> int" where
  "expo x =
     (let (a, b) = quotient_of x; e = bitlen a - bitlen b
      in if 2 powi e \<le> x then e else e - 1)"

lemma bitlen_powi: "0 < a \<Longrightarrow> 2 powi (bitlen a - 1) \<le> (of_int a :: rat)"
  "0 < a \<Longrightarrow> (of_int a :: rat) < 2 powi (bitlen a)"
proof -
  assume a: "0 < a"
  then have pos: "0 < bitlen a"
    by (metis bitlen_eq_zero_iff bitlen_nonneg linorder_not_le order_le_imp_less_or_eq)
  have b: "2 ^ nat (bitlen a - 1) \<le> a" "a < 2 ^ nat (bitlen a)"
    using bitlen_bounds [OF a] by auto
  have "(2 :: rat) powi (bitlen a - 1) = of_int (2 ^ nat (bitlen a - 1))"
    "(2 :: rat) powi (bitlen a) = of_int (2 ^ nat (bitlen a))"
    using pos by (simp_all add: power_int_def)
  with b show "2 powi (bitlen a - 1) \<le> (of_int a :: rat)"
    and "(of_int a :: rat) < 2 powi (bitlen a)"
    by (metis of_int_le_iff, metis of_int_less_iff)
qed

lemma expo_bounds:
  assumes x: "0 < x"
  shows "2 powi (expo x) \<le> x" and "x < 2 powi (expo x + 1)"
proof -
  obtain a b where q: "quotient_of x = (a, b)" by force
  have b: "0 < b" using quotient_of_denom_pos [OF q] .
  have xab: "x = of_int a / of_int b" using quotient_of_div [OF q] .
  with x b have a: "0 < a" by (simp add: zero_less_divide_iff)
  let ?e = "bitlen a - bitlen b"
  have bp: "0 < (of_int b :: rat)" using b by simp
  have "x < 2 powi bitlen a / 2 powi (bitlen b - 1)"
    unfolding xab using frac_less [OF _ bitlen_powi(2) [OF a] _ bitlen_powi(1) [OF b]] a by simp
  also have "\<dots> = 2 powi (?e + 1)"
    by (simp add: power_int_diff power_int_add)
  finally have up: "x < 2 powi (?e + 1)" .
  have "2 powi (?e - 1) = (2 :: rat) powi (bitlen a - 1) / 2 powi bitlen b"
    by (simp add: power_int_diff)
  also have "\<dots> \<le> x"
    unfolding xab
    using frac_le [OF _ bitlen_powi(1) [OF a] bp less_imp_le [OF bitlen_powi(2) [OF b]]] a by simp
  finally have lo: "2 powi (?e - 1) \<le> x" .
  show "2 powi (expo x) \<le> x" and "x < 2 powi (expo x + 1)"
    using up lo by (auto simp: expo_def q Let_def)
qed

lemma powi2_less_cancel: "(2 :: rat) powi a < 2 powi b \<Longrightarrow> a < b"
  by (metis linorder_not_le one_le_numeral power_int_increasing)

lemma expo_mono: "0 < x \<Longrightarrow> x \<le> y \<Longrightarrow> expo x \<le> expo y"
  using expo_bounds [of x] expo_bounds [of y] powi2_less_cancel [of "expo x" "expo y + 1"]
  by linarith

subsection \<open>Rounding to a float64\<close>

definition ulp :: "rat \<Rightarrow> rat" where
  "ulp x = 2 powi (expo \<bar>x\<bar> - 52)"

definition fl64 :: "rat \<Rightarrow> rat" where
  "fl64 x = (if x = 0 then 0 else of_int (rne (x / ulp x)) * ulp x)"

lemma ulp_pos [simp]: "0 < ulp x"
  by (simp add: ulp_def)

lemma fl64_0 [simp]: "fl64 0 = 0"
  by (simp add: fl64_def)

lemma fl64_minus: "fl64 (- x) = - fl64 x"
  by (simp add: fl64_def ulp_def rne_minus)

lemma fl64_binade:
  assumes x: "0 < x"
  shows "2 powi (expo x) \<le> fl64 x" and "fl64 x \<le> 2 powi (expo x + 1)"
proof -
  let ?u = "ulp x"
  have u: "?u = 2 powi (expo x - 52)" "0 < ?u" using x by (simp_all add: ulp_def)
  have lo: "of_int (2 ^ 52) * ?u = 2 powi (expo x)"
    and hi: "of_int (2 ^ 53) * ?u = 2 powi (expo x + 1)"
    unfolding u by (simp_all add: power_int_diff power_int_add)
  have "of_int (2 ^ 52) \<le> x / ?u" "x / ?u \<le> of_int (2 ^ 53)"
    using expo_bounds [OF x] lo hi u(2) by (simp_all add: pos_le_divide_eq pos_divide_le_eq)
  then have "2 ^ 52 \<le> rne (x / ?u)" "rne (x / ?u) \<le> 2 ^ 53"
    using int_le_rne rne_le_int by blast+
  then have "of_int (2 ^ 52) * ?u \<le> of_int (rne (x / ?u)) * ?u"
    "of_int (rne (x / ?u)) * ?u \<le> of_int (2 ^ 53) * ?u"
    using u(2) by (simp_all only: of_int_le_iff mult_le_cancel_right_pos)
  with lo hi x show "2 powi (expo x) \<le> fl64 x" and "fl64 x \<le> 2 powi (expo x + 1)"
    by (simp_all add: fl64_def)
qed

lemma fl64_pos: "0 < x \<Longrightarrow> 0 < fl64 x"
  using fl64_binade(1) [of x] by (metis less_le_trans zero_less_numeral zero_less_power_int)

lemma fl64_nonneg: "0 \<le> x \<Longrightarrow> 0 \<le> fl64 x"
  using fl64_pos [of x] by (cases "x = 0") auto

lemma fl64_mono_pos:
  assumes x: "0 < x" and xy: "x \<le> y"
  shows "fl64 x \<le> fl64 y"
proof (cases "expo x = expo y")
  case True
  then have "ulp x = ulp y" using x xy by (simp add: ulp_def)
  moreover have "x / ulp y \<le> y / ulp y" using xy by (simp add: divide_right_mono less_imp_le)
  ultimately show ?thesis
    using x xy rne_mono by (simp add: fl64_def mult_right_mono less_imp_le)
next
  case False
  with expo_mono [OF x xy] have "expo x + 1 \<le> expo y" by linarith
  then have "(2 :: rat) powi (expo x + 1) \<le> 2 powi (expo y)"
    by (intro power_int_increasing) auto
  with fl64_binade(2) [OF x] fl64_binade(1) [of y] x xy show ?thesis by linarith
qed

lemma fl64_mono: "x \<le> y \<Longrightarrow> fl64 x \<le> fl64 y"
proof -
  assume xy: "x \<le> y"
  consider "0 < x" | "x \<le> 0" "0 \<le> y" | "y < 0" by linarith
  then show ?thesis
  proof cases
    case 1
    from this xy show ?thesis by (rule fl64_mono_pos)
  next
    case 2
    with fl64_nonneg [of "- x"] fl64_nonneg [of y] show ?thesis by (simp add: fl64_minus)
  next
    case 3
    with xy fl64_mono_pos [of "- y" "- x"] show ?thesis by (simp add: fl64_minus)
  qed
qed

text \<open>An integer of at most 53 bits is exact.\<close>

lemma fl64_int_pos:
  assumes n: "0 < n" "n \<le> 2 ^ 53"
  shows "fl64 (of_int n) = of_int n"
proof -
  let ?x = "of_int n :: rat" and ?e = "expo (of_int n)"
  have x: "0 < ?x" using n by simp
  have "?x \<le> 2 powi 53" using n(2) by (simp add: power_int_def)
  have "1 \<le> ?x" using n(1) by simp
  then have e0: "0 \<le> ?e"
    using expo_bounds(2) [OF x] powi2_less_cancel [of 0 "?e + 1"] by simp
  have e53: "?e \<le> 53"
    using expo_bounds(1) [OF x] \<open>?x \<le> 2 powi 53\<close> powi2_less_cancel [of 53 ?e]
    by (metis leD linorder_not_le order_trans power_int_strict_increasing one_less_numeral_iff semiring_norm(76))
  have "\<exists>m. ?x = of_int m * ulp ?x"
  proof (cases "?e = 53")
    case True
    then have "?x = 2 powi 53"
      using expo_bounds(1) [OF x] \<open>?x \<le> 2 powi 53\<close> by simp
    then have "?x = of_int (2 ^ 52) * ulp ?x"
      using True x by (simp add: ulp_def power_int_def)
    then show ?thesis ..
  next
    case False
    with e53 have "?e - 52 \<le> 0" by linarith
    then have "ulp ?x = 1 / of_int (2 ^ nat (52 - ?e))"
      using x by (simp add: ulp_def power_int_def divide_simps)
    then have "?x = of_int (n * 2 ^ nat (52 - ?e)) * ulp ?x" by simp
    then show ?thesis ..
  qed
  then obtain m where m: "?x = of_int m * ulp ?x" ..
  then have "?x / ulp ?x = of_int m"
    by (metis less_irrefl nonzero_mult_div_cancel_right ulp_pos)
  with m x show ?thesis by (simp add: fl64_def rne_of_int)
qed

lemma fl64_int [fl_simps]: "\<bar>n\<bar> \<le> 2 ^ 53 \<Longrightarrow> fl64 (of_int n) = of_int n"
  using fl64_int_pos [of n] fl64_int_pos [of "- n"] fl64_minus [of "of_int n"]
  by (cases "n = 0"; cases "0 < n") auto

lemma fl64_ge_int: "\<bar>n\<bar> \<le> 2 ^ 53 \<Longrightarrow> of_int n \<le> x \<Longrightarrow> of_int n \<le> fl64 x"
  and fl64_le_int: "\<bar>n\<bar> \<le> 2 ^ 53 \<Longrightarrow> x \<le> of_int n \<Longrightarrow> fl64 x \<le> of_int n"
  using fl64_mono fl64_int by metis+

subsection \<open>Operations and conversions\<close>

definition fadd :: "rat \<Rightarrow> rat \<Rightarrow> rat" where "fadd x y = fl64 (x + y)"
definition fsub :: "rat \<Rightarrow> rat \<Rightarrow> rat" where "fsub x y = fl64 (x - y)"
definition fmul :: "rat \<Rightarrow> rat \<Rightarrow> rat" where "fmul x y = fl64 (x * y)"
definition fdiv :: "rat \<Rightarrow> rat \<Rightarrow> rat" where "fdiv x y = fl64 (x / y)"

text \<open>\<open>float64(n)\<close> and \<open>int(x)\<close>; the second truncates towards zero.\<close>

definition float_of_int :: "int \<Rightarrow> rat" where
  "float_of_int n = fl64 (of_int n)"

definition int_of_float :: "rat \<Rightarrow> int" where
  "int_of_float x = (if 0 \<le> x then \<lfloor>x\<rfloor> else \<lceil>x\<rceil>)"

text \<open>\<open>d.Seconds()\<close>: whole seconds plus the rest divided by \<open>1e9\<close>.\<close>

definition Duration_Seconds :: "duration \<Rightarrow> rat" where
  "Duration_Seconds d =
     fadd (float_of_int (d sdiv second)) (fdiv (float_of_int (d smod second)) (of_int second))"

text \<open>\<open>fmt.Sprintf("%.0f", x)\<close>: the nearest integer, ties to even.\<close>

definition fmt_f0 :: "rat \<Rightarrow> string" where
  "fmt_f0 x = (if x < 0 \<and> rne x = 0 then ''-0'' else Itoa (rne x))"

lemma float_of_int_exact [fl_simps]: "\<bar>n\<bar> \<le> 2 ^ 53 \<Longrightarrow> float_of_int n = of_int n"
  by (simp add: float_of_int_def fl64_int)

lemma int_of_float_of_int [simp]: "int_of_float (of_int n) = n"
  by (simp add: int_of_float_def)

lemma int_of_float_mono: "x \<le> y \<Longrightarrow> int_of_float x \<le> int_of_float y"
  unfolding int_of_float_def
  by (auto intro: floor_mono ceiling_mono) (meson ceiling_le_zero linorder_not_le
      order_less_imp_le order_trans zero_le_floor)

lemma Duration_Seconds_whole [fl_simps]:
  "\<bar>k\<bar> \<le> 2 ^ 53 \<Longrightarrow> Duration_Seconds (k * second) = of_int k"
  by (simp add: Duration_Seconds_def signed_divide_int_def signed_modulo_int_def
      float_of_int_def fadd_def fdiv_def abs_mult sgn_mult fl64_int sgn_mult_abs)

end
