(* ===== verification/Redis.thy ===== *)
theory Redis
  imports GoFloat
begin

section \<open>The Redis server and its client, as a parameter\<close>

text \<open>
  The program talks to Redis through the go-redis client; neither is part of the repository.
  A client is therefore a parameter of everything that uses one: the record \<open>redis\<close> of the
  two ways the code reaches the server, a (transaction) pipeline of commands and a script.
  What the code relies on is the locale \<open>redis_client\<close>: a call either takes effect as the
  commands are documented (\<open>spec_cmds\<close>, on the key space \<open>kv\<close>), or it fails, with an error
  for the call and for every command, having had its effect or not.

  \<open>spec_cmd\<close> is the documented behaviour of the commands in use, with the go-redis encoding
  of durations: whole seconds for EXPIRE and TTL, milliseconds for SET where seconds are not
  exact, Unix seconds for EXPIREAT. Values are kept as the numbers their text denotes. The
  server's clock is the client's.
\<close>

named_theorems redis_simps \<open>documented behaviour of Redis commands\<close>

datatype rval = VInt int | VFloat rat | VZSet "(string \<times> rat) list"

datatype redis_cmd =
    Incr string
  | Expire string duration
  | ExpireAt string gotime
  | GetKey string
  | SetKey string rval duration
  | SetKeyNX string rval duration
  | TTLKey string
  | Del string
  | PingCmd
  | ZRemRangeByScore string rat rat
  | ZAdd string rat string
  | ZCard string

datatype reply = RepInt int | RepVal rval | RepOK | RepNil | RepErr err

text \<open>The key space: a value and, when it expires, the last moment it is alive.\<close>

type_synonym kv = "string \<rightharpoonup> rval \<times> gotime option"

definition kv_alive :: "gotime \<Rightarrow> gotime option \<Rightarrow> bool" where
  "kv_alive t d = (case d of None \<Rightarrow> True | Some e \<Rightarrow> t \<le> e)"

definition kv_at :: "gotime \<Rightarrow> kv \<Rightarrow> string \<Rightarrow> (rval \<times> gotime option) option" where
  "kv_at t m k = (case m k of None \<Rightarrow> None | Some (v, d) \<Rightarrow> if kv_alive t d then Some (v, d) else None)"

text \<open>go-redis: EXPIRE takes seconds, and a positive duration below one second counts as one;
  SET takes milliseconds when seconds would not be exact.\<close>

definition format_sec :: "duration \<Rightarrow> int" where
  "format_sec d = (if 0 < d \<and> d < second then 1 else d sdiv second)"

definition format_ms :: "duration \<Rightarrow> int" where
  "format_ms d = (if 0 < d \<and> d < millisecond then 1 else d sdiv millisecond)"

definition set_lifetime :: "duration \<Rightarrow> duration" where
  "set_lifetime d = (if d < second \<or> d smod second \<noteq> 0 then format_ms d * millisecond
                     else format_sec d * second)"

definition set_deadline :: "gotime \<Rightarrow> gotime \<Rightarrow> string \<Rightarrow> kv \<Rightarrow> reply \<times> kv" where
  "set_deadline t d k m =
     (case kv_at t m k of
        None \<Rightarrow> (RepInt 0, m)
      | Some (v, _) \<Rightarrow> (RepInt 1, if d \<le> t then m(k := None) else m(k \<mapsto> (v, Some d))))"

definition zset_of :: "rval \<Rightarrow> (string \<times> rat) list option" where
  "zset_of v = (case v of VZSet z \<Rightarrow> Some z | _ \<Rightarrow> None)"

definition zset_at :: "gotime \<Rightarrow> kv \<Rightarrow> string \<Rightarrow> ((string \<times> rat) list \<times> gotime option) option" where
  "zset_at t m k =
     (case kv_at t m k of
        None \<Rightarrow> Some ([], None)
      | Some (v, d) \<Rightarrow> map_option (\<lambda>z. (z, d)) (zset_of v))"

definition wrongtype :: err where "wrongtype = ''WRONGTYPE''"

text \<open>A sorted set that becomes empty is removed.\<close>

definition put_zset :: "string \<Rightarrow> (string \<times> rat) list \<Rightarrow> gotime option \<Rightarrow> kv \<Rightarrow> kv" where
  "put_zset k z d m = (if z = [] then m(k := None) else m(k \<mapsto> (VZSet z, d)))"

definition zadd :: "string \<Rightarrow> rat \<Rightarrow> (string \<times> rat) list \<Rightarrow> (string \<times> rat) list" where
  "zadd mem score z = filter (\<lambda>(x, _). x \<noteq> mem) z @ [(mem, score)]"

fun spec_cmd :: "gotime \<Rightarrow> redis_cmd \<Rightarrow> kv \<Rightarrow> reply \<times> kv" where
  "spec_cmd t (Incr k) m =
     (case kv_at t m k of
        None \<Rightarrow> (RepInt 1, m(k \<mapsto> (VInt 1, None)))
      | Some (VInt n, d) \<Rightarrow>
          if n < min_i64 \<or> max_i64 \<le> n
          then (RepErr ''ERR increment or decrement would overflow'', m)
          else (RepInt (n + 1), m(k \<mapsto> (VInt (n + 1), d)))
      | Some (VFloat x, d) \<Rightarrow> (RepErr ''ERR value is not an integer or out of range'', m)
      | Some (VZSet z, d) \<Rightarrow> (RepErr wrongtype, m))"
| "spec_cmd t (Expire k w) m = set_deadline t (t + format_sec w * second) k m"
| "spec_cmd t (ExpireAt k e) m = set_deadline t (unix_epoch + Time_Unix e * second) k m"
| "spec_cmd t (GetKey k) m =
     (case kv_at t m k of
        None \<Rightarrow> (RepNil, m)
      | Some (VZSet z, d) \<Rightarrow> (RepErr wrongtype, m)
      | Some (v, d) \<Rightarrow> (RepVal v, m))"
| "spec_cmd t (SetKey k v w) m =
     (RepOK, m(k \<mapsto> (v, if 0 < w then Some (t + set_lifetime w)
                         else if w = - 1 then (case kv_at t m k of None \<Rightarrow> None | Some (_, d) \<Rightarrow> d)
                         else None)))"
| "spec_cmd t (SetKeyNX k v w) m =
     (if w < - 1 then (RepErr ''ERR invalid expire time in 'set' command'', m)
      else if kv_at t m k \<noteq> None then (RepInt 0, m)
      else (RepInt 1, m(k \<mapsto> (v, if 0 < w then Some (t + set_lifetime w) else None))))"
| "spec_cmd t (TTLKey k) m =
     (case kv_at t m k of
        None \<Rightarrow> (RepInt (- 2), m)
      | Some (_, None) \<Rightarrow> (RepInt (- 1), m)
      | Some (_, Some e) \<Rightarrow> (RepInt (((e - t) div millisecond + 500) div 1000), m))"
| "spec_cmd t (Del k) m = (RepInt (if kv_at t m k = None then 0 else 1), m(k := None))"
| "spec_cmd t PingCmd m = (RepOK, m)"
| "spec_cmd t (ZRemRangeByScore k lo hi) m =
     (case zset_at t m k of
        None \<Rightarrow> (RepErr wrongtype, m)
      | Some (z, d) \<Rightarrow>
          let z' = filter (\<lambda>(_, s). \<not> (lo \<le> s \<and> s \<le> hi)) z
          in (RepInt (int (length z) - int (length z')), put_zset k z' d m))"
| "spec_cmd t (ZAdd k s x) m =
     (case zset_at t m k of
        None \<Rightarrow> (RepErr wrongtype, m)
      | Some (z, d) \<Rightarrow>
          (RepInt (if x \<in> fst ` set z then 0 else 1), put_zset k (zadd x s z) d m))"
| "spec_cmd t (ZCard k) m =
     (case zset_at t m k of
        None \<Rightarrow> (RepErr wrongtype, m)
      | Some (z, d) \<Rightarrow> (RepInt (int (length z)), m))"

fun spec_cmds :: "gotime \<Rightarrow> redis_cmd list \<Rightarrow> kv \<Rightarrow> reply list \<times> kv" where
  "spec_cmds t [] m = ([], m)"
| "spec_cmds t (c # cs) m =
     (case spec_cmd t c m of (r, m1) \<Rightarrow> case spec_cmds t cs m1 of (rs, m2) \<Rightarrow> (r # rs, m2))"

text \<open>The error of a pipeline is that of its first command with one; a missing key is
  the error \<open>redis.Nil\<close>.\<close>

definition redis_Nil :: err where "redis_Nil = ''redis: nil''"

fun reply_err :: "reply \<Rightarrow> err option" where
  "reply_err (RepErr e) = Some e"
| "reply_err RepNil = Some redis_Nil"
| "reply_err _ = None"

fun first_err :: "reply list \<Rightarrow> err option" where
  "first_err [] = None"
| "first_err (r # rs) = (case reply_err r of Some e \<Rightarrow> Some e | None \<Rightarrow> first_err rs)"

text \<open>\<open>cmd.Val()\<close> of an integer command, and \<open>cmd.Int64()\<close> with its error.\<close>

fun reply_val :: "reply \<Rightarrow> int" where
  "reply_val (RepInt n) = n"
| "reply_val _ = 0"

fun reply_int :: "reply \<Rightarrow> err + int" where
  "reply_int (RepVal (VInt n)) = Inr n"
| "reply_int (RepVal _) = Inl ''strconv: invalid syntax''"
| "reply_int RepNil = Inl redis_Nil"
| "reply_int (RepErr e) = Inl e"
| "reply_int (RepInt n) = Inr n"
| "reply_int RepOK = Inl ''strconv: invalid syntax''"

definition reply0 :: "reply list \<Rightarrow> reply" where
  "reply0 rs = (case rs of r # _ \<Rightarrow> r | [] \<Rightarrow> RepNil)"

definition reply1 :: "reply list \<Rightarrow> reply" where
  "reply1 rs = (case rs of _ # r # _ \<Rightarrow> r | _ \<Rightarrow> RepNil)"

lemma reply_sel [redis_simps]: "reply0 (r # rs) = r" "reply1 (r # r' # rs) = r'"
  by (simp_all add: reply0_def reply1_def)

record 'r redis =
  Exec :: "gotime \<Rightarrow> redis_cmd list \<Rightarrow> 'r \<Rightarrow> (err option \<times> reply list) \<times> 'r"
  RunScript :: "gotime \<Rightarrow> (kv \<Rightarrow> (err + int) \<times> kv) \<Rightarrow> 'r \<Rightarrow> (err + int) \<times> 'r"

locale redis_client =
  fixes R :: "'r redis" and keys :: "'r \<Rightarrow> kv"
  assumes exec_law: "Exec R t cs r = ((e, rs), r') \<Longrightarrow>
      (rs = fst (spec_cmds t cs (keys r)) \<and> e = first_err rs \<and>
       keys r' = snd (spec_cmds t cs (keys r))) \<or>
      (e \<noteq> None \<and> e \<noteq> Some redis_Nil \<and> length rs = length cs \<and>
       (\<forall>x\<in>List.set rs. \<exists>m. x = RepErr m \<and> m \<noteq> redis_Nil) \<and>
       (keys r' = keys r \<or> keys r' = snd (spec_cmds t cs (keys r))))"
    and script_law: "RunScript R t f r = (v, r') \<Longrightarrow>
      (v = fst (f (keys r)) \<and> keys r' = snd (f (keys r))) \<or>
      (isl v \<and> (keys r' = keys r \<or> keys r' = snd (f (keys r))))"
begin

lemma exec_ok:
  assumes "Exec R t cs r = ((None, rs), r')"
  shows "spec_cmds t cs (keys r) = (rs, keys r')" and "first_err rs = None"
  using exec_law [OF assms] by (auto simp: prod_eq_iff)

lemma exec_effect:
  "Exec R t cs r = (er, r') \<Longrightarrow> keys r' = keys r \<or> keys r' = snd (spec_cmds t cs (keys r))"
  using exec_law [of t cs r "fst er" "snd er" r'] by auto

lemma script_ok:
  assumes "RunScript R t f r = (Inr n, r')"
  shows "f (keys r) = (Inr n, keys r')"
  using script_law [OF assms] by (auto simp: prod_eq_iff)

lemma script_effect:
  "RunScript R t f r = (v, r') \<Longrightarrow> keys r' = keys r \<or> keys r' = snd (f (keys r))"
  using script_law by blast

end

subsection \<open>A server that can go down\<close>

text \<open>The reference instance: the documented commands on a key space, and a switch that makes
  every call fail before it reaches the server.\<close>

record ref_redis =
  rKeys :: kv
  rDown :: bool

definition conn_refused :: err where "conn_refused = ''dial tcp: connection refused''"

definition ref_exec ::
  "gotime \<Rightarrow> redis_cmd list \<Rightarrow> ref_redis \<Rightarrow> (err option \<times> reply list) \<times> ref_redis" where
  "ref_exec t cs r =
     (if rDown r then ((Some conn_refused, map (\<lambda>_. RepErr conn_refused) cs), r)
      else case spec_cmds t cs (rKeys r) of (rs, m) \<Rightarrow> ((first_err rs, rs), r\<lparr>rKeys := m\<rparr>))"

definition ref_script ::
  "gotime \<Rightarrow> (kv \<Rightarrow> (err + int) \<times> kv) \<Rightarrow> ref_redis \<Rightarrow> (err + int) \<times> ref_redis" where
  "ref_script t f r =
     (if rDown r then (Inl conn_refused, r)
      else case f (rKeys r) of (v, m) \<Rightarrow> (v, r\<lparr>rKeys := m\<rparr>))"

definition ref_client :: "ref_redis redis" where
  "ref_client = \<lparr>Exec = ref_exec, RunScript = ref_script\<rparr>"

definition new_redis :: ref_redis where
  "new_redis = \<lparr>rKeys = Map.empty, rDown = False\<rparr>"

interpretation ref: redis_client ref_client rKeys
  by unfold_locales
    (auto simp: ref_client_def ref_exec_def ref_script_def conn_refused_def redis_Nil_def
      split: if_splits prod.splits)

text \<open>A client whose calls fail by a schedule: \<open>True\<close> is a call that does not reach the server.\<close>

fun flaky_exec ::
  "gotime \<Rightarrow> redis_cmd list \<Rightarrow> bool list \<times> kv \<Rightarrow> (err option \<times> reply list) \<times> bool list \<times> kv" where
  "flaky_exec t cs (True # fs, m) =
     ((Some conn_refused, map (\<lambda>_. RepErr conn_refused) cs), (fs, m))"
| "flaky_exec t cs (fs, m) =
     (case spec_cmds t cs m of (rs, m') \<Rightarrow> ((first_err rs, rs), (tl fs, m')))"

fun flaky_script ::
  "gotime \<Rightarrow> (kv \<Rightarrow> (err + int) \<times> kv) \<Rightarrow> bool list \<times> kv \<Rightarrow> (err + int) \<times> bool list \<times> kv" where
  "flaky_script t f (True # fs, m) = (Inl conn_refused, (fs, m))"
| "flaky_script t f (fs, m) = (case f m of (v, m') \<Rightarrow> (v, (tl fs, m')))"

definition flaky_client :: "(bool list \<times> kv) redis" where
  "flaky_client = \<lparr>Exec = flaky_exec, RunScript = flaky_script\<rparr>"

interpretation flaky: redis_client flaky_client snd
proof (unfold_locales, goal_cases)
  case (1 t cs r e rs r')
  then show ?case
    by (cases "(t, cs, r)" rule: flaky_exec.cases)
      (auto simp: flaky_client_def conn_refused_def redis_Nil_def split: prod.splits)
next
  case (2 t f r v r')
  then show ?case
    by (cases "(t, f, r)" rule: flaky_script.cases)
      (auto simp: flaky_client_def split: prod.splits)
qed

text \<open>A client whose calls are known to succeed as long as \<open>up\<close> holds.\<close>

locale reliable_redis = redis_client +
  fixes up :: "'a \<Rightarrow> bool"
  assumes exec_up: "up r \<Longrightarrow> Exec R t cs r = ((e, rs), r') \<Longrightarrow>
      rs = fst (spec_cmds t cs (keys r)) \<and> e = first_err rs \<and>
      keys r' = snd (spec_cmds t cs (keys r)) \<and> up r'"
    and script_up: "up r \<Longrightarrow> RunScript R t f r = (v, r') \<Longrightarrow>
      v = fst (f (keys r)) \<and> keys r' = snd (f (keys r)) \<and> up r'"

interpretation ref_up: reliable_redis ref_client rKeys "\<lambda>r. \<not> rDown r"
  by unfold_locales
    (auto simp: ref_client_def ref_exec_def ref_script_def split: if_splits prod.splits)

subsection \<open>What the commands do\<close>

lemma kv_at_upd [redis_simps]:
  "kv_at t (m(k \<mapsto> (v, d))) k' =
     (if k' = k then if kv_alive t d then Some (v, d) else None else kv_at t m k')"
  by (simp add: kv_at_def)

lemma kv_at_del [redis_simps]: "kv_at t (m(k := None)) k' = (if k' = k then None else kv_at t m k')"
  by (simp add: kv_at_def)

lemma kv_alive_simps [redis_simps]: "kv_alive t None" "kv_alive t (Some e) \<longleftrightarrow> t \<le> e"
  by (simp_all add: kv_alive_def)

lemma kv_at_alive: "kv_at t m k = Some (v, d) \<Longrightarrow> kv_alive t d"
  by (auto simp: kv_at_def split: option.splits if_splits)

lemma kv_at_earlier: "t \<le> t' \<Longrightarrow> kv_at t' m k = Some x \<Longrightarrow> kv_at t m k = Some x"
  by (auto simp: kv_at_def kv_alive_def split: option.splits if_splits)

lemma kv_at_dead: "t \<le> t' \<Longrightarrow> kv_at t m k = None \<Longrightarrow> kv_at t' m k = None"
  by (metis kv_at_earlier not_None_eq)

lemma format_sec_whole: "format_sec (n * second) = n"
proof (cases "n = 0")
  case False
  then have "\<not> (0 < n * second \<and> n * second < second)" by auto
  then show ?thesis by (simp add: format_sec_def signed_divide_int_def sgn_mult abs_mult sgn_mult_abs)
qed (simp add: format_sec_def signed_divide_int_def)

lemma set_lifetime_whole: "0 < n \<Longrightarrow> set_lifetime (n * second) = n * second"
  using format_sec_whole [of n]
  by (simp add: set_lifetime_def signed_modulo_int_def abs_mult sgn_mult)

lemma set_lifetime_whole_ms:
  assumes "0 < n"
  shows "set_lifetime (n * millisecond) = n * millisecond"
proof -
  have ms: "format_ms (n * millisecond) = n"
    using assms by (auto simp: format_ms_def signed_divide_int_def abs_mult sgn_mult)
  have "format_sec (n * millisecond) * second = n * millisecond"
    if "\<not> n * millisecond < second" "n * millisecond smod second = 0"
  proof -
    have "n * millisecond mod second = 0"
      using that(2) assms by (simp add: signed_modulo_int_def sgn_mult abs_mult)
    then have "n * millisecond div second * second = n * millisecond"
      by (simp only: minus_mod_eq_div_mult [symmetric])
    with that(1) assms show ?thesis
      by (simp add: format_sec_def signed_divide_int_def abs_mult sgn_mult)
  qed
  with ms show ?thesis by (auto simp: set_lifetime_def)
qed

text \<open>Commands touch only their own key.\<close>

fun cmd_key :: "redis_cmd \<Rightarrow> string option" where
  "cmd_key (Incr k) = Some k"
| "cmd_key (Expire k w) = Some k"
| "cmd_key (ExpireAt k e) = Some k"
| "cmd_key (GetKey k) = Some k"
| "cmd_key (SetKey k v w) = Some k"
| "cmd_key (SetKeyNX k v w) = Some k"
| "cmd_key (TTLKey k) = Some k"
| "cmd_key (Del k) = Some k"
| "cmd_key PingCmd = None"
| "cmd_key (ZRemRangeByScore k lo hi) = Some k"
| "cmd_key (ZAdd k s x) = Some k"
| "cmd_key (ZCard k) = Some k"

lemma spec_cmd_frame: "cmd_key c \<noteq> Some k' \<Longrightarrow> snd (spec_cmd t c m) k' = m k'"
  by (cases c) (auto simp: set_deadline_def put_zset_def Let_def split: option.splits rval.splits)

lemma spec_cmds_frame: "\<forall>c\<in>List.set cs. cmd_key c \<noteq> Some k' \<Longrightarrow> snd (spec_cmds t cs m) k' = m k'"
  by (induction cs arbitrary: m) (auto simp: spec_cmd_frame prod.case_eq_if)

context redis_client
begin

lemma exec_frame:
  assumes "Exec R t cs r = (er, r')" and "\<forall>c\<in>List.set cs. cmd_key c \<noteq> Some k"
  shows "keys r' k = keys r k"
  using exec_effect [OF assms(1)] spec_cmds_frame [OF assms(2)] by auto

end

end
