(* ===== verification/Store.thy ===== *)
theory Store
  imports Text
begin

section \<open>The Store interface and its in-memory implementation\<close>

text \<open>
  \<open>src/store.go\<close> and \<open>src/memory_store.go\<close>. The interface value is the record \<open>Store\<close> of
  its methods over the state \<open>'s\<close> behind it; every method gets the time at which it runs
  (it reads the clock once) and gives back a result or an error, and the new state. The
  context argument is not used by the implementations and is left out.

  The locale \<open>store\<close> is the contract the counters rely on, stated over \<open>live t s k\<close>, the
  value key \<open>k\<close> has for a reader at time \<open>t\<close>: what each method returns, that it touches its own
  key only, how long what it wrote lives, and that an increment that failed has counted once
  or not at all. \<open>okw\<close> are the lifetimes a backend can represent.
\<close>

named_theorems mem_simps \<open>the in-memory store\<close>

record 's Store =
  Increment :: "gotime \<Rightarrow> string \<Rightarrow> duration \<Rightarrow> 's \<Rightarrow> (err + int) \<times> 's"
  Get :: "gotime \<Rightarrow> string \<Rightarrow> 's \<Rightarrow> (err + int) \<times> 's"
  Set :: "gotime \<Rightarrow> string \<Rightarrow> int \<Rightarrow> duration \<Rightarrow> 's \<Rightarrow> (err + unit) \<times> 's"
  SetNX :: "gotime \<Rightarrow> string \<Rightarrow> int \<Rightarrow> duration \<Rightarrow> 's \<Rightarrow> (err + bool) \<times> 's"
  TTL :: "gotime \<Rightarrow> string \<Rightarrow> 's \<Rightarrow> (err + duration) \<times> 's"
  Delete :: "gotime \<Rightarrow> string \<Rightarrow> 's \<Rightarrow> (err + unit) \<times> 's"
  Ping :: "gotime \<Rightarrow> 's \<Rightarrow> (err + unit) \<times> 's"

subsection \<open>The contract\<close>

definition count_of :: "int option \<Rightarrow> int" where
  "count_of v = (case v of None \<Rightarrow> 0 | Some n \<Rightarrow> n)"

lemma count_of_simps [simp]: "count_of None = 0" "count_of (Some n) = n"
  by (simp_all add: count_of_def)

locale store =
  fixes S :: "'s Store" and live :: "gotime \<Rightarrow> 's \<Rightarrow> string \<Rightarrow> int option"
    and okw :: "duration \<Rightarrow> bool"
  assumes okw_nonneg: "okw w \<Longrightarrow> 0 \<le> w"
    and live_earlier: "t \<le> t' \<Longrightarrow> live t' s k = Some v \<Longrightarrow> live t s k = Some v"
    and incr_value: "Increment S t k w s = (Inr n, s') \<Longrightarrow> n = i64 (count_of (live t s k) + 1)"
    and incr_fresh: "Increment S t k w s = (Inr n, s') \<Longrightarrow> live t s k = None \<Longrightarrow> okw w \<Longrightarrow>
      t \<le> t' \<Longrightarrow> t' \<le> t + w \<Longrightarrow> live t' s' k = Some n"
    and incr_live: "Increment S t k w s = (Inr n, s') \<Longrightarrow> live t' s k = Some v \<Longrightarrow> okw w \<Longrightarrow>
      t \<le> t' \<Longrightarrow> t' \<le> t + w \<Longrightarrow> live t' s' k = Some n"
    and incr_frame: "Increment S t k w s = (r, s') \<Longrightarrow> k' \<noteq> k \<Longrightarrow> live t' s' k' = live t' s k'"
    and incr_failed: "Increment S t k w s = (Inl e, s') \<Longrightarrow> okw w \<Longrightarrow>
      (\<forall>t'. live t s k = None \<or> (t \<le> t' \<and> t' \<le> t + w \<and> live t' s k \<noteq> None) \<longrightarrow>
            live t' s' k = live t' s k) \<or>
      (\<forall>t'. t \<le> t' \<and> t' \<le> t + w \<longrightarrow> live t' s' k = Some (i64 (count_of (live t s k) + 1)))"
    and get_value: "Get S t k s = (Inr n, s') \<Longrightarrow> n = count_of (live t s k)"
    and get_frame: "Get S t k s = (Inr n, s') \<Longrightarrow> t \<le> t' \<Longrightarrow> live t' s' k' = live t' s k'"
    and set_live: "Set S t k v w s = (Inr u, s') \<Longrightarrow> okw w \<Longrightarrow> t \<le> t' \<Longrightarrow> t' \<le> t + w \<Longrightarrow>
      live t' s' k = Some v"
    and set_frame: "Set S t k v w s = (Inr u, s') \<Longrightarrow> t \<le> t' \<Longrightarrow> k' \<noteq> k \<Longrightarrow>
      live t' s' k' = live t' s k'"
    and setnx_value: "SetNX S t k v w s = (Inr b, s') \<Longrightarrow> b \<longleftrightarrow> live t s k = None"
    and setnx_live: "SetNX S t k v w s = (Inr True, s') \<Longrightarrow> okw w \<Longrightarrow> t \<le> t' \<Longrightarrow> t' \<le> t + w \<Longrightarrow>
      live t' s' k = Some v"
    and setnx_kept: "SetNX S t k v w s = (Inr False, s') \<Longrightarrow> t \<le> t' \<Longrightarrow> live t' s' k' = live t' s k'"
    and setnx_frame: "SetNX S t k v w s = (Inr b, s') \<Longrightarrow> t \<le> t' \<Longrightarrow> k' \<noteq> k \<Longrightarrow>
      live t' s' k' = live t' s k'"
    and delete_dead: "Delete S t k s = (Inr u, s') \<Longrightarrow> t \<le> t' \<Longrightarrow> live t' s' k = None"
    and delete_frame: "Delete S t k s = (Inr u, s') \<Longrightarrow> t \<le> t' \<Longrightarrow> k' \<noteq> k \<Longrightarrow>
      live t' s' k' = live t' s k'"
begin

text \<open>Reading back what was counted or written.\<close>

lemma get_after_incr:
  assumes "Increment S t k w s = (Inr n, s1)" and "Get S t' k s1 = (Inr m, s2)"
    and "live t s k = None" and "okw w" and "t \<le> t'" and "t' \<le> t + w"
  shows "m = 1"
  using incr_value [OF assms(1)] incr_fresh [OF assms(1,3-6)] get_value [OF assms(2)] assms(3)
  by simp

lemma get_after_set:
  assumes "Set S t k v w s = (Inr u, s1)" and "Get S t' k s1 = (Inr m, s2)"
    and "okw w" and "t \<le> t'" and "t' \<le> t + w"
  shows "m = v"
  using set_live [OF assms(1,3-5)] get_value [OF assms(2)] by simp

lemma setnx_once:
  assumes "SetNX S t k v w s = (Inr True, s1)" and "SetNX S t' k v' w' s1 = (Inr b, s2)"
    and "okw w" and "t \<le> t'" and "t' \<le> t + w"
  shows "\<not> b"
  using setnx_live [OF assms(1,3-5)] setnx_value [OF assms(2)] by simp

lemma get_after_delete:
  assumes "Delete S t k s = (Inr u, s1)" and "Get S t' k s1 = (Inr m, s2)" and "t \<le> t'"
  shows "m = 0"
  using delete_dead [OF assms(1,3)] get_value [OF assms(2)] by simp

text \<open>Counting a key that is live keeps it live, one higher.\<close>

lemma incr_step:
  assumes "Increment S t k w s = (Inr n, s')" and "okw w" and "t \<le> t'" and "t' \<le> t + w"
    and "live t s k = None \<or> live t' s k \<noteq> None"
  shows "live t' s' k = Some (i64 (count_of (live t s k) + 1))"
  using assms incr_value incr_fresh incr_live by fastforce

text \<open>
  Counting one key over an interval of time no longer than the lifetime it is counted with: the
  key is consistent when it is either not yet counted or alive to the end.
\<close>

definition kcnt :: "string \<Rightarrow> gotime \<Rightarrow> 's \<Rightarrow> int" where
  "kcnt k lo s = count_of (live lo s k)"

definition kinv :: "string \<Rightarrow> gotime \<Rightarrow> gotime \<Rightarrow> 's \<Rightarrow> bool" where
  "kinv k lo hi s \<longleftrightarrow> live lo s k = None \<or> (live hi s k \<noteq> None \<and> 0 \<le> kcnt k lo s)"

lemma fresh_key: "live lo s k = None \<Longrightarrow> kinv k lo hi s \<and> kcnt k lo s = 0"
  by (simp add: kinv_def kcnt_def)

lemma live_in_interval:
  assumes inv: "kinv k lo hi s" and t: "lo \<le> t" "t \<le> hi"
  shows "live t s k = live lo s k"
proof (cases "live lo s k")
  case None
  then show ?thesis using t live_earlier by (metis not_None_eq)
next
  case (Some v)
  with inv obtain u where u: "live hi s k = Some u" by (auto simp: kinv_def)
  from t live_earlier [OF _ u] show ?thesis by simp
qed

lemma incr_in_interval:
  assumes inv: "kinv k lo hi s" and t: "lo \<le> t" "t \<le> hi" and w: "okw w" "hi \<le> lo + w"
    and small: "kcnt k lo s < max_i64"
    and run: "Increment S t k w s = (r, s')"
  shows "kinv k lo hi s'"
    and "r = Inr n \<Longrightarrow> n = kcnt k lo s + 1 \<and> kcnt k lo s' = n"
    and "kcnt k lo s' = kcnt k lo s \<or> kcnt k lo s' = kcnt k lo s + 1"
proof -
  have bnd: "hi \<le> t + w" "lo \<le> hi" using t w by linarith+
  have same: "live t s k = live lo s k" by (rule live_in_interval [OF inv t])
  have pos: "0 \<le> kcnt k lo s" using inv by (auto simp: kinv_def kcnt_def)
  have wrap: "i64 (count_of (live t s k) + 1) = kcnt k lo s + 1"
    using pos small by (simp add: same kcnt_def i64_id)
  have alive: "live t s k = None \<or> live hi s k \<noteq> None"
    using inv same by (auto simp: kinv_def)
  have counted: "kinv k lo hi s' \<and> kcnt k lo s' = kcnt k lo s + 1"
    if "live hi s' k = Some (kcnt k lo s + 1)"
    using that live_earlier [OF bnd(2) that] pos by (simp add: kinv_def kcnt_def)
  have kept: "kinv k lo hi s' \<and> kcnt k lo s' = kcnt k lo s"
    if eq: "live lo s k = None \<Longrightarrow> live lo s' k = None" "live hi s k \<noteq> None \<Longrightarrow> live hi s' k = live hi s k"
  proof (cases "live lo s k")
    case None
    with eq show ?thesis by (simp add: kinv_def kcnt_def)
  next
    case (Some v)
    with inv obtain u where u: "live hi s k = Some u" by (auto simp: kinv_def)
    with eq have u': "live hi s' k = Some u" by simp
    show ?thesis
      using u u' live_earlier [OF bnd(2) u] live_earlier [OF bnd(2) u'] pos
      by (simp add: kinv_def kcnt_def)
  qed
  have "kinv k lo hi s' \<and> (kcnt k lo s' = kcnt k lo s + 1 \<and> (\<forall>n. r = Inr n \<longrightarrow> n = kcnt k lo s + 1)
      \<or> isl r \<and> kcnt k lo s' = kcnt k lo s)"
  proof (cases r)
    case (Inr n)
    with incr_step [of t k w s n s' hi] run w(1) t(2) bnd alive wrap
    have "live hi s' k = Some (kcnt k lo s + 1)" by simp
    with Inr counted incr_value run wrap show ?thesis by fastforce
  next
    case (Inl e)
    with incr_failed [of t k w s e s'] run w(1)
    consider "\<forall>t'. live t s k = None \<or> (t \<le> t' \<and> t' \<le> t + w \<and> live t' s k \<noteq> None) \<longrightarrow>
            live t' s' k = live t' s k"
      | "live hi s' k = Some (kcnt k lo s + 1)"
      using bnd t(2) wrap by fastforce
    then show ?thesis
    proof cases
      case 1
      with bnd t(2) same have "kinv k lo hi s' \<and> kcnt k lo s' = kcnt k lo s"
        by (intro kept) auto
      with Inl show ?thesis by simp
    next
      case 2
      with counted Inl show ?thesis by simp
    qed
  qed
  then show "kinv k lo hi s'"
    and "r = Inr n \<Longrightarrow> n = kcnt k lo s + 1 \<and> kcnt k lo s' = n"
    and "kcnt k lo s' = kcnt k lo s \<or> kcnt k lo s' = kcnt k lo s + 1"
    by auto
qed

text \<open>Counting another key leaves this one alone.\<close>

lemma incr_other_key:
  assumes "Increment S t k' w s = (r, s')" and "k' \<noteq> k"
  shows "kinv k lo hi s' = kinv k lo hi s" and "kcnt k lo s' = kcnt k lo s"
  using incr_frame [OF assms(1)] assms(2) by (auto simp: kinv_def kcnt_def)

end

subsection \<open>MemoryStore\<close>

record memEntry =
  me_value :: int
  me_expiry :: gotime

record MemoryStore =
  mem_data :: "string \<rightharpoonup> memEntry"

definition NewMemoryStore :: MemoryStore where
  "NewMemoryStore = \<lparr>mem_data = Map.empty\<rparr>"

definition entry_expired :: "gotime \<Rightarrow> memEntry \<Rightarrow> bool" where
  "entry_expired now e \<longleftrightarrow> me_expiry e \<noteq> 0 \<and> me_expiry e < now"

definition MemoryStore_get :: "gotime \<Rightarrow> string \<Rightarrow> MemoryStore \<Rightarrow> memEntry option \<times> MemoryStore" where
  "MemoryStore_get now key m =
     (case mem_data m key of
        None \<Rightarrow> (None, m\<lparr>mem_data := (mem_data m)(key := None)\<rparr>)
      | Some e \<Rightarrow>
          if entry_expired now e then (None, m\<lparr>mem_data := (mem_data m)(key := None)\<rparr>)
          else (Some e, m))"

definition MemoryStore_Increment ::
  "gotime \<Rightarrow> string \<Rightarrow> duration \<Rightarrow> MemoryStore \<Rightarrow> (err + int) \<times> MemoryStore" where
  "MemoryStore_Increment now key window m =
     (case MemoryStore_get now key m of (r, m1) \<Rightarrow>
        let e = (case r of Some e \<Rightarrow> e | None \<Rightarrow> \<lparr>me_value = 0, me_expiry = now + window\<rparr>);
            e' = e\<lparr>me_value := i64 (me_value e + 1)\<rparr>
        in (Inr (me_value e'), m1\<lparr>mem_data := (mem_data m1)(key \<mapsto> e')\<rparr>))"

definition MemoryStore_Get :: "gotime \<Rightarrow> string \<Rightarrow> MemoryStore \<Rightarrow> (err + int) \<times> MemoryStore" where
  "MemoryStore_Get now key m =
     (case MemoryStore_get now key m of
        (Some e, m1) \<Rightarrow> (Inr (me_value e), m1)
      | (None, m1) \<Rightarrow> (Inr 0, m1))"

definition MemoryStore_Set ::
  "gotime \<Rightarrow> string \<Rightarrow> int \<Rightarrow> duration \<Rightarrow> MemoryStore \<Rightarrow> (err + unit) \<times> MemoryStore" where
  "MemoryStore_Set now key value expiry m =
     (Inr (), m\<lparr>mem_data := (mem_data m)(key \<mapsto> \<lparr>me_value = value, me_expiry = now + expiry\<rparr>)\<rparr>)"

definition MemoryStore_SetNX ::
  "gotime \<Rightarrow> string \<Rightarrow> int \<Rightarrow> duration \<Rightarrow> MemoryStore \<Rightarrow> (err + bool) \<times> MemoryStore" where
  "MemoryStore_SetNX now key value expiry m =
     (case MemoryStore_get now key m of
        (Some _, m1) \<Rightarrow> (Inr False, m1)
      | (None, m1) \<Rightarrow>
          (Inr True,
           m1\<lparr>mem_data := (mem_data m1)(key \<mapsto> \<lparr>me_value = value, me_expiry = now + expiry\<rparr>)\<rparr>))"

definition MemoryStore_TTL :: "gotime \<Rightarrow> string \<Rightarrow> MemoryStore \<Rightarrow> (err + duration) \<times> MemoryStore" where
  "MemoryStore_TTL now key m =
     (case MemoryStore_get now key m of
        (Some e, m1) \<Rightarrow> (Inr (Time_Sub (me_expiry e) now), m1)
      | (None, m1) \<Rightarrow> (Inr (- 1), m1))"

definition MemoryStore_Delete :: "gotime \<Rightarrow> string \<Rightarrow> MemoryStore \<Rightarrow> (err + unit) \<times> MemoryStore" where
  "MemoryStore_Delete now key m = (Inr (), m\<lparr>mem_data := (mem_data m)(key := None)\<rparr>)"

definition MemoryStore_Ping :: "gotime \<Rightarrow> MemoryStore \<Rightarrow> (err + unit) \<times> MemoryStore" where
  "MemoryStore_Ping now m = (Inr (), m)"

definition memory_store :: "MemoryStore Store" where
  "memory_store =
     \<lparr>Increment = MemoryStore_Increment, Get = MemoryStore_Get, Set = MemoryStore_Set,
      SetNX = MemoryStore_SetNX, TTL = MemoryStore_TTL, Delete = MemoryStore_Delete,
      Ping = MemoryStore_Ping\<rparr>"

definition mem_live :: "gotime \<Rightarrow> MemoryStore \<Rightarrow> string \<Rightarrow> int option" where
  "mem_live t m k =
     (case mem_data m k of
        None \<Rightarrow> None
      | Some e \<Rightarrow> if entry_expired t e then None else Some (me_value e))"

lemma memory_store_sel [mem_simps]:
  "Increment memory_store = MemoryStore_Increment" "Get memory_store = MemoryStore_Get"
  "Set memory_store = MemoryStore_Set" "SetNX memory_store = MemoryStore_SetNX"
  "TTL memory_store = MemoryStore_TTL" "Delete memory_store = MemoryStore_Delete"
  "Ping memory_store = MemoryStore_Ping"
  by (simp_all add: memory_store_def)

lemma MemoryStore_get_cases [mem_simps]:
  "MemoryStore_get now k m =
     (case mem_data m k of
        Some e \<Rightarrow> if entry_expired now e then (None, m\<lparr>mem_data := (mem_data m)(k := None)\<rparr>)
                  else (Some e, m)
      | None \<Rightarrow> (None, m))"
  by (auto simp: MemoryStore_get_def fun_upd_idem split: option.splits)

lemma entry_expired_mono: "t \<le> t' \<Longrightarrow> entry_expired t e \<Longrightarrow> entry_expired t' e"
  by (simp add: entry_expired_def)

lemma new_entry_alive: "t' \<le> t + w \<Longrightarrow> \<not> entry_expired t' \<lparr>me_value = v, me_expiry = t + w\<rparr>"
  by (simp add: entry_expired_def)

lemma entry_expired_value [mem_simps]:
  "entry_expired t (e\<lparr>me_value := v\<rparr>) = entry_expired t e"
  by (simp add: entry_expired_def)

lemma MemoryStore_Increment_cases:
  "MemoryStore_Increment t k w m =
     (case mem_live t m k of
        Some v \<Rightarrow> (Inr (i64 (v + 1)),
          m\<lparr>mem_data := (mem_data m)(k \<mapsto> (the (mem_data m k))\<lparr>me_value := i64 (v + 1)\<rparr>)\<rparr>)
      | None \<Rightarrow> (Inr 1, m\<lparr>mem_data := (mem_data m)(k \<mapsto> \<lparr>me_value = 1, me_expiry = t + w\<rparr>)\<rparr>))"
  by (simp add: MemoryStore_Increment_def mem_simps mem_live_def split: option.split)

interpretation mem: store memory_store mem_live "\<lambda>w. 0 \<le> w"
proof (unfold_locales, goal_cases)
  case (2 t t' s k v)
  then show ?case
    by (auto simp: mem_live_def dest: entry_expired_mono split: option.splits if_splits)
next
  case (3 t k w s n s')
  then show ?case
    by (auto simp: mem_simps MemoryStore_Increment_cases split: option.splits)
next
  case (4 t k w s n s' t')
  then show ?case
    by (auto simp: mem_simps MemoryStore_Increment_cases mem_live_def new_entry_alive)
next
  case (5 t k w s n s' t' v)
  then have "mem_live t s k = Some v"
    by (auto simp: mem_live_def dest: entry_expired_mono split: option.splits if_splits)
  with 5 show ?case
    by (auto simp: mem_simps MemoryStore_Increment_cases mem_live_def split: option.splits if_splits)
next
  case (6 t k w s r s' k' t')
  then show ?case
    by (auto simp: mem_simps MemoryStore_Increment_cases mem_live_def split: option.splits)
next
  case (7 t k w s e s')
  then show ?case
    by (auto simp: mem_simps MemoryStore_Increment_cases split: option.splits)
qed (auto simp: mem_simps MemoryStore_Get_def MemoryStore_Set_def MemoryStore_SetNX_def
       MemoryStore_Delete_def mem_live_def new_entry_alive dest: entry_expired_mono
       split: option.splits if_splits)

text \<open>Reading never changes what a later reader sees: dropping expired entries is invisible.\<close>

lemma MemoryStore_get_invisible:
  assumes "MemoryStore_get t k m = (r, m')" and "t \<le> t'"
  shows "mem_live t' m' k' = mem_live t' m k'"
  using assms by (auto simp: mem_simps mem_live_def dest: entry_expired_mono split: option.splits if_splits)

subsection \<open>A store as one part of a larger state\<close>

definition lift_op :: "('s \<Rightarrow> 'x \<times> 's) \<Rightarrow> 's \<times> 'l \<Rightarrow> 'x \<times> 's \<times> 'l" where
  "lift_op f p = (case f (fst p) of (x, s') \<Rightarrow> (x, (s', snd p)))"

definition lift_store :: "'s Store \<Rightarrow> ('s \<times> 'l) Store" where
  "lift_store S =
     \<lparr>Increment = (\<lambda>t k w. lift_op (Increment S t k w)), Get = (\<lambda>t k. lift_op (Get S t k)),
      Set = (\<lambda>t k v w. lift_op (Set S t k v w)), SetNX = (\<lambda>t k v w. lift_op (SetNX S t k v w)),
      TTL = (\<lambda>t k. lift_op (TTL S t k)), Delete = (\<lambda>t k. lift_op (Delete S t k)),
      Ping = (\<lambda>t. lift_op (Ping S t))\<rparr>"

lemma lift_op_eq: "lift_op f p = (x, p') \<longleftrightarrow> f (fst p) = (x, fst p') \<and> snd p' = snd p"
  by (cases p') (auto simp: lift_op_def split: prod.splits)

lemma store_lift:
  assumes "store S live okw"
  shows "store (lift_store S) (\<lambda>t p k. live t (fst p) k) okw"
  using assms unfolding store_def lift_store_def
  by (simp add: lift_op_eq)

end
