(* ===== verification/RedisStore.thy ===== *)
theory RedisStore
  imports Redis Store
begin

section \<open>RedisStore\<close>

text \<open>
  \<open>src/redis_store.go\<close>: the Store interface over a Redis client. For lifetimes of whole
  seconds it keeps the \<open>store\<close> contract of the in-memory store. One thing differs, and the
  contract leaves it open: an \<open>Increment\<close> of a live key starts its lifetime again.
\<close>

definition RedisStore_Increment ::
  "'r redis \<Rightarrow> gotime \<Rightarrow> string \<Rightarrow> duration \<Rightarrow> 'r \<Rightarrow> (err + int) \<times> 'r" where
  "RedisStore_Increment R now key window r =
     (case Exec R now [Incr key, Expire key window] r of ((e, rs), r') \<Rightarrow>
        (case e of Some m \<Rightarrow> (Inl m, r') | None \<Rightarrow> (Inr (reply_val (reply0 rs)), r')))"

definition RedisStore_Get :: "'r redis \<Rightarrow> gotime \<Rightarrow> string \<Rightarrow> 'r \<Rightarrow> (err + int) \<times> 'r" where
  "RedisStore_Get R now key r =
     (case Exec R now [GetKey key] r of ((e, rs), r') \<Rightarrow>
        (case reply_int (reply0 rs) of
           Inl m \<Rightarrow> if m = redis_Nil then (Inr 0, r') else (Inl m, r')
         | Inr val \<Rightarrow> (Inr val, r')))"

definition RedisStore_Set ::
  "'r redis \<Rightarrow> gotime \<Rightarrow> string \<Rightarrow> int \<Rightarrow> duration \<Rightarrow> 'r \<Rightarrow> (err + unit) \<times> 'r" where
  "RedisStore_Set R now key value expiry r =
     (case Exec R now [SetKey key (VInt value) expiry] r of ((e, rs), r') \<Rightarrow>
        (case reply_err (reply0 rs) of Some m \<Rightarrow> (Inl m, r') | None \<Rightarrow> (Inr (), r')))"

definition RedisStore_SetNX ::
  "'r redis \<Rightarrow> gotime \<Rightarrow> string \<Rightarrow> int \<Rightarrow> duration \<Rightarrow> 'r \<Rightarrow> (err + bool) \<times> 'r" where
  "RedisStore_SetNX R now key value expiry r =
     (case Exec R now [SetKeyNX key (VInt value) expiry] r of ((e, rs), r') \<Rightarrow>
        (case reply_err (reply0 rs) of
           Some m \<Rightarrow> (Inl m, r')
         | None \<Rightarrow> (Inr (reply_val (reply0 rs) = 1), r')))"

text \<open>The client turns seconds into a duration, and keeps the answers -1 and -2.\<close>

definition RedisStore_TTL :: "'r redis \<Rightarrow> gotime \<Rightarrow> string \<Rightarrow> 'r \<Rightarrow> (err + duration) \<times> 'r" where
  "RedisStore_TTL R now key r =
     (case Exec R now [TTLKey key] r of ((e, rs), r') \<Rightarrow>
        (case reply_err (reply0 rs) of
           Some m \<Rightarrow> (Inl m, r')
         | None \<Rightarrow> let n = reply_val (reply0 rs)
                   in (Inr (if n = - 1 \<or> n = - 2 then n else n * second), r')))"

definition RedisStore_Delete :: "'r redis \<Rightarrow> gotime \<Rightarrow> string \<Rightarrow> 'r \<Rightarrow> (err + unit) \<times> 'r" where
  "RedisStore_Delete R now key r =
     (case Exec R now [Del key] r of ((e, rs), r') \<Rightarrow>
        (case reply_err (reply0 rs) of Some m \<Rightarrow> (Inl m, r') | None \<Rightarrow> (Inr (), r')))"

definition RedisStore_Ping :: "'r redis \<Rightarrow> gotime \<Rightarrow> 'r \<Rightarrow> (err + unit) \<times> 'r" where
  "RedisStore_Ping R now r =
     (case Exec R now [PingCmd] r of ((e, rs), r') \<Rightarrow>
        (case reply_err (reply0 rs) of Some m \<Rightarrow> (Inl m, r') | None \<Rightarrow> (Inr (), r')))"

definition redis_store :: "'r redis \<Rightarrow> 'r Store" where
  "redis_store R =
     \<lparr>Increment = RedisStore_Increment R, Get = RedisStore_Get R, Set = RedisStore_Set R,
      SetNX = RedisStore_SetNX R, TTL = RedisStore_TTL R, Delete = RedisStore_Delete R,
      Ping = RedisStore_Ping R\<rparr>"

lemma redis_store_sel [redis_simps]:
  "Increment (redis_store R) = RedisStore_Increment R" "Get (redis_store R) = RedisStore_Get R"
  "Set (redis_store R) = RedisStore_Set R" "SetNX (redis_store R) = RedisStore_SetNX R"
  "TTL (redis_store R) = RedisStore_TTL R" "Delete (redis_store R) = RedisStore_Delete R"
  "Ping (redis_store R) = RedisStore_Ping R"
  by (simp_all add: redis_store_def)

text \<open>A key that holds no integer is present, but its number is not used: every command that
  would read it is an error.\<close>

definition rval_int :: "rval \<Rightarrow> int" where
  "rval_int v = (case v of VInt n \<Rightarrow> n | _ \<Rightarrow> 0)"

definition kv_live :: "gotime \<Rightarrow> kv \<Rightarrow> string \<Rightarrow> int option" where
  "kv_live t m k = map_option (\<lambda>(v, d). rval_int v) (kv_at t m k)"

definition whole_seconds :: "duration \<Rightarrow> bool" where
  "whole_seconds w \<longleftrightarrow> 0 < w \<and> w mod second = 0"

lemma whole_secondsE: "whole_seconds w \<Longrightarrow> (\<And>n. w = n * second \<Longrightarrow> 0 < n \<Longrightarrow> P) \<Longrightarrow> P"
  by (auto simp: whole_seconds_def elim!: dvdE[OF mod_0_imp_dvd])

lemma whole_format_sec: "whole_seconds w \<Longrightarrow> format_sec w * second = w"
  by (erule whole_secondsE) (simp only: format_sec_whole)

lemma whole_set_lifetime: "whole_seconds w \<Longrightarrow> set_lifetime w = w"
  by (erule whole_secondsE) (simp only: set_lifetime_whole)

lemma whole_seconds_pos: "whole_seconds w \<Longrightarrow> 0 < w"
  by (simp add: whole_seconds_def)

lemma kv_live_upd [redis_simps]:
  "kv_live t (m(k \<mapsto> (v, d))) k' =
     (if k' = k then if kv_alive t d then Some (rval_int v) else None else kv_live t m k')"
  by (simp add: kv_live_def kv_at_upd)

lemma kv_live_del [redis_simps]:
  "kv_live t (m(k := None)) k' = (if k' = k then None else kv_live t m k')"
  by (simp add: kv_live_def kv_at_del)

lemma kv_live_frame: "m' k = m k \<Longrightarrow> kv_live t m' k = kv_live t m k"
  by (simp add: kv_live_def kv_at_def)

lemma kv_live_stays:
  "t \<le> t' \<Longrightarrow> kv_live t m k = None \<or> kv_live t' m k \<noteq> None \<Longrightarrow> kv_live t' m k = kv_live t m k"
  by (cases "kv_at t m k"; cases "kv_at t' m k")
    (auto simp: kv_live_def dest: kv_at_earlier)

text \<open>The increment pipeline, when no command of it fails.\<close>

lemma incr_expire_cases:
  assumes run: "spec_cmds t [Incr k, Expire k w] m = (rs, m')" and ok: "first_err rs = None"
  obtains n where "reply_val (reply0 rs) = n" and "n = i64 (count_of (kv_live t m k) + 1)"
    and "m' = (if format_sec w \<le> 0 then m(k := None)
               else m(k \<mapsto> (VInt n, Some (t + format_sec w * second))))"
proof (cases "kv_at t m k")
  case None
  with run ok show ?thesis
    by (intro that [of 1])
      (auto simp: kv_live_def set_deadline_def redis_simps mult_le_0_iff split: if_splits)
next
  case (Some vd)
  obtain v d where vd: "vd = (v, d)" by force
  with Some run ok obtain n where n: "v = VInt n" "min_i64 \<le> n" "n < max_i64"
    by (cases v) (auto simp: reply_sel split: prod.splits if_splits)
  have alive: "kv_alive t d" using Some vd kv_at_alive by blast
  show ?thesis
    using Some vd n alive run
    by (intro that [of "n + 1"])
      (auto simp: kv_live_def set_deadline_def redis_simps rval_int_def i64_id split: if_splits)
qed

text \<open>The effect of the pipeline on the key, whatever its commands answer.\<close>

lemma incr_expire_effect:
  assumes "whole_seconds w"
  defines "m' \<equiv> \<lambda>t k m. snd (spec_cmds t [Incr k, Expire k w] m)"
  shows "(kv_live t m k \<noteq> None \<and>
      (\<forall>t'. t \<le> t' \<and> t' \<le> t + w \<longrightarrow> kv_live t' (m' t k m) k = kv_live t m k)) \<or>
    (\<forall>t'. t \<le> t' \<and> t' \<le> t + w \<longrightarrow>
      kv_live t' (m' t k m) k = Some (i64 (count_of (kv_live t m k) + 1)))"
proof (cases "kv_at t m k")
  case None
  then show ?thesis
    using whole_format_sec [OF assms(1)] whole_seconds_pos [OF assms(1)]
    by (intro disjI2) (simp add: m'_def kv_live_def set_deadline_def redis_simps rval_int_def)
next
  case (Some vd)
  obtain v d where vd: "vd = (v, d)" by force
  have alive: "kv_alive t d" using Some vd kv_at_alive by blast
  show ?thesis
    using Some vd alive whole_format_sec [OF assms(1)] whole_seconds_pos [OF assms(1)]
    by (cases v)
      (auto simp: m'_def kv_live_def set_deadline_def redis_simps rval_int_def i64_id)
qed

lemma incr_expire_frame: "k' \<noteq> k \<Longrightarrow> snd (spec_cmds t [Incr k, Expire k w] m) k' = m k'"
  by (rule spec_cmds_frame) auto

context redis_client
begin

text \<open>Each operation, when it succeeds, over the key space.\<close>

lemma Increment_ok:
  assumes "RedisStore_Increment R t k w r = (Inr n, r')"
  shows "n = i64 (count_of (kv_live t (keys r) k) + 1)"
    and "keys r' = (if format_sec w \<le> 0 then (keys r)(k := None)
               else (keys r)(k \<mapsto> (VInt n, Some (t + format_sec w * second))))"
proof -
  obtain rs where ex: "Exec R t [Incr k, Expire k w] r = ((None, rs), r')"
    and n: "n = reply_val (reply0 rs)"
    using assms by (auto simp: RedisStore_Increment_def split: prod.splits option.splits)
  from incr_expire_cases [OF exec_ok [OF ex]] n
  show "n = i64 (count_of (kv_live t (keys r) k) + 1)"
    and "keys r' = (if format_sec w \<le> 0 then (keys r)(k := None)
               else (keys r)(k \<mapsto> (VInt n, Some (t + format_sec w * second))))"
    by metis+
qed

lemma Exec_single:
  assumes "Exec R t [c] r = ((e, rs), r')" and "reply_err (reply0 rs) = None \<or> reply0 rs = RepNil"
  shows "reply0 rs = fst (spec_cmd t c (keys r))" and "keys r' = snd (spec_cmd t c (keys r))"
proof -
  have "\<not> (length rs = 1 \<and> (\<forall>x\<in>List.set rs. \<exists>m. x = RepErr m \<and> m \<noteq> redis_Nil))"
    using assms(2) by (cases rs) (auto simp: reply0_def)
  with exec_law [OF assms(1)]
  show "reply0 rs = fst (spec_cmd t c (keys r))" and "keys r' = snd (spec_cmd t c (keys r))"
    by (auto simp: redis_simps prod.case_eq_if)
qed

lemma Get_ok:
  assumes "RedisStore_Get R t k r = (Inr n, r')"
  shows "n = count_of (kv_live t (keys r) k)" and "keys r' = keys r"
proof -
  obtain e rs where ex: "Exec R t [GetKey k] r = ((e, rs), r')"
    and n: "reply_int (reply0 rs) = Inr n \<or> (reply_int (reply0 rs) = Inl redis_Nil \<and> n = 0)"
    using assms by (auto simp: RedisStore_Get_def split: prod.splits sum.splits if_splits)
  have nn: "\<not> (length rs = 1 \<and> (\<forall>x\<in>List.set rs. \<exists>m. x = RepErr m \<and> m \<noteq> redis_Nil))"
    using n by (cases rs) (auto simp: reply0_def)
  have "reply0 rs = fst (spec_cmd t (GetKey k) (keys r)) \<and> keys r' = keys r"
    using exec_law [OF ex] nn
    by (auto simp: redis_simps prod.case_eq_if split: option.splits rval.splits)
  with n show "n = count_of (kv_live t (keys r) k)" and "keys r' = keys r"
    by (auto simp: kv_live_def rval_int_def wrongtype_def redis_Nil_def
        split: option.splits rval.splits)
qed

lemma Set_ok:
  assumes "RedisStore_Set R t k v w r = (Inr u, r')"
  shows "keys r' = snd (spec_cmd t (SetKey k (VInt v) w) (keys r))"
proof -
  obtain e rs where "Exec R t [SetKey k (VInt v) w] r = ((e, rs), r')" "reply_err (reply0 rs) = None"
    using assms by (auto simp: RedisStore_Set_def split: prod.splits option.splits)
  with Exec_single(2) show ?thesis by blast
qed

lemma SetNX_ok:
  assumes "RedisStore_SetNX R t k v w r = (Inr b, r')"
  shows "b \<longleftrightarrow> kv_live t (keys r) k = None"
    and "keys r' = snd (spec_cmd t (SetKeyNX k (VInt v) w) (keys r))"
proof -
  obtain e rs where ex: "Exec R t [SetKeyNX k (VInt v) w] r = ((e, rs), r')"
    and ok: "reply_err (reply0 rs) = None" and b: "b \<longleftrightarrow> reply_val (reply0 rs) = 1"
    using assms by (auto simp: RedisStore_SetNX_def split: prod.splits option.splits)
  from Exec_single [OF ex] ok b
  show "b \<longleftrightarrow> kv_live t (keys r) k = None"
    and "keys r' = snd (spec_cmd t (SetKeyNX k (VInt v) w) (keys r))"
    by (cases "kv_at t (keys r) k"; auto simp: kv_live_def split: if_splits)+
qed

lemma Delete_ok:
  assumes "RedisStore_Delete R t k r = (Inr u, r')"
  shows "keys r' = (keys r)(k := None)"
proof -
  obtain e rs where "Exec R t [Del k] r = ((e, rs), r')" "reply_err (reply0 rs) = None"
    using assms by (auto simp: RedisStore_Delete_def split: prod.splits option.splits)
  with Exec_single(2) show ?thesis by fastforce
qed

end

text \<open>Every Redis client gives a store.\<close>

sublocale redis_client \<subseteq> rstore: store "redis_store R" "\<lambda>t r k. kv_live t (keys r) k" whole_seconds
proof (unfold_locales, goal_cases)
  case (1 w)
  then show ?case using whole_seconds_pos by force
next
  case (2 t t' s k v)
  then show ?case by (auto simp: kv_live_def dest: kv_at_earlier)
next
  case (3 t k w s n s')
  then show ?case by (simp add: redis_simps Increment_ok)
next
  case (4 t k w s n s' t')
  then show ?case
    using whole_format_sec [of w] whole_seconds_pos [of w] Increment_ok(2) [of t k w s n s']
    by (auto simp: redis_simps rval_int_def split: if_splits)
next
  case (5 t k w s n s' t' v)
  then show ?case
    using whole_format_sec [of w] whole_seconds_pos [of w] Increment_ok(2) [of t k w s n s']
    by (auto simp: redis_simps rval_int_def split: if_splits)
next
  case (6 t k w s r s' k' t')
  have "snd (spec_cmds t [Incr k, Expire k w] (keys s)) k' = keys s k'"
    using 6(2) by (intro spec_cmds_frame) auto
  moreover have "keys s' = keys s \<or> keys s' = snd (spec_cmds t [Incr k, Expire k w] (keys s))"
    using 6(1) by (auto simp: redis_simps RedisStore_Increment_def
        split: prod.splits option.splits dest: exec_effect)
  ultimately show ?case by (auto intro: kv_live_frame)
next
  case (7 t k w s e s')
  then have "RedisStore_Increment R t k w s = (Inl e, s')" by (simp add: redis_simps)
  then consider "keys s' = keys s" | "keys s' = snd (spec_cmds t [Incr k, Expire k w] (keys s))"
    by (auto simp: RedisStore_Increment_def split: prod.splits option.splits dest: exec_effect)
  then show ?case
  proof cases
    case 1
    then show ?thesis by simp
  next
    case 2
    with incr_expire_effect [OF 7(2), where t = t and k = k and m = "keys s"] show ?thesis
      using kv_live_stays [of t _ "keys s" k] by metis
  qed
next
  case (8 t k s n s')
  then show ?case using Get_ok by (simp add: redis_simps)
next
  case (9 t k s n s' t' k')
  then show ?case using Get_ok by (simp add: redis_simps)
next
  case (10 t k v w s u s' t')
  then show ?case
    using Set_ok [of t k v w s u s'] whole_set_lifetime [of w] whole_seconds_pos [of w]
    by (simp add: redis_simps rval_int_def)
next
  case (11 t k v w s u s' t' k')
  then show ?case using Set_ok [of t k v w s u s'] by (simp add: redis_simps)
next
  case (12 t k v w s b s')
  then show ?case using SetNX_ok by (simp add: redis_simps)
next
  case (13 t k v w s s' t')
  then show ?case
    using SetNX_ok [of t k v w s True s'] whole_set_lifetime [of w] whole_seconds_pos [of w]
    by (auto simp: redis_simps rval_int_def kv_live_def)
next
  case (14 t k v w s s' t' k')
  then show ?case
    using SetNX_ok [of t k v w s False s'] by (auto simp: redis_simps kv_live_def split: if_splits)
next
  case (15 t k v w s b s' t' k')
  then show ?case
    using SetNX_ok [of t k v w s b s'] by (auto simp: redis_simps split: if_splits)
next
  case (16 t k s u s' t')
  then show ?case using Delete_ok by (simp add: redis_simps)
next
  case (17 t k s u s' t' k')
  then show ?case using Delete_ok [of t k s u s'] by (simp add: redis_simps)
qed

subsection \<open>Increment starts the lifetime again\<close>

fun incr_all :: "'s Store \<Rightarrow> string \<Rightarrow> duration \<Rightarrow> gotime list \<Rightarrow> 's \<Rightarrow> (err + int) list" where
  "incr_all S k w [] s = []"
| "incr_all S k w (t # ts) s = (case Increment S t k w s of (res, s1) \<Rightarrow> res # incr_all S k w ts s1)"

context reliable_redis
begin

lemma Increment_up:
  assumes w: "whole_seconds w" and up: "up r" and n: "min_i64 \<le> n" "n < max_i64"
    and live: "(keys r k = None \<and> n = 0) \<or> (\<exists>d. keys r k = Some (VInt n, Some d) \<and> t \<le> d)"
  shows "\<exists>r'. RedisStore_Increment R t k w r = (Inr (n + 1), r') \<and> up r' \<and>
    keys r' k = Some (VInt (n + 1), Some (t + w))"
proof -
  obtain e rs r' where ex: "Exec R t [Incr k, Expire k w] r = ((e, rs), r')"
    by (metis surj_pair)
  have "spec_cmds t [Incr k, Expire k w] (keys r) =
      ([RepInt (n + 1), RepInt 1], (keys r)(k \<mapsto> (VInt (n + 1), Some (t + w))))"
    using live n whole_format_sec [OF w] whole_seconds_pos [OF w]
    by (auto simp: kv_at_def kv_alive_def set_deadline_def)
  with exec_up [OF up ex] show ?thesis
    by (simp add: RedisStore_Increment_def ex redis_simps)
qed

lemma incr_all_up:
  assumes w: "whole_seconds w" and "up r" and "0 \<le> n" and "n + int (length ts) \<le> max_i64"
    and "successively (\<lambda>a b. a \<le> b \<and> b \<le> a + w) ts"
    and "(keys r k = None \<and> n = 0) \<or> (\<exists>d. keys r k = Some (VInt n, Some d) \<and> hd ts \<le> d)"
  shows "incr_all (redis_store R) k w ts r = map (\<lambda>i. Inr (n + 1 + int i)) [0..<length ts]"
  using assms(2-6)
proof (induction ts arbitrary: r n)
  case (Cons t ts)
  obtain r' where one: "RedisStore_Increment R t k w r = (Inr (n + 1), r')" "up r'"
    "keys r' k = Some (VInt (n + 1), Some (t + w))"
    using Increment_up [OF w Cons.prems(1), of n k t] Cons.prems by auto
  have "successively (\<lambda>a b. a \<le> b \<and> b \<le> a + w) ts" and hd: "ts \<noteq> [] \<Longrightarrow> hd ts \<le> t + w"
    using Cons.prems(4) by (cases ts; simp)+
  then have "incr_all (redis_store R) k w ts r' = map (\<lambda>i. Inr (n + 1 + 1 + int i)) [0..<length ts]"
    using Cons.prems(2,3) one(2,3) by (cases "ts = []") (simp, intro Cons.IH, auto)
  with one(1) show ?case
    by (simp add: redis_simps upt_conv_Cons map_Suc_upt [symmetric] algebra_simps del: upt_Suc)
qed simp

end

subsection \<open>Properties\<close>



end
