(* ===== verification/Limiter.thy ===== *)
theory Limiter
  imports Prelude
begin

section \<open>The contract of a window counter\<close>

text \<open>
  What the counters of the program have in common: calls made one after another, each at its
  time, that are admitted or not. \<open>window_limiter\<close> is the safety side, which holds even when
  calls to the backend fail: within one window a call is only admitted when the count has
  gone up and is within the limit, so no more than \<open>lim\<close> calls are admitted.
  \<open>exact_window_limiter\<close> adds that no call is lost: the first \<open>lim\<close> are admitted and the rest
  are not.
\<close>

fun run_calls :: "(gotime \<Rightarrow> 's \<Rightarrow> bool \<times> 's) \<Rightarrow> gotime list \<Rightarrow> 's \<Rightarrow> bool list \<times> 's" where
  "run_calls allow [] s = ([], s)"
| "run_calls allow (t # ts) s =
     (case allow t s of (ok, s1) \<Rightarrow> case run_calls allow ts s1 of (oks, s2) \<Rightarrow> (ok # oks, s2))"

definition admitted :: "bool list \<Rightarrow> nat" where
  "admitted oks = length (filter (\<lambda>b. b) oks)"

lemma admitted_simps [simp]:
  "admitted [] = 0" "admitted (True # bs) = Suc (admitted bs)" "admitted (False # bs) = admitted bs"
  by (simp_all add: admitted_def)

lemma length_run_calls: "length (fst (run_calls allow ts s)) = length ts"
  by (induction ts arbitrary: s) (auto simp: prod.case_eq_if)

locale window_limiter =
  fixes allow :: "gotime \<Rightarrow> 's \<Rightarrow> bool \<times> 's" and win :: "gotime \<Rightarrow> bool"
    and cnt :: "'s \<Rightarrow> int" and lim :: int and inv :: "'s \<Rightarrow> bool"
  assumes step_inv: "inv s \<Longrightarrow> win t \<Longrightarrow> cnt s < max_i64 \<Longrightarrow> allow t s = (ok, s') \<Longrightarrow> inv s'"
    and step_cnt: "inv s \<Longrightarrow> win t \<Longrightarrow> cnt s < max_i64 \<Longrightarrow> allow t s = (ok, s') \<Longrightarrow>
      cnt s' = cnt s \<or> cnt s' = cnt s + 1"
    and step_ok: "inv s \<Longrightarrow> win t \<Longrightarrow> cnt s < max_i64 \<Longrightarrow> allow t s = (True, s') \<Longrightarrow>
      cnt s' = cnt s + 1 \<and> cnt s' \<le> lim"
begin

theorem admits_at_most:
  assumes "inv s" and "\<forall>t\<in>set ts. win t" and "cnt s + int (length ts) \<le> max_i64"
    and "run_calls allow ts s = (oks, s')"
  shows "int (admitted oks) \<le> max 0 (lim - cnt s)"
  using assms
proof (induction ts arbitrary: s oks s')
  case Nil
  then show ?case by auto
next
  case (Cons t ts)
  obtain ok s1 where one: "allow t s = (ok, s1)" by force
  obtain oks2 s2 where rest: "run_calls allow ts s1 = (oks2, s2)" by force
  have oks: "oks = ok # oks2" using Cons.prems(4) one rest by simp
  have pre: "inv s" "win t" "cnt s < max_i64" using Cons.prems by auto
  have "int (admitted oks2) \<le> max 0 (lim - cnt s1)"
    using step_inv [OF pre one] step_cnt [OF pre one] Cons.prems rest
    by (intro Cons.IH [of s1 oks2 s2]) auto
  then show ?case
    using step_cnt [OF pre one] step_ok [OF pre] one by (cases ok) (fastforce simp: oks)+
qed

end

locale exact_window_limiter = window_limiter +
  assumes step_exact: "inv s \<Longrightarrow> win t \<Longrightarrow> cnt s < max_i64 \<Longrightarrow> allow t s = (ok, s') \<Longrightarrow>
      cnt s' = cnt s + 1 \<and> (ok \<longleftrightarrow> cnt s + 1 \<le> lim)"
begin

theorem admits_exactly:
  assumes "inv s" and "\<forall>t\<in>set ts. win t" and "cnt s + int (length ts) \<le> max_i64"
    and "run_calls allow ts s = (oks, s')"
  shows "oks = map (\<lambda>i. cnt s + 1 + int i \<le> lim) [0..<length ts]"
    and "cnt s' = cnt s + int (length ts)"
  using assms
proof -
  from assms have "oks = map (\<lambda>i. cnt s + 1 + int i \<le> lim) [0..<length ts] \<and>
    cnt s' = cnt s + int (length ts)"
  proof (induction ts arbitrary: s oks s')
    case (Cons t ts)
    obtain ok s1 where one: "allow t s = (ok, s1)" by force
    obtain oks2 s2 where rest: "run_calls allow ts s1 = (oks2, s2)" by force
    have oks: "oks = ok # oks2" and s': "s' = s2" using Cons.prems(4) one rest by auto
    have pre: "inv s" "win t" "cnt s < max_i64" using Cons.prems by auto
    have c: "cnt s1 = cnt s + 1" "ok \<longleftrightarrow> cnt s + 1 \<le> lim"
      using step_exact [OF pre one] by auto
    have "oks2 = map (\<lambda>i. cnt s1 + 1 + int i \<le> lim) [0..<length ts] \<and>
      cnt s2 = cnt s1 + int (length ts)"
      using step_inv [OF pre one] Cons.prems c rest by (intro Cons.IH) auto
    then show ?case
      by (simp add: oks s' c upt_conv_Cons map_Suc_upt [symmetric] algebra_simps del: upt_Suc)
  qed simp
  then show "oks = map (\<lambda>i. cnt s + 1 + int i \<le> lim) [0..<length ts]"
    and "cnt s' = cnt s + int (length ts)" by auto
qed

lemma admits_count:
  assumes "inv s" and "\<forall>t\<in>set ts. win t" and "cnt s + int (length ts) \<le> max_i64"
    and "run_calls allow ts s = (oks, s')"
  shows "int (admitted oks) = min (int (length ts)) (max 0 (lim - cnt s))"
proof -
  have "admitted (map (\<lambda>i. c + 1 + int i \<le> lim) [0..<n]) = nat (min (int n) (max 0 (lim - c)))" for c n
    by (induction n) (auto simp: admitted_def nat_eq_iff)
  then show ?thesis
    using admits_exactly(1) [OF assms] by simp
qed

end

end
