(* ===== verification/Burst.thy ===== *)
theory Burst
  imports RedisStore Limiter
begin

section \<open>BurstCounter\<close>

text \<open>
  \<open>src/burst.go\<close>: a window counter over any Store. The window is the clock truncated to a
  multiple of the window length, and its start is part of the key, so the count of a window
  is a key of its own. The client lemmas are proved over the \<open>store\<close> contract; the in-memory
  store and every Redis client give instances.
\<close>

record BurstCounter =
  bc_limit :: int
  bc_burst :: int
  bc_window :: duration

definition NewBurstCounter :: "int \<Rightarrow> int \<Rightarrow> duration \<Rightarrow> BurstCounter" where
  "NewBurstCounter limit burst window = \<lparr>bc_limit = limit, bc_burst = burst, bc_window = window\<rparr>"

definition burst_key :: "BurstCounter \<Rightarrow> gotime \<Rightarrow> string \<Rightarrow> string" where
  "burst_key b now key = key @ CHR '':'' # Itoa (Time_Unix (Time_Truncate now (bc_window b)))"

definition BurstCounter_Allow ::
  "'s Store \<Rightarrow> BurstCounter \<Rightarrow> gotime \<Rightarrow> string \<Rightarrow> 's \<Rightarrow> (bool \<times> int \<times> err option) \<times> 's" where
  "BurstCounter_Allow S b now key s =
     (let effectiveLimit = i64 (bc_limit b + bc_burst b);
          windowKey = burst_key b now key
      in case Increment S now windowKey (bc_window b) s of
           (Inl e, s') \<Rightarrow> ((False, 0, Some (''burst counter increment: '' @ e)), s')
         | (Inr count, s') \<Rightarrow>
             let remaining = i64 (effectiveLimit - count);
                 remaining = (if remaining < 0 then 0 else remaining)
             in if effectiveLimit < count then ((False, remaining, None), s')
                else ((True, remaining, None), s'))"

definition BurstCounter_Limit :: "BurstCounter \<Rightarrow> int" where
  "BurstCounter_Limit b = bc_limit b"

definition BurstCounter_Burst :: "BurstCounter \<Rightarrow> int" where
  "BurstCounter_Burst b = bc_burst b"

text \<open>The bare verdict, and the window that starts at \<open>wst\<close>.\<close>

definition burst_allow :: "'s Store \<Rightarrow> BurstCounter \<Rightarrow> string \<Rightarrow> gotime \<Rightarrow> 's \<Rightarrow> bool \<times> 's" where
  "burst_allow S b key now s = (case BurstCounter_Allow S b now key s of ((ok, _, _), s') \<Rightarrow> (ok, s'))"

definition in_window :: "BurstCounter \<Rightarrow> gotime \<Rightarrow> gotime \<Rightarrow> bool" where
  "in_window b wst t \<longleftrightarrow> 0 < bc_window b \<and> Time_Truncate t (bc_window b) = wst"

definition window_key :: "string \<Rightarrow> gotime \<Rightarrow> string" where
  "window_key key wst = key @ CHR '':'' # Itoa (Time_Unix wst)"

lemma in_window_bounds: "in_window b wst t \<Longrightarrow> wst \<le> t \<and> t < wst + bc_window b"
  using Time_Truncate_le Time_Truncate_gt by (auto simp: in_window_def)

lemma burst_key_in_window: "in_window b wst t \<Longrightarrow> burst_key b t key = window_key key wst"
  by (simp add: in_window_def burst_key_def window_key_def)

text \<open>The keys of different windows of whole seconds, and of different clients, differ.\<close>

lemma window_key_inject: "window_key k wst = window_key k' wst2 \<longleftrightarrow> k = k' \<and> Time_Unix wst = Time_Unix wst2"
  by (simp add: window_key_def colon_key_inject)

lemma burst_allow_cases:
  "burst_allow S b key t s =
     (case Increment S t (burst_key b t key) (bc_window b) s of
        (Inl e, s') \<Rightarrow> (False, s')
      | (Inr n, s') \<Rightarrow> (n \<le> i64 (bc_limit b + bc_burst b), s'))"
  by (simp add: burst_allow_def BurstCounter_Allow_def Let_def split: prod.split sum.split)

text \<open>What a call answers, when the store counts and nothing overflows.\<close>

lemma BurstCounter_Allow_count:
  assumes "Increment S t (burst_key b t key) (bc_window b) s = (Inr n, s')"
    and "0 \<le> n" and "n \<le> max_i64"
    and "0 \<le> bc_limit b + bc_burst b" and "bc_limit b + bc_burst b \<le> max_i64"
  shows "BurstCounter_Allow S b t key s =
    ((n \<le> bc_limit b + bc_burst b, max 0 (bc_limit b + bc_burst b - n), None), s')"
proof -
  have "i64 (bc_limit b + bc_burst b) = bc_limit b + bc_burst b"
    and "i64 (bc_limit b + bc_burst b - n) = bc_limit b + bc_burst b - n"
    using assms by (simp_all add: i64_id)
  with assms(1) show ?thesis
    by (auto simp: BurstCounter_Allow_def Let_def)
qed

context store
begin

abbreviation wcnt :: "string \<Rightarrow> gotime \<Rightarrow> 's \<Rightarrow> int" where
  "wcnt key wst \<equiv> kcnt (window_key key wst) wst"

abbreviation winv :: "BurstCounter \<Rightarrow> string \<Rightarrow> gotime \<Rightarrow> 's \<Rightarrow> bool" where
  "winv b key wst \<equiv> kinv (window_key key wst) wst (wst + bc_window b - 1)"

lemma incr_in_window:
  assumes inv: "winv b key wst s" and t: "in_window b wst t" and ok: "okw (bc_window b)"
    and small: "wcnt key wst s < max_i64"
    and run: "Increment S t (window_key key wst) (bc_window b) s = (r, s')"
  shows "winv b key wst s'"
    and "r = Inr n \<Longrightarrow> n = wcnt key wst s + 1 \<and> wcnt key wst s' = n"
    and "wcnt key wst s' = wcnt key wst s \<or> wcnt key wst s' = wcnt key wst s + 1"
proof -
  have "wst \<le> t" "t \<le> wst + bc_window b - 1" "wst + bc_window b - 1 \<le> wst + bc_window b"
    using in_window_bounds [OF t] by linarith+
  note step = incr_in_interval [OF inv this(1,2) ok this(3) small run]
  show "winv b key wst s'" by (rule step(1))
  show "r = Inr n \<Longrightarrow> n = wcnt key wst s + 1 \<and> wcnt key wst s' = n" by (rule step(2))
  show "wcnt key wst s' = wcnt key wst s \<or> wcnt key wst s' = wcnt key wst s + 1" by (rule step(3))
qed

lemma burst_frame:
  assumes "burst_allow S b key t s = (ok, s')" and "k' \<noteq> burst_key b t key"
  shows "live t' s' k' = live t' s k'"
proof -
  obtain r where "Increment S t (burst_key b t key) (bc_window b) s = (r, s')"
    using assms(1) by (auto simp: burst_allow_cases split: prod.splits sum.splits)
  from incr_frame [OF this assms(2)] show ?thesis .
qed

end

text \<open>Over any store, within one window, a burst counter is a window limiter.\<close>

sublocale store \<subseteq> burst: window_limiter "burst_allow S b key"
  "\<lambda>t. okw (bc_window b) \<and> in_window b wst t" "wcnt key wst"
  "i64 (bc_limit b + bc_burst b)" "winv b key wst" for b key wst
proof (unfold_locales, goal_cases)
  case (1 s t ok s')
  then obtain r where "Increment S t (window_key key wst) (bc_window b) s = (r, s')"
    by (auto simp: burst_allow_cases burst_key_in_window split: prod.splits sum.splits)
  with 1 show ?case using incr_in_window(1) by blast
next
  case (2 s t ok s')
  then obtain r where "Increment S t (window_key key wst) (bc_window b) s = (r, s')"
    by (auto simp: burst_allow_cases burst_key_in_window split: prod.splits sum.splits)
  with 2 show ?case using incr_in_window(3) by blast
next
  case (3 s t s')
  then obtain n where "Increment S t (window_key key wst) (bc_window b) s = (Inr n, s')"
    and "n \<le> i64 (bc_limit b + bc_burst b)"
    by (auto simp: burst_allow_cases burst_key_in_window split: prod.splits sum.splits)
  with 3 show ?case using incr_in_window(2) [of key wst b s t "Inr n" s' n] by auto
qed

context store
begin

lemma fresh_window_bound:
  assumes "okw (bc_window b)" and "\<forall>t\<in>List.set ts. in_window b wst t"
    and "live wst s (window_key key wst) = None" and "int (length ts) \<le> max_i64"
    and "run_calls (burst_allow S b key) ts s = (oks, s')"
  shows "int (admitted oks) \<le> max 0 (i64 (bc_limit b + bc_burst b))"
  using burst.admits_at_most [of key wst b s ts oks s'] fresh_key [OF assms(3)] assms by simp

end

text \<open>The in-memory store never fails, so there it loses no call.\<close>

lemma memory_Increment_Inr: "\<exists>n s'. Increment memory_store t k w s = (Inr n, s')"
  by (simp add: mem_simps MemoryStore_Increment_cases split: option.split)

interpretation mem_burst: exact_window_limiter "burst_allow memory_store b key"
  "\<lambda>t. 0 \<le> bc_window b \<and> in_window b wst t" "mem.wcnt key wst"
  "i64 (bc_limit b + bc_burst b)" "mem.winv b key wst" for b key wst
proof (unfold_locales, goal_cases)
  case (1 s t ok s')
  obtain n s1 where "Increment memory_store t (window_key key wst) (bc_window b) s = (Inr n, s1)"
    using memory_Increment_Inr by blast
  with 1 show ?case
    using mem.incr_in_window(2) [of key wst b s t "Inr n" s1 n]
    by (auto simp: burst_allow_cases burst_key_in_window)
qed

subsection \<open>Properties\<close>



text \<open>Over the in-memory store the calls of one window are answered exactly: the first
  limit + burst are admitted, every later one is not.\<close>

theorem burst_memory_exact:
  assumes "\<forall>t\<in>List.set ts. in_window b wst t"
    and "mem_live wst s (window_key key wst) = None"
    and "int (length ts) \<le> max_i64"
    and "0 \<le> bc_limit b + bc_burst b" and "bc_limit b + bc_burst b \<le> max_i64"
  shows "fst (run_calls (burst_allow memory_store b key) ts s) =
    map (\<lambda>i. int i < bc_limit b + bc_burst b) [0..<length ts]"
proof (cases ts)
  case (Cons t ts')
  obtain oks s' where run: "run_calls (burst_allow memory_store b key) ts s = (oks, s')" by force
  have w: "\<forall>t\<in>List.set ts. 0 \<le> bc_window b \<and> in_window b wst t"
    using assms(1) by (auto simp: in_window_def)
  have "oks = map (\<lambda>i. mem.wcnt key wst s + 1 + int i \<le> i64 (bc_limit b + bc_burst b)) [0..<length ts]"
    using mem_burst.admits_exactly(1) [OF _ w _ run] mem.fresh_key [OF assms(2)] assms(3) by simp
  then show ?thesis
    using mem.fresh_key [OF assms(2)] assms(4,5) run by (auto simp: i64_id)
qed simp

theorem burst_memory_exact_witness:
  "fst (run_calls (burst_allow memory_store (NewBurstCounter 1 1 (60 * second)) ''a'')
      [unix_epoch + 5, unix_epoch + 6, unix_epoch + 7] NewMemoryStore) = [True, True, False]"
proof -
  have "fst (run_calls (burst_allow memory_store (NewBurstCounter 1 1 (60 * second)) ''a'')
      [unix_epoch + 5, unix_epoch + 6, unix_epoch + 7] NewMemoryStore) =
    map (\<lambda>i. int i < 2) [0..<length [unix_epoch + 5, unix_epoch + 6, unix_epoch + 7]]"
    by (subst burst_memory_exact [where wst = unix_epoch])
      (simp_all add: NewBurstCounter_def in_window_def Time_Truncate_def unix_epoch_def
        NewMemoryStore_def mem_live_def)
  then show ?thesis by (simp add: upt_rec)
qed

end
