(* ===== verification/FixedWindow.thy ===== *)
theory FixedWindow
  imports RedisStore Limiter
begin

section \<open>FixedWindowCounter\<close>

text \<open>
  \<open>src/fixed_window.go\<close>: a counter per client and window, kept in Redis under a key that
  holds the Unix second the window starts at, and expiring at the end of the window. For
  windows of whole seconds it is a window limiter over any Redis client; the reference
  server, while it is up, answers exactly. Below one second the key is expired by the very
  pipeline that counts: EXPIREAT takes whole seconds.
\<close>

record FixedWindowCounter =
  fw_window :: duration
  fw_max :: int

definition NewFixedWindowCounter :: "duration \<Rightarrow> int \<Rightarrow> FixedWindowCounter" where
  "NewFixedWindowCounter window mx = \<lparr>fw_window = window, fw_max = mx\<rparr>"

definition fw_key :: "string \<Rightarrow> gotime \<Rightarrow> string" where
  "fw_key key windowStart = ''fw:'' @ key @ CHR '':'' # Itoa (Time_Unix windowStart)"

definition FixedWindowCounter_Allow ::
  "'r redis \<Rightarrow> FixedWindowCounter \<Rightarrow> gotime \<Rightarrow> string \<Rightarrow> 'r \<Rightarrow>
   (bool \<times> int \<times> gotime \<times> err option) \<times> 'r" where
  "FixedWindowCounter_Allow R f now key r =
     (let windowStart = Time_Truncate now (fw_window f);
          resetAt = windowStart + fw_window f;
          redisKey = fw_key key windowStart
      in case Exec R now [Incr redisKey, ExpireAt redisKey resetAt] r of ((e, rs), r') \<Rightarrow>
           (case e of
              Some m \<Rightarrow> ((False, 0, resetAt, Some (''fixed window pipeline: '' @ m)), r')
            | None \<Rightarrow>
                let count = reply_val (reply0 rs);
                    remaining = i64 (fw_max f - count);
                    remaining = (if remaining < 0 then 0 else remaining)
                in if fw_max f < count then ((False, remaining, resetAt, None), r')
                   else ((True, remaining, resetAt, None), r')))"

definition fw_allow ::
  "'r redis \<Rightarrow> FixedWindowCounter \<Rightarrow> string \<Rightarrow> gotime \<Rightarrow> 'r \<Rightarrow> bool \<times> 'r" where
  "fw_allow R f key now r =
     (case FixedWindowCounter_Allow R f now key r of ((ok, _, _, _), r') \<Rightarrow> (ok, r'))"

definition fw_in_window :: "FixedWindowCounter \<Rightarrow> gotime \<Rightarrow> gotime \<Rightarrow> bool" where
  "fw_in_window f wst t \<longleftrightarrow> whole_seconds (fw_window f) \<and> Time_Truncate t (fw_window f) = wst"

lemma fw_window_bounds: "fw_in_window f wst t \<Longrightarrow> wst \<le> t \<and> t < wst + fw_window f"
  using Time_Truncate_le Time_Truncate_gt whole_seconds_pos by (fastforce simp: fw_in_window_def)

text \<open>The end of a window of whole seconds is a whole Unix second.\<close>

lemma unix_round: "e mod second = 0 \<Longrightarrow> unix_epoch + Time_Unix e * second = e"
proof -
  assume "e mod second = 0"
  then have "second dvd e - unix_epoch"
    by (intro dvd_diff) (simp_all add: unix_epoch_def mod_eq_0_iff_dvd)
  then show ?thesis by (auto simp: Time_Unix_def)
qed

lemma window_end_whole:
  assumes "fw_in_window f wst t"
  shows "(wst + fw_window f) mod second = 0"
proof -
  obtain n where n: "fw_window f = n * second" "0 < n"
    using assms whole_secondsE by (auto simp: fw_in_window_def)
  have "second dvd Time_Truncate t (fw_window f)"
    using n by (simp add: Time_Truncate_def minus_mod_eq_mult_div)
  with assms n show ?thesis by (auto simp: fw_in_window_def)
qed

definition fw_pipe :: "string \<Rightarrow> gotime \<Rightarrow> redis_cmd list" where
  "fw_pipe k e = [Incr k, ExpireAt k e]"

text \<open>The key of a window: not there, or a count that lives to the end of the window.\<close>

definition fw_inv :: "FixedWindowCounter \<Rightarrow> gotime \<Rightarrow> string \<Rightarrow> kv \<Rightarrow> bool" where
  "fw_inv f wst k m \<longleftrightarrow>
     m k = None \<or> (\<exists>n\<ge>0. m k = Some (VInt n, Some (wst + fw_window f)))"

definition fw_cnt :: "string \<Rightarrow> kv \<Rightarrow> int" where
  "fw_cnt k m = (case m k of Some (VInt n, _) \<Rightarrow> n | _ \<Rightarrow> 0)"

lemma fw_pipe_effect:
  assumes w: "fw_in_window f wst t" and inv: "fw_inv f wst k m" and small: "fw_cnt k m < max_i64"
  shows "spec_cmds t (fw_pipe k (wst + fw_window f)) m =
    ([RepInt (fw_cnt k m + 1), RepInt 1],
     m(k \<mapsto> (VInt (fw_cnt k m + 1), Some (wst + fw_window f))))"
proof -
  have t: "t < wst + fw_window f" using fw_window_bounds [OF w] by simp
  have e: "unix_epoch + Time_Unix (wst + fw_window f) * second = wst + fw_window f"
    by (rule unix_round [OF window_end_whole [OF w]])
  consider "m k = None" | n where "m k = Some (VInt n, Some (wst + fw_window f))" "0 \<le> n"
    using inv by (auto simp: fw_inv_def)
  then show ?thesis
    using t small
    by cases (auto simp: fw_pipe_def fw_cnt_def set_deadline_def kv_at_def kv_alive_def e)
qed

context redis_client
begin

lemma fw_step:
  assumes w: "fw_in_window f wst t" and inv: "fw_inv f wst (fw_key key wst) (keys r)"
    and small: "fw_cnt (fw_key key wst) (keys r) < max_i64"
    and run: "FixedWindowCounter_Allow R f t key r = ((ok, rem, e, er), r')"
  shows "fw_inv f wst (fw_key key wst) (keys r')"
    and "fw_cnt (fw_key key wst) (keys r') = fw_cnt (fw_key key wst) (keys r) \<or>
         fw_cnt (fw_key key wst) (keys r') = fw_cnt (fw_key key wst) (keys r) + 1"
    and "er = None \<Longrightarrow> fw_cnt (fw_key key wst) (keys r') = fw_cnt (fw_key key wst) (keys r) + 1 \<and>
         (ok \<longleftrightarrow> fw_cnt (fw_key key wst) (keys r') \<le> fw_max f)"
    and "er \<noteq> None \<Longrightarrow> \<not> ok"
proof -
  let ?k = "fw_key key wst" and ?m = "keys r"
  have wst: "Time_Truncate t (fw_window f) = wst" using w by (simp add: fw_in_window_def)
  obtain ee rs where ex: "Exec R t (fw_pipe ?k (wst + fw_window f)) r = ((ee, rs), r')"
    and res: "er \<noteq> None \<longleftrightarrow> ee \<noteq> None" "er \<noteq> None \<Longrightarrow> \<not> ok"
      "ee = None \<Longrightarrow> ok \<longleftrightarrow> reply_val (reply0 rs) \<le> fw_max f"
    using run
    by (auto simp: FixedWindowCounter_Allow_def Let_def wst fw_pipe_def
        split: prod.splits option.splits if_splits)
  note eff = fw_pipe_effect [OF w inv small]
  have pos: "0 \<le> fw_cnt ?k ?m" using inv by (auto simp: fw_inv_def fw_cnt_def)
  have new: "keys r' = ?m \<or> keys r' = ?m(?k \<mapsto> (VInt (fw_cnt ?k ?m + 1), Some (wst + fw_window f)))"
    using exec_effect [OF ex] eff by simp
  with inv pos show "fw_inv f wst ?k (keys r')"
    and "fw_cnt ?k (keys r') = fw_cnt ?k ?m \<or> fw_cnt ?k (keys r') = fw_cnt ?k ?m + 1"
    by (auto simp: fw_inv_def fw_cnt_def)
  show "er = None \<Longrightarrow> fw_cnt ?k (keys r') = fw_cnt ?k ?m + 1 \<and> (ok \<longleftrightarrow> fw_cnt ?k (keys r') \<le> fw_max f)"
    using exec_ok(1) [of t _ r rs r'] ex eff res by (auto simp: fw_cnt_def redis_simps)
  show "er \<noteq> None \<Longrightarrow> \<not> ok" by (rule res(2))
qed

lemma fw_allow_step:
  assumes "fw_allow R f key t r = (ok, r')"
  obtains rem e er where "FixedWindowCounter_Allow R f t key r = ((ok, rem, e, er), r')"
  using assms by (auto simp: fw_allow_def split: prod.splits)

end

sublocale redis_client \<subseteq> fw: window_limiter "fw_allow R f key" "fw_in_window f wst"
  "\<lambda>r. fw_cnt (fw_key key wst) (keys r)" "fw_max f" "\<lambda>r. fw_inv f wst (fw_key key wst) (keys r)"
  for f key wst
proof (unfold_locales, goal_cases)
  case (1 s t ok s')
  from 1(4) show ?case by (rule fw_allow_step) (use fw_step(1) 1 in blast)
next
  case (2 s t ok s')
  from 2(4) show ?case by (rule fw_allow_step) (use fw_step(2) 2 in blast)
next
  case (3 s t s')
  from 3(4) obtain rem e er where run: "FixedWindowCounter_Allow R f t key s = ((True, rem, e, er), s')"
    by (rule fw_allow_step)
  show ?case using fw_step(3,4) [OF 3(2,1,3) run] by auto
qed

context redis_client
begin

lemma fw_fresh_bound:
  assumes "\<forall>t\<in>List.set ts. fw_in_window f wst t" and "keys r (fw_key key wst) = None"
    and "int (length ts) \<le> max_i64" and "run_calls (fw_allow R f key) ts r = (oks, r')"
  shows "int (admitted oks) \<le> max 0 (fw_max f)"
  using fw.admits_at_most [of f wst key r ts oks r'] assms by (simp add: fw_inv_def fw_cnt_def)

end

text \<open>The reference server, while it is up.\<close>

interpretation ref_fw: exact_window_limiter "fw_allow ref_client f key" "fw_in_window f wst"
  "\<lambda>r. fw_cnt (fw_key key wst) (rKeys r)" "fw_max f"
  "\<lambda>r. fw_inv f wst (fw_key key wst) (rKeys r) \<and> \<not> rDown r" for f key wst
proof -
  have up: "\<not> rDown r' \<and> er = None"
    if "FixedWindowCounter_Allow ref_client f t key r = ((ok, rem, e, er), r')"
      "fw_inv f wst (fw_key key wst) (rKeys r)" "\<not> rDown r" "fw_in_window f wst t"
      "fw_cnt (fw_key key wst) (rKeys r) < max_i64"
    for r t ok rem e er r'
  proof -
    have wst: "Time_Truncate t (fw_window f) = wst" using that(4) by (simp add: fw_in_window_def)
    show ?thesis
      using that(1,3) fw_pipe_effect [OF that(4,2,5)]
      by (auto simp: FixedWindowCounter_Allow_def Let_def wst ref_client_def ref_exec_def fw_pipe_def
          split: if_splits prod.splits)
  qed
  show "exact_window_limiter (fw_allow ref_client f key) (fw_in_window f wst)
      (\<lambda>r. fw_cnt (fw_key key wst) (rKeys r)) (fw_max f)
      (\<lambda>r. fw_inv f wst (fw_key key wst) (rKeys r) \<and> \<not> rDown r)"
  proof (unfold_locales, goal_cases)
    case (1 s t ok s')
    from 1(4) obtain rem e er where "FixedWindowCounter_Allow ref_client f t key s = ((ok, rem, e, er), s')"
      by (rule ref.fw_allow_step)
    then show ?case using 1 up ref.fw_step(1) by blast
  next
    case (2 s t ok s')
    then show ?case using ref.fw.step_cnt by blast
  next
    case (3 s t s')
    then show ?case using ref.fw.step_ok by blast
  next
    case (4 s t ok s')
    from 4(4) obtain rem e er where run: "FixedWindowCounter_Allow ref_client f t key s = ((ok, rem, e, er), s')"
      by (rule ref.fw_allow_step)
    then show ?case using 4 up [OF run] ref.fw_step(3) [OF 4(2) _ 4(3) run] by auto
  qed
qed

text \<open>A window end that EXPIREAT, in whole seconds, puts into the past.\<close>

context redis_client
begin

lemma fw_expired_at_once:
  assumes e: "unix_epoch + Time_Unix (Time_Truncate t (fw_window f) + fw_window f) * second \<le> t"
    and none: "keys r (fw_key key (Time_Truncate t (fw_window f))) = None"
    and run: "FixedWindowCounter_Allow R f t key r = ((ok, rem, re, None), r')"
    and mx: "1 \<le> fw_max f"
  shows "ok" and "keys r' (fw_key key (Time_Truncate t (fw_window f))) = None"
proof -
  let ?w = "Time_Truncate t (fw_window f)"
  obtain rs where ex: "Exec R t [Incr (fw_key key ?w), ExpireAt (fw_key key ?w) (?w + fw_window f)] r = ((None, rs), r')"
    and ok: "ok \<longleftrightarrow> reply_val (reply0 rs) \<le> fw_max f"
    using run by (auto simp: FixedWindowCounter_Allow_def Let_def split: prod.splits option.splits if_splits)
  let ?cs = "[Incr (fw_key key ?w), ExpireAt (fw_key key ?w) (?w + fw_window f)]"
  have "rs = fst (spec_cmds t ?cs (keys r))" and "keys r' = snd (spec_cmds t ?cs (keys r))"
    using exec_ok(1) [OF ex] by simp_all
  with none e ok mx show "ok" and "keys r' (fw_key key ?w) = None"
    by (auto simp: set_deadline_def redis_simps kv_at_def kv_alive_def)
qed

end

subsection \<open>Properties\<close>

text \<open>C2. Over any Redis client, whether or not its calls fail, the calls of one client in one
  window of whole seconds are admitted at most max times.\<close>

theorem fixed_window_admits_at_most:
  assumes "redis_client R keys"
    and "\<forall>t\<in>List.set ts. fw_in_window f wst t" and "keys r (fw_key key wst) = None"
    and "int (length ts) \<le> max_i64" and "run_calls (fw_allow R f key) ts r = (oks, r')"
  shows "int (admitted oks) \<le> max 0 (fw_max f)"
  using redis_client.fw_fresh_bound [OF assms] .

theorem fixed_window_admits_at_most_witness:
  "int (admitted (fst (run_calls (fw_allow ref_client (NewFixedWindowCounter (60 * second) 2) ''10.0.0.1'')
      [unix_epoch + 5, unix_epoch + 6, unix_epoch + 7] new_redis))) \<le> 2"
proof -
  let ?f = "NewFixedWindowCounter (60 * second) 2"
  obtain oks r' where run: "run_calls (fw_allow ref_client ?f ''10.0.0.1'')
      [unix_epoch + 5, unix_epoch + 6, unix_epoch + 7] new_redis = (oks, r')"
    by force
  have "int (admitted oks) \<le> max 0 (fw_max ?f)"
    by (rule fixed_window_admits_at_most [OF ref.redis_client_axioms _ _ _ run, of unix_epoch])
      (simp_all add: NewFixedWindowCounter_def whole_seconds_def fw_in_window_def Time_Truncate_def
        unix_epoch_def new_redis_def)
  then show ?thesis unfolding run by (simp add: NewFixedWindowCounter_def)
qed

text \<open>On a server that answers, the calls of one window are answered exactly: the first max
  are admitted, every later one is not.\<close>

theorem fixed_window_exact:
  assumes "\<forall>t\<in>List.set ts. fw_in_window f wst t" and "rKeys r (fw_key key wst) = None"
    and "\<not> rDown r" and "int (length ts) \<le> max_i64"
  shows "fst (run_calls (fw_allow ref_client f key) ts r) =
    map (\<lambda>i. int i < fw_max f) [0..<length ts]"
proof -
  obtain oks r' where run: "run_calls (fw_allow ref_client f key) ts r = (oks, r')" by force
  have "oks = map (\<lambda>i. fw_cnt (fw_key key wst) (rKeys r) + 1 + int i \<le> fw_max f) [0..<length ts]"
    using ref_fw.admits_exactly(1) [OF _ assms(1) _ run] assms by (simp add: fw_inv_def fw_cnt_def)
  then show ?thesis using assms(2) run by (auto simp: fw_cnt_def)
qed

theorem fixed_window_exact_witness:
  "fst (run_calls (fw_allow ref_client (NewFixedWindowCounter (60 * second) 2) ''a'')
      [unix_epoch + 5, unix_epoch + 6, unix_epoch + 7] new_redis) = [True, True, False]"
  by (subst fixed_window_exact [where wst = unix_epoch])
    (simp_all add: NewFixedWindowCounter_def whole_seconds_def fw_in_window_def Time_Truncate_def
      unix_epoch_def new_redis_def)

text \<open>When the end of the window lies in the current Unix second, as it does for most calls
  under a window below one second, a counted call is admitted whatever was counted before,
  and its key is gone right after: the limit is not enforced.\<close>

theorem fixed_window_subsecond_unlimited:
  assumes "redis_client R keys"
    and "unix_epoch + Time_Unix (Time_Truncate t (fw_window f) + fw_window f) * second \<le> t"
    and "keys r (fw_key key (Time_Truncate t (fw_window f))) = None"
    and "FixedWindowCounter_Allow R f t key r = ((ok, rem, re, None), r')"
    and "1 \<le> fw_max f"
  shows "ok \<and> keys r' (fw_key key (Time_Truncate t (fw_window f))) = None"
  using redis_client.fw_expired_at_once [OF assms] by blast

theorem fixed_window_subsecond_unlimited_witness:
  "fst (fw_allow ref_client (NewFixedWindowCounter (200 * millisecond) 1) ''a''
      (unix_epoch + 250 * millisecond) new_redis)"
proof -
  let ?f = "NewFixedWindowCounter (200 * millisecond) 1" and ?t = "unix_epoch + 250 * millisecond"
  obtain ok rem re er r' where run:
    "FixedWindowCounter_Allow ref_client ?f ?t ''a'' new_redis = ((ok, rem, re, er), r')"
    by (metis surj_pair)
  have er: "er = None"
    using run by (simp add: FixedWindowCounter_Allow_def Let_def ref_client_def ref_exec_def
        new_redis_def set_deadline_def kv_at_def kv_alive_def split: if_splits)
  have "ok"
    using fixed_window_subsecond_unlimited [OF ref.redis_client_axioms _ _ run [unfolded er]]
    by (simp add: NewFixedWindowCounter_def Time_Truncate_def Time_Unix_def unix_epoch_def new_redis_def)
  with run show ?thesis by (simp add: fw_allow_def)
qed

end
