(* ===== verification/SlidingWindow.thy ===== *)
theory SlidingWindow
  imports Redis Limiter
begin

section \<open>SlidingWindowCounter\<close>

text \<open>
  \<open>src/sliding_window.go\<close>: a sorted set per client with one member per call, the Unix
  nanosecond of the call as its name and the millisecond as its score. A call drops what left
  the window, adds itself, counts, and renews the expiry. Refused calls are members too, and
  two calls in the same nanosecond are one member.
\<close>

definition sw_member :: "gotime \<Rightarrow> string" where
  "sw_member t = Itoa (Time_UnixNano t)"

definition sw_score :: "gotime \<Rightarrow> rat" where
  "sw_score t = float_of_int (Time_UnixMilli t)"

definition sw_pipe :: "string \<Rightarrow> gotime \<Rightarrow> duration \<Rightarrow> redis_cmd list" where
  "sw_pipe key now window =
     (let windowStart = now + i64 (- window)
      in [ZRemRangeByScore key 0 (of_int (Time_UnixMilli windowStart)),
          ZAdd key (sw_score now) (sw_member now),
          ZCard key,
          Expire key (i64 (window + second))])"

definition reply2 :: "reply list \<Rightarrow> reply" where
  "reply2 rs = (case rs of _ # _ # r # _ \<Rightarrow> r | _ \<Rightarrow> RepNil)"

definition SlidingWindowCounter_Allow ::
  "'r redis \<Rightarrow> gotime \<Rightarrow> string \<Rightarrow> int \<Rightarrow> duration \<Rightarrow> 'r \<Rightarrow> (bool \<times> int \<times> err option) \<times> 'r" where
  "SlidingWindowCounter_Allow R now key mx window r =
     (case Exec R now (sw_pipe key now window) r of ((e, rs), r') \<Rightarrow>
        (case e of
           Some m \<Rightarrow> ((False, 0, Some (''sliding window pipeline exec: '' @ m)), r')
         | None \<Rightarrow>
             let count = reply_val (reply2 rs)
             in if mx < count then ((False, count, None), r') else ((True, count, None), r')))"

definition sw_allow ::
  "'r redis \<Rightarrow> string \<Rightarrow> int \<Rightarrow> duration \<Rightarrow> gotime \<Rightarrow> 'r \<Rightarrow> bool \<times> 'r" where
  "sw_allow R key mx window now r =
     (case SlidingWindowCounter_Allow R now key mx window r of ((ok, _, _), r') \<Rightarrow> (ok, r'))"

subsection \<open>The pipeline\<close>

text \<open>Times \<open>UnixNano\<close> represents, and windows with room for the extra second.\<close>

definition sw_time :: "gotime \<Rightarrow> bool" where
  "sw_time t \<longleftrightarrow> 0 \<le> t - unix_epoch \<and> t - unix_epoch \<le> max_i64"

definition sw_window :: "duration \<Rightarrow> bool" where
  "sw_window w \<longleftrightarrow> 0 \<le> w \<and> w \<le> max_i64 - second"

text \<open>A call at \<open>u\<close> is in the window of a call at \<open>t\<close>.\<close>

definition in_sliding :: "duration \<Rightarrow> gotime \<Rightarrow> gotime \<Rightarrow> bool" where
  "in_sliding w t u \<longleftrightarrow> Time_UnixMilli (t - w) < Time_UnixMilli u"

lemma sw_member_inject: "sw_time t \<Longrightarrow> sw_time u \<Longrightarrow> sw_member t = sw_member u \<longleftrightarrow> t = u"
  by (simp add: sw_member_def sw_time_def Time_UnixNano_def i64_id)

lemma Time_UnixMilli_mono: "t \<le> u \<Longrightarrow> Time_UnixMilli t \<le> Time_UnixMilli u"
  by (simp add: Time_UnixMilli_def zdiv_mono1)

lemma in_sliding_after: "in_sliding w t u \<Longrightarrow> t < u + w"
  using Time_UnixMilli_mono [of u "t - w"] by (force simp: in_sliding_def)

lemma in_sliding_earlier: "in_sliding w t' u \<Longrightarrow> t \<le> t' \<Longrightarrow> in_sliding w t u"
  using Time_UnixMilli_mono [of "t - w" "t' - w"] by (simp add: in_sliding_def)

lemma sw_score_exact: "sw_time t \<Longrightarrow> sw_score t = of_int (Time_UnixMilli t)"
proof -
  assume "sw_time t"
  then have "0 \<le> Time_UnixMilli t" "Time_UnixMilli t \<le> max_i64 div millisecond"
    using zdiv_mono1 [of "t - unix_epoch" max_i64 millisecond]
    by (auto simp: sw_time_def Time_UnixMilli_def pos_imp_zdiv_nonneg_iff)
  then show ?thesis
    unfolding sw_score_def by (intro float_of_int_exact) simp
qed

lemma sw_lifetime: "sw_window w \<Longrightarrow> w < format_sec (i64 (w + second)) * second"
proof -
  assume w: "sw_window w"
  have "w < ((w + second) div second) * second"
    using w by (simp add: sw_window_def)
  then show ?thesis
    using w by (simp add: sw_window_def i64_id format_sec_def signed_divide_int_def sgn_if)
qed

definition sw_after :: "gotime \<Rightarrow> duration \<Rightarrow> (string \<times> rat) list \<Rightarrow> (string \<times> rat) list" where
  "sw_after t w z =
     zadd (sw_member t) (sw_score t)
       (filter (\<lambda>(_, s). \<not> (0 \<le> s \<and> s \<le> of_int (Time_UnixMilli (t - w)))) z)"

lemma zset_at_put: "zset_at t (put_zset k z d m) k =
    (if z = [] then Some ([], None) else if kv_alive t d then Some (z, d) else Some ([], None))"
  by (simp add: zset_at_def put_zset_def redis_simps zset_of_def)

lemma zset_at_alive: "zset_at t m k = Some (z, d) \<Longrightarrow> kv_alive t d"
  by (auto simp: zset_at_def redis_simps dest: kv_at_alive split: option.splits)

lemma put_zset_put: "put_zset k z d (put_zset k z' d' m) = put_zset k z d m"
  by (simp add: put_zset_def)

lemma zadd_not_Nil [simp]: "zadd x s z \<noteq> []"
  by (simp add: zadd_def)

text \<open>The members of the set after the pipeline, and the count it answers.\<close>

lemma sw_pipe_effect:
  assumes z: "zset_at t m k = Some (z, d)" and w: "sw_window w"
  obtains a b where "spec_cmds t (sw_pipe k t w) m =
    ([RepInt a, RepInt b, RepInt (int (length (sw_after t w z))), RepInt 1],
     m(k \<mapsto> (VZSet (sw_after t w z), Some (t + format_sec (i64 (w + second)) * second))))"
proof -
  define z1 where "z1 = filter (\<lambda>(_, s). \<not> (0 \<le> s \<and> s \<le> of_int (Time_UnixMilli (t - w)))) z"
  have after: "sw_after t w z = zadd (sw_member t) (sw_score t) z1"
    by (simp add: sw_after_def z1_def)
  have wneg: "i64 (- w) = - w" using w by (simp add: sw_window_def i64_id)
  have "\<exists>d1. zset_at t (put_zset k z1 d m) k = Some (z1, d1) \<and> kv_alive t d1"
    using zset_at_alive [OF z] by (cases "z1 = []") (simp_all add: zset_at_put kv_alive_simps)
  then obtain d1 where z1: "zset_at t (put_zset k z1 d m) k = Some (z1, d1)" "kv_alive t d1"
    by blast
  have put1: "put_zset k (sw_after t w z) d1 (put_zset k z1 d m) = m(k \<mapsto> (VZSet (sw_after t w z), d1))"
    by (simp add: put_zset_put) (simp add: put_zset_def after)
  have z2: "zset_at t (m(k \<mapsto> (VZSet (sw_after t w z), d1))) k = Some (sw_after t w z, d1)"
    using z1(2) by (simp add: zset_at_def redis_simps zset_of_def)
  have dl: "\<not> t + format_sec (i64 (w + second)) * second \<le> t"
    using sw_lifetime [OF w] w by (simp add: sw_window_def)
  have rem: "spec_cmd t (ZRemRangeByScore k 0 (of_int (Time_UnixMilli (t - w)))) m =
      (RepInt (int (length z) - int (length z1)), put_zset k z1 d m)"
    by (simp add: z Let_def z1_def)
  have add: "\<exists>b. spec_cmd t (ZAdd k (sw_score t) (sw_member t)) (put_zset k z1 d m) =
      (RepInt b, m(k \<mapsto> (VZSet (sw_after t w z), d1)))"
    using z1(1) put1 by (simp add: after)
  then obtain b where b: "spec_cmd t (ZAdd k (sw_score t) (sw_member t)) (put_zset k z1 d m) =
      (RepInt b, m(k \<mapsto> (VZSet (sw_after t w z), d1)))" ..
  have exp: "spec_cmd t (Expire k (i64 (w + second))) (m(k \<mapsto> (VZSet (sw_after t w z), d1))) =
      (RepInt 1, m(k \<mapsto> (VZSet (sw_after t w z), Some (t + format_sec (i64 (w + second)) * second))))"
    using z1(2) dl by (simp add: set_deadline_def redis_simps)
  have card: "spec_cmd t (ZCard k) (m(k \<mapsto> (VZSet (sw_after t w z), d1))) =
      (RepInt (int (length (sw_after t w z))), m(k \<mapsto> (VZSet (sw_after t w z), d1)))"
    using z2 by simp
  show ?thesis
    by (rule that) (simp only: sw_pipe_def Let_def wneg spec_cmds.simps rem b card exp prod.case
        diff_conv_add_uminus [symmetric])
qed

text \<open>Members stay: a call still in the window is not dropped by a later one.\<close>

lemma sw_after_keeps:
  assumes "(sw_member u, sw_score u) \<in> set z" and "sw_time u" and "sw_time t" and "u \<noteq> t"
    and "in_sliding w t u"
  shows "(sw_member u, sw_score u) \<in> set (sw_after t w z)"
  using assms by (auto simp: sw_after_def zadd_def in_sliding_def sw_score_exact sw_member_inject)

lemma sw_after_self: "(sw_member t, sw_score t) \<in> set (sw_after t w z)"
  by (simp add: sw_after_def zadd_def)

text \<open>The count bounds any set of calls whose members are there.\<close>

lemma sw_count_bound:
  assumes "\<forall>u\<in>A. (sw_member u, sw_score u) \<in> set z" and "\<forall>u\<in>A. sw_time u"
  shows "card A \<le> length z"
proof -
  have "inj_on (\<lambda>u. (sw_member u, sw_score u)) A"
    using assms(2) by (auto intro!: inj_onI simp: sw_member_inject)
  then have "card A = card ((\<lambda>u. (sw_member u, sw_score u)) ` A)" by (simp add: card_image)
  also have "\<dots> \<le> card (set z)" using assms(1) by (intro card_mono) auto
  also have "\<dots> \<le> length z" by (rule card_length)
  finally show ?thesis .
qed

subsection \<open>The admitted calls\<close>

text \<open>Every admitted call so far is a member of the set that readers from \<open>prev\<close> on see, for as
  long as it is in their window.\<close>

definition sw_inv :: "string \<Rightarrow> duration \<Rightarrow> gotime \<Rightarrow> gotime set \<Rightarrow> kv \<Rightarrow> bool" where
  "sw_inv k w prev A m \<longleftrightarrow>
     (\<forall>u\<in>A. sw_time u \<and> u \<le> prev \<and>
        (\<forall>t\<ge>prev. in_sliding w t u \<longrightarrow>
          (\<exists>z d. zset_at t m k = Some (z, d) \<and> (sw_member u, sw_score u) \<in> set z)))"

lemma sw_invD: "sw_inv k w prev A m \<Longrightarrow> u \<in> A \<Longrightarrow> sw_time u \<and> u \<le> prev"
  by (simp add: sw_inv_def)

lemma sw_inv_member:
  assumes "sw_inv k w prev A m" and "u \<in> A" and "prev \<le> t" and "in_sliding w t u"
  obtains z d where "zset_at t m k = Some (z, d)" and "(sw_member u, sw_score u) \<in> set z"
  using assms unfolding sw_inv_def by blast

lemma zset_at_None_later: "zset_at t m k = None \<Longrightarrow> t \<le> t' \<Longrightarrow>
    zset_at t' m k = None \<or> zset_at t' m k = Some ([], None)"
  by (auto simp: zset_at_def kv_at_def split: option.splits if_splits)

lemma zset_at_later: "zset_at t m k = Some (z, d) \<Longrightarrow> t \<le> t' \<Longrightarrow>
    zset_at t' m k = Some (z, d) \<or> zset_at t' m k = Some ([], None)"
  by (auto simp: zset_at_def kv_at_def kv_alive_def split: option.splits if_splits)

lemma sw_inv_later: "sw_inv k w prev A m \<Longrightarrow> prev \<le> t \<Longrightarrow> sw_inv k w t A m"
  unfolding sw_inv_def by (meson order_trans)

lemma sw_inv_step:
  assumes inv: "sw_inv k w prev A m" and t: "prev < t" "sw_time t" and w: "sw_window w"
    and z: "zset_at t m k = Some (z, d)"
    and m': "m' = m(k \<mapsto> (VZSet (sw_after t w z), Some (t + format_sec (i64 (w + second)) * second)))"
  shows "sw_inv k w t (insert t A) m'"
    and "\<forall>u\<in>{u\<in>insert t A. in_sliding w t u}. (sw_member u, sw_score u) \<in> set (sw_after t w z)"
proof -
  have keep: "(sw_member u, sw_score u) \<in> set (sw_after t w z)"
    if u: "u \<in> insert t A" "in_sliding w t u" for u
  proof (cases "u = t")
    case True
    then show ?thesis using sw_after_self by simp
  next
    case False
    with u have uA: "u \<in> A" by simp
    have "prev \<le> t" using t(1) by simp
    from sw_inv_member [OF inv uA this u(2)]
    obtain z' d' where "zset_at t m k = Some (z', d')" "(sw_member u, sw_score u) \<in> set z'" .
    with z have "(sw_member u, sw_score u) \<in> set z" by simp
    then show ?thesis using sw_after_keeps sw_invD [OF inv uA] t(2) False u(2) by blast
  qed
  then show "\<forall>u\<in>{u\<in>insert t A. in_sliding w t u}. (sw_member u, sw_score u) \<in> set (sw_after t w z)"
    by blast
  show "sw_inv k w t (insert t A) m'"
    unfolding sw_inv_def
  proof (intro ballI conjI allI impI)
    fix u assume u: "u \<in> insert t A"
    with inv t show "sw_time u" "u \<le> t" by (auto simp: sw_inv_def)
    fix t' assume t': "t \<le> t'" "in_sliding w t' u"
    have "t' < t + w" using in_sliding_after [OF t'(2)] \<open>u \<le> t\<close> by linarith
    then have "t' \<le> t + format_sec (i64 (w + second)) * second"
      using sw_lifetime [OF w] by linarith
    then have "zset_at t' m' k =
        Some (sw_after t w z, Some (t + format_sec (i64 (w + second)) * second))"
      by (simp add: m' zset_at_def redis_simps zset_of_def)
    with keep [OF u in_sliding_earlier [OF t'(2,1)]]
    show "\<exists>z d. zset_at t' m' k = Some (z, d) \<and> (sw_member u, sw_score u) \<in> set z" by blast
  qed
qed

text \<open>When the key holds no set, no admitted call is left in the window.\<close>

lemma sw_inv_wrong:
  assumes inv: "sw_inv k w prev A m" and t: "prev < t" and none: "zset_at t m k = None"
  shows "sw_inv k w t A m'"
proof -
  have "\<not> in_sliding w t' u" if uA: "u \<in> A" and tt: "t \<le> t'" for u t'
  proof
    assume sl: "in_sliding w t' u"
    have "prev \<le> t'" using t tt by simp
    from sw_inv_member [OF inv uA this sl]
    obtain z d where "zset_at t' m k = Some (z, d)" "(sw_member u, sw_score u) \<in> set z" .
    with zset_at_None_later [OF none tt] show False by auto
  qed
  then show ?thesis
    using sw_invD [OF inv] t unfolding sw_inv_def by (meson less_imp_le order_trans)
qed

lemma sw_inv_mono: "sw_inv k w prev A m \<Longrightarrow> B \<subseteq> A \<Longrightarrow> sw_inv k w prev B m"
  unfolding sw_inv_def by blast

definition adm_times :: "gotime list \<Rightarrow> bool list \<Rightarrow> gotime set" where
  "adm_times ts oks = {t. (t, True) \<in> set (zip ts oks)}"

lemma adm_times_simps [simp]:
  "adm_times [] oks = {}" "adm_times (t # ts) (True # oks) = insert t (adm_times ts oks)"
  "adm_times (t # ts) (False # oks) = adm_times ts oks"
  by (auto simp: adm_times_def)

lemma adm_times_subset: "adm_times ts oks \<subseteq> set ts"
  by (auto simp: adm_times_def dest: set_zip_leftD)

lemma sw_pipe_wrong:
  "zset_at t m k = None \<Longrightarrow> first_err (fst (spec_cmds t (sw_pipe k t w) m)) \<noteq> None"
  by (simp add: sw_pipe_def Let_def prod.case_eq_if)

context redis_client
begin

lemma sw_step:
  assumes inv: "sw_inv key w prev A (keys r)" and t: "prev < t" "sw_time t" and w: "sw_window w"
    and run: "sw_allow R key mx w t r = (ok, r')"
  shows "sw_inv key w t (if ok then insert t A else A) (keys r')"
    and "ok \<Longrightarrow> int (card {u\<in>insert t A. in_sliding w t u}) \<le> mx"
proof -
  obtain e rs where ex: "Exec R t (sw_pipe key t w) r = ((e, rs), r')"
    and ok: "ok \<longleftrightarrow> e = None \<and> reply_val (reply2 rs) \<le> mx"
    using run by (auto simp: sw_allow_def SlidingWindowCounter_Allow_def Let_def
        split: prod.splits option.splits if_splits)
  have eff: "keys r' = keys r \<or> keys r' = snd (spec_cmds t (sw_pipe key t w) (keys r))"
    using exec_effect [OF ex] .
  have "sw_inv key w t (if ok then insert t A else A) (keys r') \<and>
    (ok \<longrightarrow> int (card {u\<in>insert t A. in_sliding w t u}) \<le> mx)"
  proof (cases "zset_at t (keys r) key")
    case None
    then have "e \<noteq> None"
      using exec_ok [of t _ r rs r'] ex sw_pipe_wrong [OF None] by (metis fst_conv)
    then have "\<not> ok" using ok by simp
    with sw_inv_wrong [OF inv t(1) None] show ?thesis by simp
  next
    case (Some zd)
    obtain z d where zd: "zset_at t (keys r) key = Some (z, d)" using Some by (cases zd) auto
    obtain a b where pipe: "spec_cmds t (sw_pipe key t w) (keys r) =
        ([RepInt a, RepInt b, RepInt (int (length (sw_after t w z))), RepInt 1],
         (keys r)(key \<mapsto> (VZSet (sw_after t w z),
           Some (t + format_sec (i64 (w + second)) * second))))"
      using sw_pipe_effect [OF zd w] .
    note step = sw_inv_step [OF inv t w zd refl]
    show ?thesis
    proof (cases ok)
      case True
      then have e: "e = None" using ok by simp
      have rs: "rs = [RepInt a, RepInt b, RepInt (int (length (sw_after t w z))), RepInt 1]"
        and k': "keys r' = (keys r)(key \<mapsto> (VZSet (sw_after t w z),
           Some (t + format_sec (i64 (w + second)) * second)))"
        using exec_ok(1) [OF ex [unfolded e]] pipe by simp_all
      have "\<forall>u\<in>{u\<in>insert t A. in_sliding w t u}. sw_time u"
        using inv t(2) by (auto simp: sw_inv_def)
      from sw_count_bound [OF step(2) this]
      have "int (card {u\<in>insert t A. in_sliding w t u}) \<le> mx"
        using ok True rs by (simp add: reply2_def)
      with True step(1) k' show ?thesis by simp
    next
      case False
      have "sw_inv key w t A (keys r')"
        using eff pipe sw_inv_later [OF inv, of t] t(1) sw_inv_mono [OF step(1) subset_insertI] by auto
      with False show ?thesis by simp
    qed
  qed
  then show "sw_inv key w t (if ok then insert t A else A) (keys r')"
    and "ok \<Longrightarrow> int (card {u\<in>insert t A. in_sliding w t u}) \<le> mx" by auto
qed

lemma sw_run_bound:
  assumes "sw_inv key w prev A (keys r)" and "sorted_wrt (<) (prev # ts)"
    and "\<forall>t\<in>set ts. sw_time t" and "sw_window w"
    and "run_calls (sw_allow R key mx w) ts r = (oks, r')" and "t \<in> adm_times ts oks"
  shows "int (card {u \<in> A \<union> adm_times ts oks. u \<le> t \<and> in_sliding w t u}) \<le> mx"
  using assms
proof (induction ts arbitrary: prev A r oks)
  case Nil
  then show ?case by simp
next
  case (Cons t0 ts)
  obtain ok r1 where one: "sw_allow R key mx w t0 r = (ok, r1)" by force
  obtain oks2 where rest: "run_calls (sw_allow R key mx w) ts r1 = (oks2, r')" and oks: "oks = ok # oks2"
    using Cons.prems(5) one by (auto split: prod.splits)
  have t0: "prev < t0" "sw_time t0" using Cons.prems(2,3) by auto
  note st = sw_step [OF Cons.prems(1) t0 Cons.prems(4) one]
  let ?A1 = "if ok then insert t0 A else A"
  have all: "A \<union> adm_times (t0 # ts) oks = ?A1 \<union> adm_times ts oks2"
    using oks by (cases ok) auto
  show ?case
  proof (cases "t \<in> adm_times ts oks2")
    case True
    with Cons.IH [OF st(1) _ _ Cons.prems(4) rest] Cons.prems(2,3) show ?thesis
      unfolding all by simp
  next
    case False
    with Cons.prems(6) oks have t: "ok" "t = t0" by (cases ok; simp)+
    have "{u \<in> A \<union> adm_times (t0 # ts) oks. u \<le> t \<and> in_sliding w t u} =
      {u \<in> insert t0 A. in_sliding w t0 u}"
      unfolding all using t adm_times_subset [of ts oks2] Cons.prems(1,2)
      by (fastforce simp: sw_inv_def)
    with st(2) t show ?thesis by simp
  qed
qed

end

text \<open>A second call in the same nanosecond.\<close>

lemma sw_after_idem: "sw_after t w (sw_after t w z) = sw_after t w z"
  by (simp add: sw_after_def zadd_def) (rule filter_cong, auto)

context redis_client
begin

lemma sw_answer:
  assumes w: "sw_window w" and run: "SlidingWindowCounter_Allow R t key mx w r = ((ok, n, None), r')"
  obtains z d where "zset_at t (keys r) key = Some (z, d)" and "n = int (length (sw_after t w z))"
    and "ok \<longleftrightarrow> n \<le> mx"
    and "zset_at t (keys r') key =
      Some (sw_after t w z, Some (t + format_sec (i64 (w + second)) * second))"
proof -
  obtain rs where ex: "Exec R t (sw_pipe key t w) r = ((None, rs), r')"
    and n: "n = reply_val (reply2 rs)" "ok \<longleftrightarrow> n \<le> mx"
    using run by (auto simp: SlidingWindowCounter_Allow_def Let_def
        split: prod.splits option.splits if_splits)
  have "zset_at t (keys r) key \<noteq> None"
    using sw_pipe_wrong [of t "keys r" key w] exec_ok [OF ex] by (metis fst_conv)
  then obtain z d where z: "zset_at t (keys r) key = Some (z, d)" by (metis not_Some_eq surj_pair)
  obtain a b where pipe: "spec_cmds t (sw_pipe key t w) (keys r) =
      ([RepInt a, RepInt b, RepInt (int (length (sw_after t w z))), RepInt 1],
       (keys r)(key \<mapsto> (VZSet (sw_after t w z), Some (t + format_sec (i64 (w + second)) * second))))"
    using sw_pipe_effect [OF z w] .
  have "t \<le> t + format_sec (i64 (w + second)) * second"
    using sw_lifetime [OF w] w by (simp add: sw_window_def)
  with pipe exec_ok(1) [OF ex] n show ?thesis
    by (intro that [OF z]) (auto simp: reply2_def zset_at_def redis_simps zset_of_def
        dest!: sym [of _ "keys r'"])
qed

lemma sw_same_instant:
  assumes w: "sw_window w"
    and run1: "SlidingWindowCounter_Allow R t key mx w r = ((ok1, n1, None), r1)"
    and run2: "SlidingWindowCounter_Allow R t key mx w r1 = ((ok2, n2, None), r2)"
  shows "n2 = n1 \<and> ok2 = ok1"
  by (rule sw_answer [OF w run1], rule sw_answer [OF w run2]) (simp add: sw_after_idem)

end

subsection \<open>Properties\<close>

text \<open>C3. Over any Redis client, whether or not its calls fail, and for calls of one client at
  strictly increasing nanoseconds on a key not yet used: when a call is admitted, at most max admitted
  calls, itself included, lie in the window that ends with it, in milliseconds. Calls in the same
  nanosecond are outside: they share a member of the set (see below).\<close>

theorem sliding_window_admits_at_most:
  assumes "redis_client R keys" and "keys r key = None"
    and "sorted_wrt (<) ts" and "\<forall>t\<in>set ts. sw_time t" and "sw_window w"
    and "run_calls (sw_allow R key mx w) ts r = (oks, r')" and "t \<in> adm_times ts oks"
  shows "int (card {u \<in> adm_times ts oks. u \<le> t \<and> Time_UnixMilli (t - w) < Time_UnixMilli u}) \<le> mx"
proof -
  obtain t0 ts' where ts: "ts = t0 # ts'"
    using assms(7) by (cases ts) auto
  have "sw_inv key w (t0 - 1) {} (keys r)" by (simp add: sw_inv_def)
  moreover have "sorted_wrt (<) ((t0 - 1) # ts)" using assms(3) ts by force
  ultimately show ?thesis
    using redis_client.sw_run_bound [OF assms(1) _ _ assms(4-7)] unfolding in_sliding_def by force
qed

theorem sliding_window_admits_at_most_witness:
  "int (card {u \<in> adm_times [unix_epoch + 1, unix_epoch + 2000000]
      (fst (run_calls (sw_allow ref_client ''a'' 2 (60 * second))
        [unix_epoch + 1, unix_epoch + 2000000] new_redis)).
      u \<le> unix_epoch + 2000000 \<and>
      Time_UnixMilli (unix_epoch + 2000000 - 60 * second) < Time_UnixMilli u}) \<le> 2"
proof -
  let ?ts = "[unix_epoch + 1, unix_epoch + 2000000]"
  obtain oks r' where run: "run_calls (sw_allow ref_client ''a'' 2 (60 * second)) ?ts new_redis = (oks, r')"
    by force
  have "fst (run_calls (sw_allow ref_client ''a'' 2 (60 * second)) ?ts new_redis) = [True, True]"
    by code_simp
  then have "oks = [True, True]" by (simp only: run fst_conv)
  then have adm: "unix_epoch + 2000000 \<in> adm_times ?ts oks" by simp
  show ?thesis
    unfolding run fst_conv
    by (rule sliding_window_admits_at_most [OF ref.redis_client_axioms _ _ _ _ run adm])
      (simp_all add: sw_time_def sw_window_def unix_epoch_def new_redis_def)
qed

text \<open>Calls in the same nanosecond are one member of the set: however many of them there
  are, each is answered like the first.\<close>

theorem sliding_window_same_nanosecond:
  assumes "redis_client R keys" and "sw_window w"
    and "SlidingWindowCounter_Allow R t key mx w r = ((ok1, n1, None), r1)"
    and "SlidingWindowCounter_Allow R t key mx w r1 = ((ok2, n2, None), r2)"
  shows "n2 = n1 \<and> ok2 = ok1"
  using redis_client.sw_same_instant [OF assms] .

theorem sliding_window_same_nanosecond_witness:
  "\<exists>ok1 n1 r1 ok2 n2 r2.
     SlidingWindowCounter_Allow ref_client unix_epoch ''a'' 1 second new_redis = ((ok1, n1, None), r1) \<and>
     SlidingWindowCounter_Allow ref_client unix_epoch ''a'' 1 second r1 = ((ok2, n2, None), r2) \<and>
     n2 = n1 \<and> ok2 = ok1"
proof -
  obtain ok1 n1 e1 r1 where run1:
    "SlidingWindowCounter_Allow ref_client unix_epoch ''a'' 1 second new_redis = ((ok1, n1, e1), r1)"
    by (metis surj_pair)
  obtain ok2 n2 e2 r2 where run2:
    "SlidingWindowCounter_Allow ref_client unix_epoch ''a'' 1 second r1 = ((ok2, n2, e2), r2)"
    by (metis surj_pair)
  have "(case SlidingWindowCounter_Allow ref_client unix_epoch ''a'' 1 second new_redis of ((_, _, e), r) \<Rightarrow>
      (e, snd (snd (fst (SlidingWindowCounter_Allow ref_client unix_epoch ''a'' 1 second r))))) = (None, None)"
    by code_simp
  then have e: "e1 = None" "e2 = None" by (simp_all add: run1 run2)
  have "n2 = n1 \<and> ok2 = ok1"
    by (rule sliding_window_same_nanosecond [OF ref.redis_client_axioms _ run1 [unfolded e] run2 [unfolded e]])
      (simp add: sw_window_def)
  with run1 run2 e show ?thesis by blast
qed

end
