(* ===== verification/LeakyBucket.thy ===== *)
theory LeakyBucket
  imports Redis Limiter
begin

section \<open>LeakyBucketCounter\<close>

text \<open>
  \<open>src/leaky_bucket.go\<close>: a count and the time of the last admitted call per client, in two
  Redis keys, read in one transaction and written back in another. \<open>bucket_step\<close> is the abstract bucket: a level and a time, and the level drops
  by one for every full \<open>leakRate\<close> since that time. The code on a server that answers refines
  it, and what holds of the bucket is proved there once, for calls of a client of which each has
  written before the next one reads. Calls whose two transactions overlap are \<open>lb_interleave\<close>.
\<close>

record LeakyBucketCounter =
  lb_rate :: int
  lb_window :: duration
  lb_leakRate :: duration

text \<open>\<open>None\<close> is the division by zero that panics.\<close>

definition NewLeakyBucketCounter :: "int \<Rightarrow> duration \<Rightarrow> LeakyBucketCounter option" where
  "NewLeakyBucketCounter rate window =
     (if rate = 0 then None
      else Some \<lparr>lb_rate = rate, lb_window = window, lb_leakRate = i64 (window sdiv rate)\<rparr>)"

definition lb_bucketKey :: "string \<Rightarrow> string" where
  "lb_bucketKey key = ''leaky:'' @ key"

definition lb_lastKey :: "string \<Rightarrow> string" where
  "lb_lastKey key = ''leaky:'' @ key @ '':last''"

text \<open>The count after the leak; the division by \<open>leakRate\<close> is the caller's to guard.\<close>

definition lb_leak :: "LeakyBucketCounter \<Rightarrow> int \<Rightarrow> int \<Rightarrow> int \<Rightarrow> int" where
  "lb_leak l now lastLeak count =
     (let elapsed = i64 (now - lastLeak);
          leaked = i64 (elapsed sdiv lb_leakRate l);
          leaked = (if count < leaked then count else leaked);
          count = i64 (count - leaked)
      in if count < 0 then 0 else count)"

text \<open>\<open>Allow\<close> is two transactions: \<open>lb_read\<close> reads and computes the count (\<open>None\<close> is the division by
  zero), \<open>lb_finish\<close> decides and writes. Other clients of the server can come between the two.\<close>

definition lb_read ::
  "'r redis \<Rightarrow> LeakyBucketCounter \<Rightarrow> gotime \<Rightarrow> string \<Rightarrow> 'r \<Rightarrow> int option \<times> 'r" where
  "lb_read R l t key r =
     (let now = Time_UnixNano t
      in case Exec R t [GetKey (lb_bucketKey key), GetKey (lb_lastKey key)] r of ((_, rs), r1) \<Rightarrow>
           let count = (case reply_int (reply0 rs) of Inl _ \<Rightarrow> 0 | Inr n \<Rightarrow> n);
               lastLeak = (case reply_int (reply1 rs) of Inl _ \<Rightarrow> now | Inr n \<Rightarrow> n)
           in (if lb_leakRate l = 0 then None else Some (lb_leak l now lastLeak count), r1))"

definition lb_finish ::
  "'r redis \<Rightarrow> LeakyBucketCounter \<Rightarrow> int \<Rightarrow> int \<Rightarrow> gotime \<Rightarrow> string \<Rightarrow> 'r \<Rightarrow> (bool \<times> int \<times> err option) \<times> 'r" where
  "lb_finish R l now count t key r =
     (if lb_rate l \<le> count then ((False, 0, None), r)
      else let count = i64 (count + 1)
           in case Exec R t [SetKey (lb_bucketKey key) (VInt count) (lb_window l),
                             SetKey (lb_lastKey key) (VInt now) (lb_window l)] r of
                ((e, _), r1) \<Rightarrow>
                  (case e of
                     Some m \<Rightarrow> ((False, 0, Some (''leaky bucket pipeline exec: '' @ m)), r1)
                   | None \<Rightarrow> ((True, i64 (lb_rate l - count), None), r1)))"

definition LeakyBucketCounter_Allow ::
  "'r redis \<Rightarrow> LeakyBucketCounter \<Rightarrow> gotime \<Rightarrow> string \<Rightarrow> 'r \<Rightarrow>
   (bool \<times> int \<times> err option) option \<times> 'r" where
  "LeakyBucketCounter_Allow R l t key r =
     (case lb_read R l t key r of
        (None, r1) \<Rightarrow> (None, r1)
      | (Some count, r1) \<Rightarrow>
          (case lb_finish R l (Time_UnixNano t) count t key r1 of (res, r2) \<Rightarrow> (Some res, r2)))"

lemmas lb_code = LeakyBucketCounter_Allow_def lb_read_def lb_finish_def Let_def

subsection \<open>Calls of a client that overlap\<close>

text \<open>Call \<open>i\<close> reads at a time, or finishes at a time; in between it keeps its own time and count.\<close>

datatype lb_event = LBRead nat gotime | LBFinish nat gotime

fun lb_interleave ::
  "'r redis \<Rightarrow> LeakyBucketCounter \<Rightarrow> string \<Rightarrow> lb_event list \<Rightarrow> (nat \<rightharpoonup> int \<times> int) \<Rightarrow> 'r \<Rightarrow>
   (nat \<times> bool) list \<times> 'r" where
  "lb_interleave R l key [] p r = ([], r)"
| "lb_interleave R l key (LBRead i t # es) p r =
     (case lb_read R l t key r of
        (None, r1) \<Rightarrow> lb_interleave R l key es p r1
      | (Some count, r1) \<Rightarrow> lb_interleave R l key es (p(i \<mapsto> (Time_UnixNano t, count))) r1)"
| "lb_interleave R l key (LBFinish i t # es) p r =
     (case p i of
        None \<Rightarrow> lb_interleave R l key es p r
      | Some (now, count) \<Rightarrow>
          (case lb_finish R l now count t key r of
             ((ok, _), r1) \<Rightarrow>
               (case lb_interleave R l key es (p(i := None)) r1 of (vs, r2) \<Rightarrow> ((i, ok) # vs, r2))))"

subsection \<open>The abstract bucket\<close>

text \<open>\<open>Some (c, l)\<close>: level \<open>c\<close> when last filled, at \<open>l\<close>. A bucket not filled for the lifetime
  \<open>W\<close> of its keys is forgotten.\<close>

fun bucket_level :: "int \<Rightarrow> duration \<Rightarrow> gotime \<Rightarrow> (int \<times> gotime) option \<Rightarrow> int" where
  "bucket_level L W t None = 0"
| "bucket_level L W t (Some (c, l)) = (if l + W < t then 0 else max 0 (c - (t - l) div L))"

definition bucket_step ::
  "int \<Rightarrow> int \<Rightarrow> duration \<Rightarrow> gotime \<Rightarrow> (int \<times> gotime) option \<Rightarrow> bool \<times> (int \<times> gotime) option" where
  "bucket_step rate L W t b =
     (let c = bucket_level L W t b in if rate \<le> c then (False, b) else (True, Some (c + 1, t)))"

text \<open>What is admitted from \<open>t0\<close> on is bounded by the level plus what leaked.\<close>

definition bucket_inv :: "int \<Rightarrow> int \<Rightarrow> gotime \<Rightarrow> int \<Rightarrow> (int \<times> gotime) option \<Rightarrow> bool" where
  "bucket_inv rate L t0 a b \<longleftrightarrow>
     (case b of None \<Rightarrow> a \<le> 0
      | Some (c, l) \<Rightarrow> 0 \<le> c \<and> c \<le> rate \<and> t0 \<le> l \<and> a \<le> c + (l - t0) div L)"

lemma div_add_le:
  assumes "0 < L"
  shows "(x :: int) div L + y div L \<le> (x + y) div L"
proof -
  have "x div L * L \<le> x" "y div L * L \<le> y"
    using assms by (simp_all add: minus_mod_eq_div_mult [symmetric])
  then have "(x div L + y div L) * L \<le> x + y" by (simp add: distrib_right)
  from zdiv_mono1 [OF this assms] assms show ?thesis by simp
qed

lemma bucket_step_inv:
  assumes L: "0 < L" "rate * L \<le> W" and rate: "1 \<le> rate"
    and inv: "bucket_inv rate L t0 a b" and t: "t0 \<le> t" "\<forall>c l. b = Some (c, l) \<longrightarrow> l \<le> t"
    and step: "bucket_step rate L W t b = (ok, b')"
  shows "bucket_inv rate L t0 (if ok then a + 1 else a) b'"
proof (cases ok)
  case True
  let ?lev = "bucket_level L W t b"
  have b': "b' = Some (?lev + 1, t)" and lev: "?lev < rate"
    using step True by (auto simp: bucket_step_def Let_def split: if_splits)
  have lev0: "0 \<le> ?lev" by (cases b) auto
  have "a \<le> ?lev + (t - t0) div L"
  proof (cases b)
    case None
    have "0 \<le> (t - t0) div L" using t(1) L(1) by (simp add: pos_imp_zdiv_nonneg_iff)
    with None inv show ?thesis by (simp add: bucket_inv_def)
  next
    case (Some cl)
    obtain c l where b: "b = Some (c, l)" using Some by (cases cl) auto
    have a: "a \<le> c + (l - t0) div L" "c \<le> rate" "t0 \<le> l" using inv by (auto simp: bucket_inv_def b)
    have split: "(t - l) div L + (l - t0) div L \<le> (t - t0) div L"
      using div_add_le [OF L(1), of "t - l" "l - t0"] by simp
    have "rate \<le> (t - l) div L" if "l + W < t"
      using that L zdiv_mono1 [of "rate * L" "t - l" L] by simp
    then have "c - (t - l) div L \<le> ?lev" using a(2) by (auto simp: b)
    with a(1) split show ?thesis by linarith
  qed
  with b' lev lev0 True t(1) show ?thesis by (simp add: bucket_inv_def)
next
  case False
  with step inv show ?thesis by (auto simp: bucket_step_def Let_def split: if_splits)
qed

lemma bucket_run:
  assumes "0 < L" and "rate * L \<le> W" and "1 \<le> rate" and "bucket_inv rate L t0 a b"
    and "\<forall>c l. b = Some (c, l) \<longrightarrow> l \<le> hd (ts @ [t0])" and "sorted (t0 # ts)"
    and "run_calls (bucket_step rate L W) ts b = (oks, b')"
  shows "bucket_inv rate L t0 (a + int (admitted oks)) b' \<and>
    (\<forall>c l. b' = Some (c, l) \<longrightarrow> l \<le> last (hd (ts @ [t0]) # ts))"
  using assms
proof (induction ts arbitrary: a b oks)
  case (Cons t ts)
  obtain ok b1 where one: "bucket_step rate L W t b = (ok, b1)" by force
  obtain oks2 where rest: "run_calls (bucket_step rate L W) ts b1 = (oks2, b')"
    and oks: "oks = ok # oks2"
    using Cons.prems(7) one by (auto split: prod.splits)
  have inv1: "bucket_inv rate L t0 (if ok then a + 1 else a) b1"
    using bucket_step_inv [OF Cons.prems(1-4) _ _ one] Cons.prems(5,6) by simp
  have l1: "\<forall>c l. b1 = Some (c, l) \<longrightarrow> l \<le> t"
    using one Cons.prems(5) by (auto simp: bucket_step_def Let_def split: if_splits)
  show ?case
  proof (cases ts)
    case Nil
    with rest oks inv1 l1 show ?thesis by (cases ok) (auto simp: add.assoc)
  next
    case (Cons u us)
    have "\<forall>c l. b1 = Some (c, l) \<longrightarrow> l \<le> hd (ts @ [t0])"
      using l1 Cons Cons.prems(6) by fastforce
    from Cons.IH [OF Cons.prems(1-3) inv1 this _ rest] Cons.prems(6) Cons
    show ?thesis by (cases ok) (auto simp: oks algebra_simps)
  qed
qed simp

subsection \<open>The code refines the bucket\<close>

definition lb_allow :: "'r redis \<Rightarrow> LeakyBucketCounter \<Rightarrow> string \<Rightarrow> gotime \<Rightarrow> 'r \<Rightarrow> bool \<times> 'r" where
  "lb_allow R l key t r =
     (case LeakyBucketCounter_Allow R l t key r of
        (None, r') \<Rightarrow> (False, r')
      | (Some (ok, _, _), r') \<Rightarrow> (ok, r'))"

text \<open>Times whose \<open>UnixNano\<close> is in range, and counters that leak at whole-millisecond windows.\<close>

definition unix_time :: "gotime \<Rightarrow> bool" where
  "unix_time t \<longleftrightarrow> unix_epoch \<le> t \<and> t - unix_epoch \<le> max_i64"

definition lb_ok :: "LeakyBucketCounter \<Rightarrow> bool" where
  "lb_ok l \<longleftrightarrow> 1 \<le> lb_rate l \<and> lb_rate l \<le> max_i64 \<and> 0 < lb_leakRate l \<and>
     lb_rate l * lb_leakRate l \<le> lb_window l \<and> (\<exists>n>0. lb_window l = n * millisecond)"

definition lb_rel :: "LeakyBucketCounter \<Rightarrow> string \<Rightarrow> kv \<Rightarrow> (int \<times> gotime) option \<Rightarrow> bool" where
  "lb_rel l key m b \<longleftrightarrow>
     (case b of
        None \<Rightarrow> m (lb_bucketKey key) = None \<and> m (lb_lastKey key) = None
      | Some (c, u) \<Rightarrow> unix_time u \<and> 0 \<le> c \<and> c \<le> lb_rate l \<and>
          m (lb_bucketKey key) = Some (VInt c, Some (u + lb_window l)) \<and>
          m (lb_lastKey key) = Some (VInt (Time_UnixNano u), Some (u + lb_window l)))"

lemma lb_keys_neq [simp]: "lb_bucketKey key \<noteq> lb_lastKey key" "lb_lastKey key \<noteq> lb_bucketKey key"
  by (simp_all add: lb_bucketKey_def lb_lastKey_def)

lemma NewLeakyBucketCounter_ok:
  assumes "NewLeakyBucketCounter rate window = Some l" and "1 \<le> rate" and "rate \<le> window"
    and "window \<le> max_i64" and "window mod millisecond = 0"
  shows "lb_ok l" and "lb_rate l = rate" and "lb_window l = window" and "lb_leakRate l = window div rate"
proof -
  have "window div rate \<le> window" "0 \<le> window div rate"
    using assms by (simp_all add: int_div_le pos_imp_zdiv_nonneg_iff)
  then have leak: "i64 (window sdiv rate) = window div rate"
    using assms by (simp add: signed_divide_int_def i64_id)
  with assms show r: "lb_rate l = rate" and w: "lb_window l = window" and k: "lb_leakRate l = window div rate"
    by (auto simp: NewLeakyBucketCounter_def)
  have "0 < window div rate"
    using assms by (simp add: pos_imp_zdiv_pos_iff)
  moreover have "rate * (window div rate) \<le> window"
    using assms by (simp add: minus_mod_eq_mult_div [symmetric])
  moreover have "\<exists>n>0. window = n * millisecond"
    using assms by (intro exI [of _ "window div millisecond"]) (auto simp: minus_mod_eq_div_mult [symmetric])
  ultimately show "lb_ok l"
    using assms r w k by (simp add: lb_ok_def)
qed

lemma lb_leak_level:
  assumes "lb_ok l" and "0 \<le> c" and "c \<le> lb_rate l" and "u \<le> t" and "unix_time u" and "unix_time t"
  shows "lb_leak l (Time_UnixNano t) (Time_UnixNano u) c = max 0 (c - (t - u) div lb_leakRate l)"
proof -
  have el: "i64 (Time_UnixNano t - Time_UnixNano u) = t - u"
    using assms by (simp add: Time_UnixNano_def unix_time_def i64_id)
  let ?q = "(t - u) div lb_leakRate l"
  have q: "0 \<le> ?q" "?q \<le> t - u"
    using assms by (simp_all add: lb_ok_def pos_imp_zdiv_nonneg_iff int_div_le)
  have sd: "i64 ((t - u) sdiv lb_leakRate l) = ?q"
    using assms q by (simp add: sdiv_nonneg lb_ok_def unix_time_def i64_id)
  have "i64 (c - ?q) = c - ?q" if "?q \<le> c"
    using that assms q by (simp add: i64_id lb_ok_def)
  with assms q show ?thesis
    by (auto simp: lb_leak_def Let_def el sd)
qed

context reliable_redis
begin

lemma lb_read_level:
  assumes l: "lb_ok l" and t: "unix_time t" "\<forall>c u. b = Some (c, u) \<longrightarrow> u \<le> t"
    and rel: "lb_rel l key (keys r) b" and up: "up r" and run: "lb_read R l t key r = (res, r1)"
  shows "res = Some (bucket_level (lb_leakRate l) (lb_window l) t b) \<and> keys r1 = keys r \<and> up r1"
proof -
  let ?lev = "bucket_level (lb_leakRate l) (lb_window l) t b"
  obtain e rs where ex: "Exec R t [GetKey (lb_bucketKey key), GetKey (lb_lastKey key)] r = ((e, rs), r1)"
    using run by (auto simp: lb_read_def Let_def split: prod.splits)
  note one = exec_up [OF up ex]
  have keep: "keys r1 = keys r" "up r1" using one by (auto split: option.splits rval.splits prod.splits)
  let ?count = "case reply_int (reply0 rs) of Inl _ \<Rightarrow> 0 | Inr n \<Rightarrow> n"
  let ?last = "case reply_int (reply1 rs) of Inl _ \<Rightarrow> Time_UnixNano t | Inr n \<Rightarrow> n"
  have "lb_leak l (Time_UnixNano t) ?last ?count = ?lev"
  proof (cases b)
    case None
    then have "?count = 0" "?last = Time_UnixNano t"
      using rel one by (auto simp: lb_rel_def redis_simps kv_at_def)
    with None lb_leak_level [OF l _ _ order.refl t(1,1), of 0] l show ?thesis
      by (simp add: lb_ok_def)
  next
    case (Some cu)
    then obtain c u where b: "b = Some (c, u)" by (cases cu) auto
    have m: "keys r (lb_bucketKey key) = Some (VInt c, Some (u + lb_window l))"
      "keys r (lb_lastKey key) = Some (VInt (Time_UnixNano u), Some (u + lb_window l))"
      and c: "unix_time u" "0 \<le> c" "c \<le> lb_rate l"
      using rel by (auto simp: lb_rel_def b)
    show ?thesis
    proof (cases "u + lb_window l < t")
      case True
      then have "?count = 0" "?last = Time_UnixNano t"
        using m one by (auto simp: redis_simps kv_at_def)
      with True lb_leak_level [OF l _ _ order.refl t(1,1), of 0] l show ?thesis
        by (simp add: lb_ok_def b)
    next
      case False
      then have "?count = c" "?last = Time_UnixNano u"
        using m one by (auto simp: redis_simps kv_at_def)
      with False lb_leak_level [OF l c(2,3) _ c(1) t(1)] t(2) show ?thesis
        by (simp add: b)
    qed
  qed
  moreover have "lb_leakRate l \<noteq> 0" using l by (simp add: lb_ok_def)
  ultimately show ?thesis using run keep by (simp add: lb_read_def Let_def ex)
qed

lemma lb_finish_level:
  assumes l: "lb_ok l" and t: "unix_time t" and lev: "0 \<le> lev" "lev < lb_rate l" and up: "up r"
    and run: "lb_finish R l (Time_UnixNano t) lev t key r = (res, r1)"
  shows "res = (True, lb_rate l - (lev + 1), None) \<and> lb_rel l key (keys r1) (Some (lev + 1, t)) \<and> up r1"
proof -
  have small: "i64 (lev + 1) = lev + 1" "i64 (lb_rate l - (lev + 1)) = lb_rate l - (lev + 1)"
    using lev l by (simp_all add: i64_id lb_ok_def)
  have life: "set_lifetime (lb_window l) = lb_window l" "0 < lb_window l"
    using l set_lifetime_whole_ms by (auto simp: lb_ok_def)
  obtain e rs r2 where ex: "Exec R t [SetKey (lb_bucketKey key) (VInt (lev + 1)) (lb_window l),
      SetKey (lb_lastKey key) (VInt (Time_UnixNano t)) (lb_window l)] r = ((e, rs), r2)"
    by (metis surj_pair)
  note two = exec_up [OF up ex]
  have "e = None" using two by simp
  then have "res = (True, lb_rate l - (lev + 1), None)" "r1 = r2"
    using run lev by (simp_all add: lb_finish_def Let_def small ex)
  then show ?thesis using two lev t life by (simp add: lb_rel_def)
qed

lemma lb_refines:
  assumes l: "lb_ok l" and t: "unix_time t" "\<forall>c u. b = Some (c, u) \<longrightarrow> u \<le> t"
    and rel: "lb_rel l key (keys r) b" and up: "up r"
    and run: "LeakyBucketCounter_Allow R l t key r = (res, r')"
    and step: "bucket_step (lb_rate l) (lb_leakRate l) (lb_window l) t b = (ok, b')"
  shows "lb_rel l key (keys r') b' \<and> up r' \<and>
    res = Some (ok, if ok then lb_rate l - fst (the b') else 0, None)"
proof -
  let ?lev = "bucket_level (lb_leakRate l) (lb_window l) t b"
  obtain c r1 where one: "lb_read R l t key r = (c, r1)" by force
  obtain res2 r2 where two: "lb_finish R l (Time_UnixNano t) ?lev t key r1 = (res2, r2)"
    by (metis surj_pair)
  note rd = lb_read_level [OF l t rel up one]
  have lev0: "0 \<le> ?lev" by (cases b) auto
  have r': "r' = r2" "res = Some res2" using run rd two by (simp_all add: LeakyBucketCounter_Allow_def one)
  show ?thesis
  proof (cases "lb_rate l \<le> ?lev")
    case True
    with two have "res2 = (False, 0, None)" "r2 = r1" by (simp_all add: lb_finish_def)
    with True step rel rd r' show ?thesis by (auto simp: bucket_step_def Let_def)
  next
    case False
    with lb_finish_level [OF l t(1) lev0 _ _ two] rd step r' show ?thesis
      by (auto simp: bucket_step_def Let_def)
  qed
qed

lemma lb_run_refines:
  assumes "lb_ok l" and "\<forall>t\<in>List.set ts. unix_time t" and "sorted ts"
    and "lb_rel l key (keys r) b" and "up r" and "\<forall>c u t. b = Some (c, u) \<longrightarrow> t \<in> List.set ts \<longrightarrow> u \<le> t"
    and "run_calls (lb_allow R l key) ts r = (oks, r')"
  shows "\<exists>b'. run_calls (bucket_step (lb_rate l) (lb_leakRate l) (lb_window l)) ts b = (oks, b')"
  using assms
proof (induction ts arbitrary: r b oks)
  case (Cons t ts)
  obtain res r1 where one: "LeakyBucketCounter_Allow R l t key r = (res, r1)" by force
  obtain ok b1 where step: "bucket_step (lb_rate l) (lb_leakRate l) (lb_window l) t b = (ok, b1)" by force
  have ref: "lb_rel l key (keys r1) b1" "up r1" "lb_allow R l key t r = (ok, r1)"
    using lb_refines [OF Cons.prems(1) _ _ Cons.prems(4,5) one step] Cons.prems(2,6)
    by (auto simp: lb_allow_def one)
  obtain oks2 where rest: "run_calls (lb_allow R l key) ts r1 = (oks2, r')" "oks = ok # oks2"
    using Cons.prems(7) ref(3) by (auto split: prod.splits)
  have "\<forall>c u t'. b1 = Some (c, u) \<longrightarrow> t' \<in> List.set ts \<longrightarrow> u \<le> t'"
    using step Cons.prems(3,6) by (auto simp: bucket_step_def Let_def split: if_splits)
  then obtain b' where "run_calls (bucket_step (lb_rate l) (lb_leakRate l) (lb_window l)) ts b1 = (oks2, b')"
    using Cons.IH [OF Cons.prems(1) _ _ ref(1,2) _ rest(1)] Cons.prems(2,3) by auto
  with step rest(2) show ?case by simp
qed simp

lemma lb_bound:
  assumes "lb_ok l" and "\<forall>t\<in>List.set (t1 # ts). unix_time t" and "sorted (t1 # ts)"
    and "lb_rel l key (keys r) None" and "up r"
    and run: "run_calls (lb_allow R l key) (t1 # ts) r = (oks, r')"
  shows "oks = fst (run_calls (bucket_step (lb_rate l) (lb_leakRate l) (lb_window l)) (t1 # ts) None) \<and>
    int (admitted oks) \<le> lb_rate l + (last (t1 # ts) - t1) div lb_leakRate l"
proof -
  obtain b' where b': "run_calls (bucket_step (lb_rate l) (lb_leakRate l) (lb_window l)) (t1 # ts) None = (oks, b')"
    using lb_run_refines [OF assms(1-5) _ run] by auto
  have "bucket_inv (lb_rate l) (lb_leakRate l) t1 (0 + int (admitted oks)) b' \<and>
      (\<forall>c u. b' = Some (c, u) \<longrightarrow> u \<le> last (hd ((t1 # ts) @ [t1]) # t1 # ts))"
    using assms(1,3) by (intro bucket_run [OF _ _ _ _ _ _ b']) (auto simp: lb_ok_def bucket_inv_def)
  then have inv: "bucket_inv (lb_rate l) (lb_leakRate l) t1 (int (admitted oks)) b'"
    and u: "\<forall>c u. b' = Some (c, u) \<longrightarrow> u \<le> last (t1 # ts)"
    by simp_all
  have L: "0 < lb_leakRate l" "1 \<le> lb_rate l" using assms(1) by (simp_all add: lb_ok_def)
  have le: "t1 \<le> last (t1 # ts)"
    using assms(3) by (cases ts) (auto dest: last_in_set)
  have "int (admitted oks) \<le> lb_rate l + (last (t1 # ts) - t1) div lb_leakRate l"
  proof (cases b')
    case None
    have "0 \<le> (last (t1 # ts) - t1) div lb_leakRate l"
      using le L by (simp add: pos_imp_zdiv_nonneg_iff)
    with None inv L show ?thesis by (simp add: bucket_inv_def)
  next
    case (Some cu)
    then obtain c u where b: "b' = Some (c, u)" by (cases cu) auto
    then have "(u - t1) div lb_leakRate l \<le> (last (t1 # ts) - t1) div lb_leakRate l"
      using u L by (intro zdiv_mono1) auto
    with b inv show ?thesis by (auto simp: bucket_inv_def)
  qed
  with b' show ?thesis by (simp del: run_calls.simps)
qed

lemma lb_readmits:
  assumes l: "lb_ok l" and t: "unix_time t" "u + lb_leakRate l \<le> t"
    and rel: "lb_rel l key (keys r) (Some (c, u))" and up: "up r"
  shows "fst (lb_allow R l key t r)"
proof -
  obtain res r' where run: "LeakyBucketCounter_Allow R l t key r = (res, r')" by force
  obtain ok b' where step: "bucket_step (lb_rate l) (lb_leakRate l) (lb_window l) t (Some (c, u)) = (ok, b')"
    by force
  have L: "0 < lb_leakRate l" "1 \<le> lb_rate l" using l by (simp_all add: lb_ok_def)
  have "1 \<le> (t - u) div lb_leakRate l"
    using t(2) L zdiv_mono1 [of "lb_leakRate l" "t - u" "lb_leakRate l"] by simp
  moreover have "c \<le> lb_rate l" "u \<le> t" using rel t(2) L by (auto simp: lb_rel_def)
  ultimately have "ok" using step L by (auto simp: bucket_step_def Let_def split: if_splits)
  with lb_refines [OF l t(1) _ rel up run step] \<open>u \<le> t\<close> run show ?thesis
    by (simp add: lb_allow_def)
qed

text \<open>Calls that overlap: those that read the same level all finish alike.\<close>

lemma lb_reads:
  assumes l: "lb_ok l" and t: "unix_time t" "\<forall>c u. b = Some (c, u) \<longrightarrow> u \<le> t"
    and rel: "lb_rel l key (keys r) b" and up: "up r"
  shows "\<exists>r1. lb_rel l key (keys r1) b \<and> up r1 \<and>
    lb_interleave R l key (map (\<lambda>i. LBRead i t) is @ es) p r =
    lb_interleave R l key es (\<lambda>i. if i \<in> List.set is
      then Some (Time_UnixNano t, bucket_level (lb_leakRate l) (lb_window l) t b) else p i) r1"
  using rel up
proof (induction "is" arbitrary: p r)
  case (Cons i "is")
  obtain res r1 where one: "lb_read R l t key r = (res, r1)" by force
  note rd = lb_read_level [OF l t Cons.prems one]
  let ?v = "(Time_UnixNano t, bucket_level (lb_leakRate l) (lb_window l) t b)"
  have "(\<lambda>j. if j \<in> List.set is then Some ?v else (p(i \<mapsto> ?v)) j) =
      (\<lambda>j. if j \<in> List.set (i # is) then Some ?v else p j)"
    by (rule ext) simp
  with Cons.IH [of r1 "p(i \<mapsto> ?v)"] rd Cons.prems one show ?case
    by (simp only: list.map append_Cons lb_interleave.simps prod.case option.case simp_thms)
qed auto

lemma lb_finishes:
  assumes l: "lb_ok l" and t: "unix_time t" and lev: "0 \<le> lev" "lev < lb_rate l" and up: "up r"
    and pend: "\<forall>i\<in>List.set is. p i = Some (Time_UnixNano t, lev)" and dist: "distinct is"
    and run: "lb_interleave R l key (map (\<lambda>i. LBFinish i t) is) p r = (vs, r')"
  shows "vs = map (\<lambda>i. (i, True)) is \<and> (is \<noteq> [] \<longrightarrow> lb_rel l key (keys r') (Some (lev + 1, t)))"
  using up pend dist run
proof (induction "is" arbitrary: p r vs)
  case (Cons i "is")
  obtain res r1 where one: "lb_finish R l (Time_UnixNano t) lev t key r = (res, r1)"
    by (metis surj_pair)
  note fin = lb_finish_level [OF l t lev Cons.prems(1) one]
  obtain vs2 where rest: "lb_interleave R l key (map (\<lambda>i. LBFinish i t) is) (p(i := None)) r1 = (vs2, r')"
    and vs: "vs = (i, True) # vs2"
    using Cons.prems(2,4) fin one by (auto split: prod.splits)
  have "\<forall>j\<in>List.set is. (p(i := None)) j = Some (Time_UnixNano t, lev)" using Cons.prems(2,3) by auto
  from Cons.IH [OF _ this _ rest] fin Cons.prems(3) rest show ?case by (cases "is") (auto simp: vs)
qed simp

text \<open>Without overlap, the steps are the calls of \<open>lb_allow\<close>.\<close>

lemma lb_serial:
  assumes "lb_leakRate l \<noteq> 0" and "run_calls (lb_allow R l key) ts r = (oks, r')"
  shows "lb_interleave R l key (concat (map (\<lambda>t. [LBRead 0 t, LBFinish 0 t]) ts)) p r = (map (Pair 0) oks, r')"
  using assms(2)
proof (induction ts arbitrary: p r oks)
  case (Cons t ts)
  obtain c r1 where one: "lb_read R l t key r = (Some c, r1)"
    using assms(1) by (cases "lb_read R l t key r") (auto simp: lb_read_def Let_def split: prod.splits)
  obtain ok x r2 where two: "lb_finish R l (Time_UnixNano t) c t key r1 = ((ok, x), r2)" by (metis surj_pair)
  have call: "lb_allow R l key t r = (ok, r2)"
    by (cases x) (simp add: lb_allow_def LeakyBucketCounter_Allow_def one two)
  then obtain oks2 where rest: "run_calls (lb_allow R l key) ts r2 = (oks2, r')" "oks = ok # oks2"
    using Cons.prems by (auto split: prod.splits)
  from Cons.IH [OF rest(1)] show ?case by (simp add: one two rest(2))
qed simp

text \<open>The time key of one client is the count key of another.\<close>

lemma lb_collision:
  assumes l: "lb_ok l" and t: "unix_time t" "lb_rate l \<le> Time_UnixNano t" "t \<le> t'" "t' \<le> t + lb_window l"
    and fresh: "lb_rel l key (keys r) None" "keys r (lb_lastKey (key @ '':last'')) = None"
    and t': "unix_time t'" and up: "up r"
    and run: "lb_allow R l key t r = (ok, r1)"
  shows "fst (lb_allow R l (key @ '':last'') t' r1) = False"
proof -
  obtain res where one: "LeakyBucketCounter_Allow R l t key r = (res, r1)"
    using run by (auto simp: lb_allow_def split: prod.splits option.splits)
  have step: "bucket_step (lb_rate l) (lb_leakRate l) (lb_window l) t None = (True, Some (1, t))"
    using l by (simp add: bucket_step_def lb_ok_def)
  have r1: "lb_rel l key (keys r1) (Some (1, t))" "up r1"
    using lb_refines [OF l t(1) _ fresh(1) up one step] by simp_all
  have same: "lb_bucketKey (key @ '':last'') = lb_lastKey key"
    by (simp add: lb_bucketKey_def lb_lastKey_def)
  have other: "keys r1 (lb_lastKey (key @ '':last'')) = None"
  proof -
    obtain e rs r0 where ex: "Exec R t [GetKey (lb_bucketKey key), GetKey (lb_lastKey key)] r = ((e, rs), r0)"
      by (metis surj_pair)
    have frame: "keys r1 k = keys r k" if "k \<noteq> lb_bucketKey key" "k \<noteq> lb_lastKey key" for k
    proof -
      have r0: "keys r0 k = keys r k"
        using that by (intro exec_frame [OF ex]) simp
      have wr: "keys rX k = keys r0 k"
        if "Exec R t [SetKey (lb_bucketKey key) v w, SetKey (lb_lastKey key) v' w] r0 = (er, rX)"
        for v v' w er rX
        using \<open>k \<noteq> lb_bucketKey key\<close> \<open>k \<noteq> lb_lastKey key\<close> by (intro exec_frame [OF that]) simp
      have "keys r1 k = keys r0 k"
        using one
        by (auto simp: lb_code ex
            split: if_splits prod.splits option.splits dest: wr)
      with r0 show ?thesis by simp
    qed
    show ?thesis
      using fresh(2) by (subst frame) (simp_all add: lb_bucketKey_def lb_lastKey_def)
  qed
  obtain e rs r2 where ex: "Exec R t' [GetKey (lb_bucketKey (key @ '':last'')),
      GetKey (lb_lastKey (key @ '':last''))] r1 = ((e, rs), r2)"
    by (metis surj_pair)
  have rs: "reply_int (reply0 rs) = Inr (Time_UnixNano t)" "reply_int (reply1 rs) = Inl redis_Nil"
    using exec_up [OF r1(2) ex] r1(1) t other
    by (simp_all add: lb_rel_def same redis_simps kv_at_def)
  have L: "0 < lb_leakRate l" "1 \<le> lb_rate l" "0 \<le> Time_UnixNano t" "Time_UnixNano t \<le> max_i64"
    using l t(1,2) by (auto simp: lb_ok_def unix_time_def Time_UnixNano_def i64_id)
  have "lb_leak l (Time_UnixNano t') (Time_UnixNano t') (Time_UnixNano t) = Time_UnixNano t"
    using L by (simp add: lb_leak_def Let_def signed_divide_int_def i64_id)
  with rs t(2) L show ?thesis
    by (simp add: lb_allow_def lb_code ex)
qed

end

context redis_client
begin

lemma lb_read_error:
  assumes l: "lb_ok l"
    and live: "kv_at t (keys r) (lb_bucketKey key) = Some (VInt n, d)"
      "kv_at t (keys r) (lb_lastKey key) = Some (VInt m, d')"
    and ex: "Exec R t [GetKey (lb_bucketKey key), GetKey (lb_lastKey key)] r = ((Some e, rs), r1)"
    and ex2: "Exec R t [SetKey (lb_bucketKey key) (VInt 1) (lb_window l),
        SetKey (lb_lastKey key) (VInt (Time_UnixNano t)) (lb_window l)] r1 = ((None, rs2), r2)"
  shows "LeakyBucketCounter_Allow R l t key r = (Some (True, lb_rate l - 1, None), r2)"
    and "keys r2 (lb_bucketKey key) = Some (VInt 1, Some (t + lb_window l))"
proof -
  have bad: "length rs = 2" "\<forall>x\<in>List.set rs. \<exists>m. x = RepErr m"
    using exec_law [OF ex] live by (auto simp: redis_simps)
  then have "\<exists>m. reply0 rs = RepErr m" "\<exists>m. reply1 rs = RepErr m"
    by (auto simp: numeral_2_eq_2 length_Suc_conv reply0_def reply1_def)
  then have z: "lb_leak l (Time_UnixNano t)
      (case reply_int (reply1 rs) of Inl _ \<Rightarrow> Time_UnixNano t | Inr n \<Rightarrow> n)
      (case reply_int (reply0 rs) of Inl _ \<Rightarrow> 0 | Inr n \<Rightarrow> n) = 0"
    by (auto simp: lb_leak_def Let_def signed_divide_int_def)
  have k: "lb_leakRate l \<noteq> 0" "\<not> lb_rate l \<le> 0" "i64 (lb_rate l - 1) = lb_rate l - 1"
    using l by (simp_all add: lb_ok_def i64_id)
  show "LeakyBucketCounter_Allow R l t key r = (Some (True, lb_rate l - 1, None), r2)"
    using k by (simp add: lb_code ex z ex2)
  have "set_lifetime (lb_window l) = lb_window l" "0 < lb_window l"
    using l set_lifetime_whole_ms by (auto simp: lb_ok_def)
  with exec_ok(1) [OF ex2]
  have "(keys r1)(lb_bucketKey key \<mapsto> (VInt 1, Some (t + lb_window l)),
      lb_lastKey key \<mapsto> (VInt (Time_UnixNano t), Some (t + lb_window l))) = keys r2"
    by simp
  then show "keys r2 (lb_bucketKey key) = Some (VInt 1, Some (t + lb_window l))"
    by (metis fun_upd_apply lb_keys_neq(1))
qed

end

subsection \<open>Properties\<close>

text \<open>C11. A leaky bucket with a window of whole milliseconds and a rate from 1 to the window in
  nanoseconds, over a Redis that answers, from a bucket not yet used: when the calls of a client come in
  the order of their times, at Unix nanoseconds that an int64 holds, each writing before the next one
  reads, their verdicts are those of the abstract bucket, which leaks by one for every full leak
  interval since the last admitted call, and at most the rate plus one call per full leak interval since
  the first call is admitted.\<close>

theorem leaky_bucket_admits_at_most:
  assumes "reliable_redis R keys up" and new: "NewLeakyBucketCounter rate window = Some l"
    and "1 \<le> rate" and "rate \<le> window" and "window \<le> max_i64" and "window mod millisecond = 0"
    and "\<forall>t\<in>List.set (t1 # ts). unix_time t" and "sorted (t1 # ts)"
    and "keys r (lb_bucketKey key) = None" and "keys r (lb_lastKey key) = None" and "up r"
    and "run_calls (lb_allow R l key) (t1 # ts) r = (oks, r')"
  shows "oks = fst (run_calls (bucket_step rate (window div rate) window) (t1 # ts) None) \<and>
    int (admitted oks) \<le> rate + (last (t1 # ts) - t1) div (window div rate)"
proof -
  have "lb_rel l key (keys r) None" using assms(9,10) by (simp add: lb_rel_def)
  from reliable_redis.lb_bound [OF assms(1) NewLeakyBucketCounter_ok(1) [OF assms(2-6)] assms(7,8) this assms(11,12)]
  show ?thesis unfolding NewLeakyBucketCounter_ok(2,3,4) [OF assms(2-6)] .
qed

text \<open>Two calls a second: two are admitted at once, the third is not, and after 600 milliseconds one
  more is.\<close>

theorem leaky_bucket_admits_at_most_witness:
  "fst (run_calls (lb_allow ref_client \<lparr>lb_rate = 2, lb_window = second, lb_leakRate = 500 * millisecond\<rparr> ''a'')
      [unix_epoch, unix_epoch + 1, unix_epoch + 2, unix_epoch + 600 * millisecond] new_redis) =
    [True, True, False, True]"
proof -
  let ?l = "\<lparr>lb_rate = 2, lb_window = second, lb_leakRate = 500 * millisecond\<rparr>"
  let ?ts = "[unix_epoch, unix_epoch + 1, unix_epoch + 2, unix_epoch + 600 * millisecond]"
  obtain oks r' where run: "run_calls (lb_allow ref_client ?l ''a'') ?ts new_redis = (oks, r')" by force
  have "oks = fst (run_calls (bucket_step 2 (second div 2) second) ?ts None) \<and>
      int (admitted oks) \<le> 2 + (last ?ts - unix_epoch) div (second div 2)"
    by (rule leaky_bucket_admits_at_most [OF ref_up.reliable_redis_axioms _ _ _ _ _ _ _ _ _ _ run])
      (simp_all add: NewLeakyBucketCounter_def signed_divide_int_def i64_id unix_time_def
        new_redis_def)
  then have "oks = [True, True, False, True]" by (simp add: bucket_step_def)
  then show ?thesis unfolding run by simp
qed

text \<open>The bound is one for calls that do not overlap: any number of calls of a client that all read
  before the first of them writes are all admitted, whatever the rate, and are counted as one.\<close>

theorem leaky_bucket_race:
  assumes "reliable_redis R keys up" and "lb_ok l" and "unix_time t" and "\<forall>c u. b = Some (c, u) \<longrightarrow> u \<le> t"
    and "lb_rel l key (keys r) b" and "up r" and "0 < n"
    and "bucket_level (lb_leakRate l) (lb_window l) t b < lb_rate l"
    and "lb_interleave R l key (map (\<lambda>i. LBRead i t) [0..<n] @ map (\<lambda>i. LBFinish i t) [0..<n]) Map.empty r = (vs, r')"
  shows "vs = map (\<lambda>i. (i, True)) [0..<n] \<and>
    lb_rel l key (keys r') (Some (bucket_level (lb_leakRate l) (lb_window l) t b + 1, t))"
proof -
  let ?lev = "bucket_level (lb_leakRate l) (lb_window l) t b"
  have lev: "0 \<le> ?lev" by (cases b) auto
  obtain r1 where r1: "up r1" and run: "lb_interleave R l key (map (\<lambda>i. LBFinish i t) [0..<n])
      (\<lambda>i. if i \<in> List.set [0..<n] then Some (Time_UnixNano t, ?lev) else None) r1 = (vs, r')"
    using reliable_redis.lb_reads [OF assms(1-6), of "[0..<n]" "map (\<lambda>i. LBFinish i t) [0..<n]" Map.empty]
      assms(9) by auto
  show ?thesis
    using reliable_redis.lb_finishes [OF assms(1-3) lev assms(8) r1 _ _ run] assms(7) by simp
qed

text \<open>Five calls at once on an unused bucket of rate 2.\<close>

theorem leaky_bucket_race_witness:
  "fst (lb_interleave ref_client \<lparr>lb_rate = 2, lb_window = second, lb_leakRate = 500 * millisecond\<rparr> ''a''
      (map (\<lambda>i. LBRead i unix_epoch) [0..<5] @ map (\<lambda>i. LBFinish i unix_epoch) [0..<5]) Map.empty new_redis) =
    [(0, True), (1, True), (2, True), (3, True), (4, True)]"
proof -
  let ?l = "\<lparr>lb_rate = 2, lb_window = second, lb_leakRate = 500 * millisecond\<rparr>"
  have "\<exists>n>0. second = n * millisecond" by (rule exI [of _ 1000]) simp
  then have l: "lb_ok ?l" by (simp add: lb_ok_def)
  obtain vs r' where run: "lb_interleave ref_client ?l ''a''
      (map (\<lambda>i. LBRead i unix_epoch) [0..<5] @ map (\<lambda>i. LBFinish i unix_epoch) [0..<5]) Map.empty new_redis = (vs, r')"
    by force
  have "vs = map (\<lambda>i. (i, True)) [0..<5]"
    using leaky_bucket_race [OF ref_up.reliable_redis_axioms l _ _ _ _ _ _ run, of None]
    by (simp add: unix_time_def lb_rel_def new_redis_def)
  then show ?thesis unfolding run by (simp add: upt_rec)
qed

text \<open>A client whose last admitted call is at least one leak interval ago is admitted.\<close>

theorem leaky_bucket_readmits:
  assumes "reliable_redis R keys up" and "lb_ok l" and "unix_time t" and "u + lb_leakRate l \<le> t"
    and "lb_rel l key (keys r) (Some (c, u))" and "up r"
  shows "fst (lb_allow R l key t r)"
  using reliable_redis.lb_readmits [OF assms] .

theorem leaky_bucket_readmits_witness:
  "fst (lb_allow ref_client \<lparr>lb_rate = 1, lb_window = second, lb_leakRate = second\<rparr> ''a''
     (unix_epoch + second)
     \<lparr>rKeys = [''leaky:a'' \<mapsto> (VInt 1, Some (unix_epoch + second)),
               ''leaky:a:last'' \<mapsto> (VInt 0, Some (unix_epoch + second))], rDown = False\<rparr>)"
  by (rule leaky_bucket_readmits [OF ref_up.reliable_redis_axioms, where c = 1 and u = unix_epoch])
    (auto simp: lb_ok_def unix_time_def lb_rel_def lb_bucketKey_def lb_lastKey_def Time_UnixNano_def
      intro: exI [of _ 1000])

text \<open>When the call that reads a used bucket fails and the one that writes it back does not,
  the call is admitted whatever the level was, and the bucket is left as after a first call.\<close>

theorem leaky_bucket_read_error_refills:
  assumes "redis_client R keys" and "lb_ok l"
    and "kv_at t (keys r) (lb_bucketKey key) = Some (VInt n, d)"
    and "kv_at t (keys r) (lb_lastKey key) = Some (VInt m, d')"
    and "Exec R t [GetKey (lb_bucketKey key), GetKey (lb_lastKey key)] r = ((Some e, rs), r1)"
    and "Exec R t [SetKey (lb_bucketKey key) (VInt 1) (lb_window l),
        SetKey (lb_lastKey key) (VInt (Time_UnixNano t)) (lb_window l)] r1 = ((None, rs2), r2)"
  shows "LeakyBucketCounter_Allow R l t key r = (Some (True, lb_rate l - 1, None), r2) \<and>
    keys r2 (lb_bucketKey key) = Some (VInt 1, Some (t + lb_window l))"
  using redis_client.lb_read_error [OF assms] by blast

theorem leaky_bucket_read_error_refills_witness:
  "fst (LeakyBucketCounter_Allow flaky_client \<lparr>lb_rate = 3, lb_window = second, lb_leakRate = 333333333\<rparr>
      unix_epoch ''a''
      ([True], [''leaky:a'' \<mapsto> (VInt 3, Some (unix_epoch + second)),
                ''leaky:a:last'' \<mapsto> (VInt 0, Some (unix_epoch + second))])) =
    Some (True, 2, None)"
proof -
  let ?l = "\<lparr>lb_rate = 3, lb_window = second, lb_leakRate = 333333333\<rparr>"
  let ?m = "[''leaky:a'' \<mapsto> (VInt 3, Some (unix_epoch + second)),
             ''leaky:a:last'' \<mapsto> (VInt 0, Some (unix_epoch + second))]"
  have "\<exists>n>0. second = n * millisecond" by (rule exI [of _ 1000]) simp
  then have ok: "lb_ok ?l" by (simp add: lb_ok_def)
  have read: "Exec flaky_client unix_epoch [GetKey (lb_bucketKey ''a''), GetKey (lb_lastKey ''a'')]
      ([True], ?m) = ((Some conn_refused, [RepErr conn_refused, RepErr conn_refused]), ([], ?m))"
    by (simp add: flaky_client_def)
  obtain rs2 r2 where wr: "Exec flaky_client unix_epoch
      [SetKey (lb_bucketKey ''a'') (VInt 1) (lb_window ?l),
       SetKey (lb_lastKey ''a'') (VInt (Time_UnixNano unix_epoch)) (lb_window ?l)] ([], ?m) =
      ((None, rs2), r2)"
    by (simp add: flaky_client_def)
  have alive: "kv_at unix_epoch (snd ([True], ?m)) (lb_bucketKey ''a'') = Some (VInt 3, Some (unix_epoch + second))"
    "kv_at unix_epoch (snd ([True], ?m)) (lb_lastKey ''a'') = Some (VInt 0, Some (unix_epoch + second))"
    by (simp_all add: kv_at_def kv_alive_def lb_bucketKey_def lb_lastKey_def)
  from leaky_bucket_read_error_refills [OF flaky.redis_client_axioms ok alive read wr]
  show ?thesis by simp
qed

text \<open>The keys of clients clash: once a client has been admitted, the client of the same name
  with ":last" appended is refused on its first call, for it reads the time of that call as
  its count.\<close>

theorem leaky_bucket_key_collision:
  assumes "reliable_redis R keys up" and "lb_ok l" and "unix_time t"
    and "lb_rate l \<le> Time_UnixNano t" and "t \<le> t'" and "t' \<le> t + lb_window l"
    and "lb_rel l key (keys r) None" and "keys r (lb_lastKey (key @ '':last'')) = None"
    and "unix_time t'" and "up r" and "lb_allow R l key t r = (ok, r1)"
  shows "fst (lb_allow R l (key @ '':last'') t' r1) = False"
  using reliable_redis.lb_collision [OF assms] .

theorem leaky_bucket_key_collision_witness:
  "fst (lb_allow ref_client \<lparr>lb_rate = 9, lb_window = 9 * second, lb_leakRate = second\<rparr> ''a:last''
      (unix_epoch + second)
      (snd (lb_allow ref_client \<lparr>lb_rate = 9, lb_window = 9 * second, lb_leakRate = second\<rparr> ''a''
        (unix_epoch + second) new_redis))) = False"
proof -
  let ?l = "\<lparr>lb_rate = 9, lb_window = 9 * second, lb_leakRate = second\<rparr>"
  obtain ok r1 where run: "lb_allow ref_client ?l ''a'' (unix_epoch + second) new_redis = (ok, r1)"
    by force
  have "\<exists>n>0. 9 * second = n * millisecond" by (rule exI [of _ 9000]) simp
  then have "lb_ok ?l" by (simp add: lb_ok_def)
  from leaky_bucket_key_collision [OF ref_up.reliable_redis_axioms this _ _ _ _ _ _ _ _ run,
      of "unix_epoch + second"]
  have "fst (lb_allow ref_client ?l (''a'' @ '':last'') (unix_epoch + second) r1) = False"
    by (simp add: unix_time_def lb_rel_def new_redis_def Time_UnixNano_def i64_id)
  with run show ?thesis by simp
qed

text \<open>A rate of zero panics in the constructor, and a window shorter than the rate in
  nanoseconds gives a leak interval of zero, so that every call panics.\<close>

lemma leaky_bucket_zero_interval_panics:
  assumes "0 \<le> window" and "0 \<le> rate" and "window < rate"
    and "NewLeakyBucketCounter rate window = Some l"
  shows "rate \<noteq> 0 \<and> fst (LeakyBucketCounter_Allow R l t key r) = None"
proof -
  have "lb_leakRate l = 0"
    using assms by (auto simp: NewLeakyBucketCounter_def sdiv_nonneg split: if_splits)
  with assms show ?thesis
    by (auto simp: lb_code split: prod.splits)
qed

end
