(* ===== verification/TokenBucket.thy ===== *)
theory TokenBucket
  imports Redis Limiter
begin

section \<open>TokenBucketCounter\<close>

text \<open>
  \<open>src/token_bucket.go\<close>: tokens and the millisecond they were last counted at, in two Redis
  keys a script reads and writes in one step. The script is the function \<open>tb_script\<close> on the
  key space; Lua numbers are doubles. A window of zero would make the rate infinite and is
  outside the model of floats.
\<close>

record TokenBucketCounter =
  tb_rate :: rat
  tb_burst :: int
  tb_window :: duration

definition NewTokenBucketCounter :: "int \<Rightarrow> int \<Rightarrow> duration \<Rightarrow> TokenBucketCounter" where
  "NewTokenBucketCounter rate burst window =
     \<lparr>tb_rate = fdiv (float_of_int rate) (Duration_Seconds window), tb_burst = burst,
      tb_window = window\<rparr>"

definition tb_tokensKey :: "string \<Rightarrow> string" where
  "tb_tokensKey key = ''tb:'' @ key @ '':tokens''"

definition tb_timestampKey :: "string \<Rightarrow> string" where
  "tb_timestampKey key = ''tb:'' @ key @ '':ts''"

text \<open>\<open>tonumber(redis.call('get', k))\<close>: nil for a missing key, an error on another type.\<close>

definition lua_get :: "gotime \<Rightarrow> kv \<Rightarrow> string \<Rightarrow> err + rat option" where
  "lua_get t m k =
     (case kv_at t m k of
        None \<Rightarrow> Inr None
      | Some (VInt n, _) \<Rightarrow> Inr (Some (float_of_int n))
      | Some (VFloat x, _) \<Rightarrow> Inr (Some x)
      | Some (VZSet _, _) \<Rightarrow> Inl wrongtype)"

definition bad_expire :: err where "bad_expire = ''ERR invalid expire time in 'set' command''"

definition tb_refill :: "rat \<Rightarrow> rat \<Rightarrow> rat \<Rightarrow> rat \<Rightarrow> rat \<Rightarrow> rat" where
  "tb_refill rate burst now last_tokens last_ts =
     (let elapsed = fdiv (max 0 (fsub now last_ts)) 1000
      in min burst (fadd last_tokens (fmul elapsed rate)))"

definition tb_script ::
  "gotime \<Rightarrow> string \<Rightarrow> string \<Rightarrow> rat \<Rightarrow> rat \<Rightarrow> rat \<Rightarrow> int \<Rightarrow> kv \<Rightarrow> (err + int) \<times> kv" where
  "tb_script t tokens_key ts_key rate burst now ttl m =
     (case lua_get t m tokens_key of
        Inl e \<Rightarrow> (Inl e, m)
      | Inr v \<Rightarrow>
          let last_tokens = (case v of None \<Rightarrow> burst | Some x \<Rightarrow> x)
          in (case lua_get t m ts_key of
                Inl e \<Rightarrow> (Inl e, m)
              | Inr u \<Rightarrow>
                  let last_ts = (case u of None \<Rightarrow> now | Some x \<Rightarrow> x);
                      new_tokens = tb_refill rate burst now last_tokens last_ts
                  in if new_tokens < 1 then (Inr 0, m)
                     else if ttl \<le> 0 then (Inl bad_expire, m)
                     else (Inr 1,
                           m(tokens_key \<mapsto> (VFloat (fsub new_tokens 1), Some (t + ttl * millisecond)),
                             ts_key \<mapsto> (VFloat now, Some (t + ttl * millisecond))))))"

definition TokenBucketCounter_Allow ::
  "'r redis \<Rightarrow> TokenBucketCounter \<Rightarrow> gotime \<Rightarrow> string \<Rightarrow> 'r \<Rightarrow> (bool \<times> err option) \<times> 'r" where
  "TokenBucketCounter_Allow R b t key r =
     (let now = Time_UnixMilli t;
          ttlMs = i64 (Duration_Milliseconds (tb_window b) * 2)
      in case RunScript R t (tb_script t (tb_tokensKey key) (tb_timestampKey key) (tb_rate b)
                (float_of_int (tb_burst b)) (float_of_int now) ttlMs) r of
           (Inl e, r') \<Rightarrow> ((False, Some (''token bucket allow: '' @ e)), r')
         | (Inr result, r') \<Rightarrow> ((result = 1, None), r'))"

fun reply_float :: "reply \<Rightarrow> err + rat" where
  "reply_float (RepVal (VInt n)) = Inr (float_of_int n)"
| "reply_float (RepVal (VFloat x)) = Inr x"
| "reply_float (RepVal (VZSet z)) = Inl ''strconv: invalid syntax''"
| "reply_float (RepInt n) = Inr (float_of_int n)"
| "reply_float RepOK = Inl ''strconv: invalid syntax''"
| "reply_float RepNil = Inl redis_Nil"
| "reply_float (RepErr e) = Inl e"

definition TokenBucketCounter_Remaining ::
  "'r redis \<Rightarrow> TokenBucketCounter \<Rightarrow> gotime \<Rightarrow> string \<Rightarrow> 'r \<Rightarrow> (int \<times> err option) \<times> 'r" where
  "TokenBucketCounter_Remaining R b t key r =
     (case Exec R t [GetKey (tb_tokensKey key)] r of ((e, rs), r') \<Rightarrow>
        (case reply_float (reply0 rs) of
           Inl m \<Rightarrow> if m = redis_Nil then ((tb_burst b, None), r')
                    else ((0, Some (''token bucket remaining: '' @ m)), r')
         | Inr val \<Rightarrow> ((\<lfloor>val\<rfloor>, None), r')))"

definition tb_allow :: "'r redis \<Rightarrow> TokenBucketCounter \<Rightarrow> string \<Rightarrow> gotime \<Rightarrow> 'r \<Rightarrow> bool \<times> 'r" where
  "tb_allow R b key t r = (case TokenBucketCounter_Allow R b t key r of ((ok, _), r') \<Rightarrow> (ok, r'))"

text \<open>Capacities and windows the lemmas are about.\<close>

definition tb_ok :: "TokenBucketCounter \<Rightarrow> bool" where
  "tb_ok b \<longleftrightarrow> 0 \<le> tb_rate b \<and> 1 \<le> tb_burst b \<and> tb_burst b \<le> 2 ^ 53 \<and>
     millisecond \<le> tb_window b \<and> tb_window b \<le> max_i64"

definition tb_ttl :: "TokenBucketCounter \<Rightarrow> int" where
  "tb_ttl b = tb_window b div millisecond * 2"

text \<open>A stored token count lies between nothing and the capacity.\<close>

definition tb_bounded :: "TokenBucketCounter \<Rightarrow> string \<Rightarrow> kv \<Rightarrow> bool" where
  "tb_bounded b key m \<longleftrightarrow>
     (\<forall>v d. m (tb_tokensKey key) = Some (v, d) \<longrightarrow>
        (\<exists>x. v = VFloat x \<and> 0 \<le> x \<and> x \<le> of_int (tb_burst b)))"

lemma tb_keys_neq [simp]: "tb_tokensKey k \<noteq> tb_timestampKey k'" "tb_timestampKey k' \<noteq> tb_tokensKey k"
proof -
  have "rev (tb_tokensKey k) \<noteq> rev (tb_timestampKey k')"
    by (simp add: tb_tokensKey_def tb_timestampKey_def)
  then show "tb_tokensKey k \<noteq> tb_timestampKey k'" "tb_timestampKey k' \<noteq> tb_tokensKey k" by auto
qed

lemma tb_keys_inject [simp]: "tb_tokensKey k = tb_tokensKey k' \<longleftrightarrow> k = k'"
  "tb_timestampKey k = tb_timestampKey k' \<longleftrightarrow> k = k'"
  by (simp_all add: tb_tokensKey_def tb_timestampKey_def)

lemma NewTokenBucketCounter_ok:
  assumes "0 \<le> rate" and "rate \<le> 2 ^ 53" and "1 \<le> burst" and "burst \<le> 2 ^ 53"
    and "window = k * second" and "1 \<le> k" and "window \<le> max_i64"
  shows "tb_ok (NewTokenBucketCounter rate burst window)"
proof -
  have "k \<le> 2 ^ 53" using assms(5,7) by simp
  then have "Duration_Seconds window = of_int k" using assms by (simp add: Duration_Seconds_whole)
  moreover have "0 \<le> fl64 (of_int rate / of_int k :: rat)"
    using assms by (intro fl64_nonneg) simp
  ultimately show ?thesis
    using assms by (simp add: tb_ok_def NewTokenBucketCounter_def fdiv_def float_of_int_exact)
qed

lemma tb_ttlMs: "tb_ok b \<Longrightarrow> i64 (Duration_Milliseconds (tb_window b) * 2) = tb_ttl b \<and> 2 \<le> tb_ttl b"
proof -
  assume ok: "tb_ok b"
  have "1 \<le> tb_window b div millisecond"
    using ok zdiv_mono1 [of millisecond "tb_window b" millisecond] by (simp add: tb_ok_def)
  moreover have "tb_window b div millisecond \<le> max_i64 div millisecond"
    using ok by (intro zdiv_mono1) (simp_all add: tb_ok_def)
  ultimately show ?thesis
    using ok by (simp add: Duration_Milliseconds_def tb_ok_def sdiv_nonneg tb_ttl_def i64_id)
qed

lemma tb_refill_le: "tb_refill rate burst now x u \<le> burst"
  by (simp add: tb_refill_def Let_def)

text \<open>No time, no refill.\<close>

lemma tb_refill_same:
  assumes "0 \<le> n" and "n \<le> 2 ^ 53" and "n \<le> bst"
  shows "tb_refill rate (of_int bst) now (of_int n) now = of_int n"
proof -
  have "fadd (of_int n) (fmul (fdiv 0 1000) rate) = of_int n"
    using assms by (simp add: fadd_def fmul_def fdiv_def fl64_int)
  with assms show ?thesis
    by (simp add: tb_refill_def Let_def fsub_def min_def)
qed

lemma tb_script_bounded:
  assumes ok: "tb_ok b" and inv: "tb_bounded b key m"
  shows "tb_bounded b key (snd (tb_script t (tb_tokensKey key) (tb_timestampKey key) (tb_rate b)
    (float_of_int (tb_burst b)) now ttl m))"
proof -
  have bst: "float_of_int (tb_burst b) = of_int (tb_burst b)"
    using ok by (intro float_of_int_exact) (simp add: tb_ok_def)
  have new: "0 \<le> fsub x 1 \<and> fsub x 1 \<le> of_int (tb_burst b)"
    if x: "\<not> x < 1" "x \<le> of_int (tb_burst b)" for x :: rat
  proof -
    have "fl64 (x - 1) \<le> of_int (tb_burst b)"
      using x ok by (intro fl64_le_int) (auto simp: tb_ok_def)
    moreover have "0 \<le> fl64 (x - 1)"
      using x by (intro fl64_nonneg) simp
    ultimately show ?thesis by (simp add: fsub_def)
  qed
  show ?thesis
    using inv tb_refill_le
    by (auto simp: tb_script_def Let_def bst tb_bounded_def new split: sum.splits)
qed

text \<open>The state in which \<open>n\<close> whole tokens are left at the millisecond \<open>ms\<close>.\<close>

definition tb_has :: "TokenBucketCounter \<Rightarrow> string \<Rightarrow> int \<Rightarrow> kv \<Rightarrow> int \<Rightarrow> bool" where
  "tb_has b key ms m n \<longleftrightarrow> 0 \<le> n \<and> n \<le> tb_burst b \<and>
     (\<forall>t. Time_UnixMilli t = ms \<longrightarrow>
        (kv_at t m (tb_tokensKey key) = None \<and> n = tb_burst b \<or>
         (\<exists>d. kv_at t m (tb_tokensKey key) = Some (VFloat (of_int n), d))) \<and>
        (kv_at t m (tb_timestampKey key) = None \<or>
         (\<exists>d. kv_at t m (tb_timestampKey key) = Some (VFloat (float_of_int ms), d))))"

lemma same_milli: "Time_UnixMilli t = Time_UnixMilli u \<Longrightarrow> u \<le> t + millisecond"
proof -
  assume "Time_UnixMilli t = Time_UnixMilli u"
  then have "(t - unix_epoch) div millisecond = (u - unix_epoch) div millisecond"
    by (simp add: Time_UnixMilli_def)
  moreover have "(t - unix_epoch) div millisecond * millisecond \<le> t - unix_epoch"
    by (simp add: minus_mod_eq_div_mult [symmetric])
  moreover have "u - unix_epoch < (u - unix_epoch) div millisecond * millisecond + millisecond"
    using pos_mod_bound [of millisecond "u - unix_epoch"]
    by (simp add: minus_mod_eq_div_mult [symmetric])
  ultimately show ?thesis by linarith
qed

lemma tb_script_has:
  assumes ok: "tb_ok b" and has: "tb_has b key (Time_UnixMilli t) m n"
  shows "tb_script t (tb_tokensKey key) (tb_timestampKey key) (tb_rate b)
      (float_of_int (tb_burst b)) (float_of_int (Time_UnixMilli t)) (tb_ttl b) m =
    (if 1 \<le> n
     then (Inr 1, m(tb_tokensKey key \<mapsto> (VFloat (of_int (n - 1)), Some (t + tb_ttl b * millisecond)),
                    tb_timestampKey key \<mapsto> (VFloat (float_of_int (Time_UnixMilli t)),
                       Some (t + tb_ttl b * millisecond))))
     else (Inr 0, m))"
proof -
  let ?now = "float_of_int (Time_UnixMilli t)"
  have bst: "float_of_int (tb_burst b) = of_int (tb_burst b)"
    using ok by (intro float_of_int_exact) (simp add: tb_ok_def)
  have n: "0 \<le> n" "n \<le> tb_burst b" "tb_burst b \<le> 2 ^ 53"
    using has ok by (simp_all add: tb_has_def tb_ok_def)
  have refill: "tb_refill (tb_rate b) (of_int (tb_burst b)) ?now (of_int n) ?now = of_int n"
    using n by (intro tb_refill_same) auto
  have less: "fsub (of_int n) 1 = of_int (n - 1)" if "1 \<le> n"
  proof -
    have "fl64 (of_int (n - 1)) = of_int (n - 1)"
      using n that by (intro fl64_int) auto
    then show ?thesis by (simp add: fsub_def)
  qed
  have toks: "\<exists>v. lua_get t m (tb_tokensKey key) = Inr v \<and> (case v of None \<Rightarrow> of_int (tb_burst b) | Some x \<Rightarrow> x) = (of_int n :: rat)"
    using has by (auto simp: tb_has_def lua_get_def)
  have ts: "\<exists>v. lua_get t m (tb_timestampKey key) = Inr v \<and> (case v of None \<Rightarrow> ?now | Some x \<Rightarrow> x) = ?now"
    using has by (auto simp: tb_has_def lua_get_def)
  have ttl: "\<not> tb_ttl b \<le> 0" using tb_ttlMs [OF ok] by simp
  from toks ts show ?thesis
    by (auto simp: tb_script_def bst refill less ttl Let_def)
qed

lemma tb_has_next:
  assumes "tb_ok b" and "tb_has b key (Time_UnixMilli t) m n" and "1 \<le> n"
  shows "tb_has b key (Time_UnixMilli t)
    (m(tb_tokensKey key \<mapsto> (VFloat (of_int (n - 1)), Some (t + tb_ttl b * millisecond)),
       tb_timestampKey key \<mapsto> (VFloat (float_of_int (Time_UnixMilli t)),
          Some (t + tb_ttl b * millisecond)))) (n - 1)"
proof -
  have "u \<le> t + tb_ttl b * millisecond" if "Time_UnixMilli u = Time_UnixMilli t" for u
    using same_milli [OF that [symmetric]] tb_ttlMs [OF assms(1)] by linarith
  with assms show ?thesis
    by (auto simp: tb_has_def redis_simps)
qed

context redis_client
begin

lemma tb_bounded_step:
  assumes "tb_ok b" and "tb_bounded b key (keys r)" and "tb_allow R b key t r = (ok, r')"
  shows "tb_bounded b key (keys r')"
proof -
  obtain v where "RunScript R t (tb_script t (tb_tokensKey key) (tb_timestampKey key) (tb_rate b)
      (float_of_int (tb_burst b)) (float_of_int (Time_UnixMilli t))
      (i64 (Duration_Milliseconds (tb_window b) * 2))) r = (v, r')"
    using assms(3) by (auto simp: tb_allow_def TokenBucketCounter_Allow_def Let_def
        split: prod.splits sum.splits)
  from script_effect [OF this] tb_script_bounded [OF assms(1,2)] assms(2)
  show ?thesis by auto
qed

lemma tb_bounded_run:
  assumes "tb_ok b" and "tb_bounded b key (keys r)" and "run_calls (tb_allow R b key) ts r = (oks, r')"
  shows "tb_bounded b key (keys r')"
  using assms(2,3)
proof (induction ts arbitrary: r oks)
  case (Cons t ts)
  then show ?case using tb_bounded_step [OF assms(1)] by (force split: prod.splits)
qed simp

lemma tb_remaining_bounds:
  assumes "tb_ok b" and "tb_bounded b key (keys r)"
    and "TokenBucketCounter_Remaining R b t key r = ((n, None), r')"
  shows "0 \<le> n \<and> n \<le> tb_burst b"
proof -
  obtain e rs where ex: "Exec R t [GetKey (tb_tokensKey key)] r = ((e, rs), r')"
    and n: "(reply_float (reply0 rs) = Inl redis_Nil \<and> n = tb_burst b) \<or>
      (\<exists>x. reply_float (reply0 rs) = Inr x \<and> n = \<lfloor>x\<rfloor>)"
    using assms(3) by (auto simp: TokenBucketCounter_Remaining_def split: prod.splits sum.splits if_splits)
  have "reply0 rs = RepNil \<or> (\<exists>x. reply0 rs = RepVal (VFloat x) \<and> 0 \<le> x \<and> x \<le> of_int (tb_burst b)) \<or>
      (\<exists>m. reply0 rs = RepErr m \<and> m \<noteq> redis_Nil)"
    using exec_law [OF ex] assms(2)
    by (cases rs) (auto simp: redis_simps tb_bounded_def kv_at_def split: option.splits prod.splits if_splits)
  then show ?thesis
  proof (elim disjE exE conjE)
    fix x assume x: "reply0 rs = RepVal (VFloat x)" "0 \<le> x" "x \<le> of_int (tb_burst b)"
    then have "n = \<lfloor>x\<rfloor>" using n by auto
    with x floor_mono [OF x(3)] show ?thesis by simp
  qed (use n assms(1) in \<open>auto simp: tb_ok_def\<close>)
qed

text \<open>With a window below a millisecond the lifetime of the keys is zero, which SET refuses.\<close>

lemma tb_submilli_refused:
  assumes "0 \<le> tb_window b" and "tb_window b < millisecond"
  shows "fst (fst (TokenBucketCounter_Allow R b t key r)) = False"
proof -
  let ?f = "tb_script t (tb_tokensKey key) (tb_timestampKey key) (tb_rate b)
      (float_of_int (tb_burst b)) (float_of_int (Time_UnixMilli t)) 0"
  have ttl: "Duration_Milliseconds (tb_window b) = 0"
    using assms by (simp add: Duration_Milliseconds_def sdiv_nonneg)
  have no: "fst (?f m) \<noteq> Inr 1" for m
    by (auto simp: tb_script_def Let_def split: sum.splits)
  obtain v r' where run: "RunScript R t ?f r = (v, r')" by force
  have "v \<noteq> Inr 1" using script_law [OF run] no by force
  with ttl run show ?thesis
    by (auto simp: TokenBucketCounter_Allow_def split: sum.splits)
qed

end

context reliable_redis
begin

lemma tb_allow_has:
  assumes ok: "tb_ok b" and has: "tb_has b key (Time_UnixMilli t) (keys r) n" and up: "up r"
    and run: "tb_allow R b key t r = (adm, r')"
  shows "adm \<longleftrightarrow> 1 \<le> n" and "tb_has b key (Time_UnixMilli t) (keys r') (if 1 \<le> n then n - 1 else n)"
    and "up r'"
    and "\<forall>k. k \<notin> {tb_tokensKey key, tb_timestampKey key} \<longrightarrow> keys r' k = keys r k"
    and "1 \<le> n \<Longrightarrow> \<exists>v u. keys r' (tb_tokensKey key) = Some (v, Some (t + tb_ttl b * millisecond)) \<and>
      keys r' (tb_timestampKey key) = Some (u, Some (t + tb_ttl b * millisecond))"
    and "\<not> 1 \<le> n \<Longrightarrow> keys r' = keys r"
proof -
  let ?f = "tb_script t (tb_tokensKey key) (tb_timestampKey key) (tb_rate b)
      (float_of_int (tb_burst b)) (float_of_int (Time_UnixMilli t)) (tb_ttl b)"
  obtain v where sc: "RunScript R t ?f r = (v, r')" and adm: "adm \<longleftrightarrow> v = Inr 1"
    using run tb_ttlMs [OF ok]
    by (auto simp: tb_allow_def TokenBucketCounter_Allow_def Let_def split: prod.splits sum.splits)
  note up' = script_up [OF up sc] and val = tb_script_has [OF ok has]
  show "adm \<longleftrightarrow> 1 \<le> n" using up' val adm by simp
  show "tb_has b key (Time_UnixMilli t) (keys r') (if 1 \<le> n then n - 1 else n)"
    using up' val has tb_has_next [OF ok has] by simp
  show "up r'" using up' by simp
  show "\<forall>k. k \<notin> {tb_tokensKey key, tb_timestampKey key} \<longrightarrow> keys r' k = keys r k"
    using up' val by simp
  show "1 \<le> n \<Longrightarrow> \<exists>v u. keys r' (tb_tokensKey key) = Some (v, Some (t + tb_ttl b * millisecond)) \<and>
      keys r' (tb_timestampKey key) = Some (u, Some (t + tb_ttl b * millisecond))"
    using up' val by simp
  show "\<not> 1 \<le> n \<Longrightarrow> keys r' = keys r" using up' val by simp
qed

lemma tb_burst_run:
  assumes ok: "tb_ok b" and "\<forall>t\<in>List.set ts. Time_UnixMilli t = ms"
    and "tb_has b key ms (keys r) n" and "up r"
    and "\<forall>k\<in>{tb_tokensKey key, tb_timestampKey key}. \<forall>v d. keys r k = Some (v, d) \<longrightarrow>
      (\<exists>e. d = Some e \<and> e < z)"
    and "\<forall>t\<in>List.set ts. t + tb_ttl b * millisecond < z"
    and "run_calls (tb_allow R b key) ts r = (oks, r')"
  shows "oks = map (\<lambda>i. int i < n) [0..<length ts] \<and> up r' \<and>
    (\<forall>k\<in>{tb_tokensKey key, tb_timestampKey key}. \<forall>v d. keys r' k = Some (v, d) \<longrightarrow>
      (\<exists>e. d = Some e \<and> e < z))"
  using assms(2-7)
proof (induction ts arbitrary: r n oks)
  case (Cons t ts)
  obtain adm r1 where one: "tb_allow R b key t r = (adm, r1)" by force
  obtain oks2 where rest: "run_calls (tb_allow R b key) ts r1 = (oks2, r')" and oks: "oks = adm # oks2"
    using Cons.prems(6) one by (auto split: prod.splits)
  have ms: "Time_UnixMilli t = ms" using Cons.prems(1) by simp
  note st = tb_allow_has [OF ok _ Cons.prems(3) one, unfolded ms, OF Cons.prems(2)]
  have dl: "\<forall>k\<in>{tb_tokensKey key, tb_timestampKey key}. \<forall>v d. keys r1 k = Some (v, d) \<longrightarrow>
      (\<exists>e. d = Some e \<and> e < z)"
  proof (cases "1 \<le> n")
    case True
    then show ?thesis using st(5) Cons.prems(5) by fastforce
  next
    case False
    then show ?thesis using st(6) Cons.prems(4) by simp
  qed
  have n: "0 \<le> n" using Cons.prems(2) by (simp add: tb_has_def)
  have "oks2 = map (\<lambda>i. int i < (if 1 \<le> n then n - 1 else n)) [0..<length ts] \<and> up r' \<and>
    (\<forall>k\<in>{tb_tokensKey key, tb_timestampKey key}. \<forall>v d. keys r' k = Some (v, d) \<longrightarrow>
      (\<exists>e. d = Some e \<and> e < z))"
    using Cons.prems(1,5) by (intro Cons.IH [OF _ st(2,3) dl _ rest]) auto
  then show ?case
    using st(1) n by (auto simp: oks upt_conv_Cons map_Suc_upt [symmetric] simp del: upt_Suc)
qed simp

end

lemma tb_has_fresh:
  assumes "tb_ok b" and "\<forall>t. Time_UnixMilli t = ms \<longrightarrow>
    kv_at t m (tb_tokensKey key) = None \<and> kv_at t m (tb_timestampKey key) = None"
  shows "tb_has b key ms m (tb_burst b)"
  using assms by (simp add: tb_has_def tb_ok_def)

lemma list_bound: "\<exists>z>z0. \<forall>t\<in>List.set ts. (f t :: int) < z"
proof (induction ts)
  case (Cons t ts)
  then obtain z where "z0 < z" "\<forall>t\<in>List.set ts. f t < z" by blast
  then show ?case by (intro exI [of _ "max z (f t + 1)"]) auto
qed (auto intro: exI [of _ "z0 + 1"])

lemma milli_bounds:
  "Time_UnixMilli t = ms \<Longrightarrow> unix_epoch + ms * millisecond \<le> t"
  using minus_mod_eq_div_mult [of "t - unix_epoch" millisecond] pos_mod_sign [of millisecond "t - unix_epoch"]
  by (simp add: Time_UnixMilli_def)

context reliable_redis
begin

lemma tb_one_burst:
  assumes "tb_ok b" and "\<forall>t\<in>List.set ts. Time_UnixMilli t = ms"
    and "keys r (tb_tokensKey key) = None" and "keys r (tb_timestampKey key) = None" and "up r"
    and "run_calls (tb_allow R b key) ts r = (oks, r1)"
  shows "oks = map (\<lambda>i. int i < tb_burst b) [0..<length ts]"
proof -
  obtain z where "\<forall>t\<in>List.set ts. t + tb_ttl b * millisecond < z"
    using list_bound [of 0 ts "\<lambda>t. t + tb_ttl b * millisecond"] by blast
  moreover have "tb_has b key ms (keys r) (tb_burst b)"
    using assms(3,4) by (intro tb_has_fresh assms(1)) (simp add: kv_at_def)
  ultimately show ?thesis
    using tb_burst_run [OF assms(1,2) _ assms(5) _ _ assms(6), of "tb_burst b" z] assms(3,4) by simp
qed

lemma tb_two_bursts:
  assumes ok: "tb_ok b" and "\<forall>t\<in>List.set ts. Time_UnixMilli t = ms"
    and "\<forall>t\<in>List.set us. Time_UnixMilli t = ms2"
    and gap: "\<forall>t\<in>List.set ts. t + 2 * tb_window b < unix_epoch + ms2 * millisecond"
    and "keys r (tb_tokensKey key) = None" and "keys r (tb_timestampKey key) = None" and "up r"
    and "run_calls (tb_allow R b key) ts r = (oks, r1)"
    and "run_calls (tb_allow R b key) us r1 = (oks2, r2)"
  shows "oks = map (\<lambda>i. int i < tb_burst b) [0..<length ts] \<and>
    oks2 = map (\<lambda>i. int i < tb_burst b) [0..<length us]"
proof -
  let ?z = "unix_epoch + ms2 * millisecond"
  have "tb_ttl b * millisecond = 2 * (tb_window b div millisecond * millisecond)"
    by (simp add: tb_ttl_def)
  moreover have "tb_window b div millisecond * millisecond \<le> tb_window b"
    by (simp add: minus_mod_eq_div_mult [symmetric])
  ultimately have "tb_ttl b * millisecond \<le> 2 * tb_window b" by linarith
  then have z: "\<forall>t\<in>List.set ts. t + tb_ttl b * millisecond < ?z" using gap by fastforce
  have "tb_has b key ms (keys r) (tb_burst b)"
    using assms(5,6) by (intro tb_has_fresh ok) (simp add: kv_at_def)
  from tb_burst_run [OF ok assms(2) this assms(7) _ z assms(8)] assms(5,6)
  have one: "oks = map (\<lambda>i. int i < tb_burst b) [0..<length ts]" "up r1"
    and dl: "\<forall>k\<in>{tb_tokensKey key, tb_timestampKey key}. \<forall>v d. keys r1 k = Some (v, d) \<longrightarrow>
      (\<exists>e. d = Some e \<and> e < ?z)"
    by auto
  have "kv_at t (keys r1) k = None"
    if "Time_UnixMilli t = ms2" "k \<in> {tb_tokensKey key, tb_timestampKey key}" for t k
    using dl that milli_bounds [OF that(1)]
    by (fastforce simp: kv_at_def kv_alive_def split: option.splits)
  then have has: "tb_has b key ms2 (keys r1) (tb_burst b)" by (intro tb_has_fresh ok) auto
  obtain z2 where z2: "?z < z2" "\<forall>t\<in>List.set us. t + tb_ttl b * millisecond < z2"
    using list_bound [of ?z us "\<lambda>t. t + tb_ttl b * millisecond"] by blast
  have "\<forall>k\<in>{tb_tokensKey key, tb_timestampKey key}. \<forall>v d. keys r1 k = Some (v, d) \<longrightarrow>
      (\<exists>e. d = Some e \<and> e < z2)"
    using dl z2(1) by fastforce
  from tb_burst_run [OF ok assms(3) has one(2) this z2(2) assms(9)] one(1) show ?thesis by simp
qed

end

subsection \<open>Properties\<close>

text \<open>C12. For a rate that is not negative, a capacity from 1 to 2 to the 53 and a window of at
  least a millisecond, over any Redis client, and whatever its calls do: if the stored token count lies
  between zero and the capacity, or there is none, this stays so through any calls of Allow, and what
  Remaining then reports lies there too.\<close>

theorem token_bucket_bounded:
  assumes "redis_client R keys" and "tb_ok b" and "tb_bounded b key (keys r)"
    and "run_calls (tb_allow R b key) ts r = (oks, r1)"
    and "TokenBucketCounter_Remaining R b t key r1 = ((n, None), r2)"
  shows "tb_bounded b key (keys r1) \<and> 0 \<le> n \<and> n \<le> tb_burst b"
  using redis_client.tb_bounded_run [OF assms(1-4)]
    redis_client.tb_remaining_bounds [OF assms(1,2) _ assms(5)] by blast

text \<open>One token a second, capacity 2: the third call is refused, and after 1500 milliseconds the fourth
  is admitted and leaves half a token.\<close>

theorem token_bucket_bounded_witness:
  "\<exists>oks r1. run_calls (tb_allow ref_client (NewTokenBucketCounter 1 2 second) ''a'')
      [unix_epoch, unix_epoch + 1, unix_epoch + 2, unix_epoch + 1500 * millisecond] new_redis = (oks, r1) \<and>
    oks = [True, True, False, True] \<and>
    rKeys r1 (tb_tokensKey ''a'') = Some (VFloat (1 / 2), Some (unix_epoch + 3500 * millisecond)) \<and>
    tb_bounded (NewTokenBucketCounter 1 2 second) ''a'' (rKeys r1) \<and>
    fst (fst (TokenBucketCounter_Remaining ref_client (NewTokenBucketCounter 1 2 second)
      (unix_epoch + 1500 * millisecond) ''a'' r1)) \<in> {0..2}"
proof -
  let ?b = "NewTokenBucketCounter 1 2 second" and ?t = "unix_epoch + 1500 * millisecond"
  have ok: "tb_ok ?b" by (rule NewTokenBucketCounter_ok [where k = 1]) simp_all
  have burst: "tb_burst ?b = 2" by (simp add: NewTokenBucketCounter_def)
  obtain oks r1 where run: "run_calls (tb_allow ref_client ?b ''a'')
      [unix_epoch, unix_epoch + 1, unix_epoch + 2, ?t] new_redis = (oks, r1)" by (metis surj_pair)
  have "fst (run_calls (tb_allow ref_client ?b ''a'')
      [unix_epoch, unix_epoch + 1, unix_epoch + 2, ?t] new_redis) = [True, True, False, True]"
    by code_simp
  then have oks: "oks = [True, True, False, True]" by (simp only: run fst_conv)
  have "rKeys (snd (run_calls (tb_allow ref_client ?b ''a'')
      [unix_epoch, unix_epoch + 1, unix_epoch + 2, ?t] new_redis)) (tb_tokensKey ''a'') =
      Some (VFloat (1 / 2), Some (unix_epoch + 3500 * millisecond))"
    by code_simp
  then have stored: "rKeys r1 (tb_tokensKey ''a'') =
      Some (VFloat (1 / 2), Some (unix_epoch + 3500 * millisecond))" by (simp only: run snd_conv)
  have "snd (fst (TokenBucketCounter_Remaining ref_client ?b ?t ''a'' (snd (run_calls (tb_allow ref_client ?b ''a'')
      [unix_epoch, unix_epoch + 1, unix_epoch + 2, ?t] new_redis)))) = None"
    by code_simp
  then obtain n r2 where rem: "TokenBucketCounter_Remaining ref_client ?b ?t ''a'' r1 = ((n, None), r2)"
    unfolding run by (metis prod.collapse snd_conv)
  have "tb_bounded ?b ''a'' (rKeys new_redis)" by (simp add: tb_bounded_def new_redis_def)
  from token_bucket_bounded [OF ref.redis_client_axioms ok this run rem]
  have "tb_bounded ?b ''a'' (rKeys r1)" "n \<in> {0..2}" by (simp_all only: burst atLeastAtMost_iff)
  with run oks stored rem show ?thesis by (metis fst_conv)
qed

text \<open>On a Redis that answers, a full bucket admits its capacity of calls in one
  millisecond and refuses the rest.\<close>

theorem token_bucket_instant_burst:
  assumes "reliable_redis R keys up" and "tb_ok b" and "\<forall>t\<in>List.set ts. Time_UnixMilli t = ms"
    and "keys r (tb_tokensKey key) = None" and "keys r (tb_timestampKey key) = None" and "up r"
    and "run_calls (tb_allow R b key) ts r = (oks, r1)"
  shows "oks = map (\<lambda>i. int i < tb_burst b) [0..<length ts]"
  using reliable_redis.tb_one_burst [OF assms] .

theorem token_bucket_instant_burst_witness:
  "fst (run_calls (tb_allow ref_client (NewTokenBucketCounter 5 2 second) ''a'')
      [unix_epoch, unix_epoch + 1, unix_epoch + 2] new_redis) = [True, True, False]"
proof -
  let ?b = "NewTokenBucketCounter 5 2 second"
  obtain oks r1 where run: "run_calls (tb_allow ref_client ?b ''a'')
      [unix_epoch, unix_epoch + 1, unix_epoch + 2] new_redis = (oks, r1)" by force
  have ok: "tb_ok ?b" by (rule NewTokenBucketCounter_ok [where k = 1]) simp_all
  have "oks = map (\<lambda>i. int i < tb_burst ?b) [0..<length [unix_epoch, unix_epoch + 1, unix_epoch + 2]]"
    by (rule token_bucket_instant_burst [OF ref_up.reliable_redis_axioms ok _ _ _ _ run, of 0])
      (simp_all add: Time_UnixMilli_def new_redis_def)
  with run show ?thesis by (simp add: NewTokenBucketCounter_def upt_rec)
qed

text \<open>C13. The keys of a bucket live for two windows, after which it is full again however little
  would have been refilled: a second full burst is admitted right after.\<close>

theorem token_bucket_expiry_refills:
  assumes "reliable_redis R keys up" and "tb_ok b" and "\<forall>t\<in>List.set ts. Time_UnixMilli t = ms"
    and "\<forall>t\<in>List.set us. Time_UnixMilli t = ms2"
    and "\<forall>t\<in>List.set ts. t + 2 * tb_window b < unix_epoch + ms2 * millisecond"
    and "keys r (tb_tokensKey key) = None" and "keys r (tb_timestampKey key) = None" and "up r"
    and "run_calls (tb_allow R b key) ts r = (oks, r1)"
    and "run_calls (tb_allow R b key) us r1 = (oks2, r2)"
  shows "oks = map (\<lambda>i. int i < tb_burst b) [0..<length ts] \<and>
    oks2 = map (\<lambda>i. int i < tb_burst b) [0..<length us]"
  using reliable_redis.tb_two_bursts [OF assms] .

text \<open>One request per second refills two tokens in the 2001 milliseconds between the bursts, and
  three are admitted.\<close>

theorem token_bucket_expiry_refills_witness:
  "fst (run_calls (tb_allow ref_client (NewTokenBucketCounter 1 3 second) ''a'')
      [unix_epoch + 2001 * millisecond, unix_epoch + 2001 * millisecond,
       unix_epoch + 2001 * millisecond]
      (snd (run_calls (tb_allow ref_client (NewTokenBucketCounter 1 3 second) ''a'')
        [unix_epoch, unix_epoch, unix_epoch] new_redis))) = [True, True, True]"
proof -
  let ?b = "NewTokenBucketCounter 1 3 second" and ?u = "unix_epoch + 2001 * millisecond"
  obtain oks r1 where run: "run_calls (tb_allow ref_client ?b ''a'')
      [unix_epoch, unix_epoch, unix_epoch] new_redis = (oks, r1)" by force
  obtain oks2 r2 where run2: "run_calls (tb_allow ref_client ?b ''a'') [?u, ?u, ?u] r1 = (oks2, r2)"
    by force
  have ok: "tb_ok ?b" by (rule NewTokenBucketCounter_ok [where k = 1]) simp_all
  have "oks2 = map (\<lambda>i. int i < tb_burst ?b) [0..<length [?u, ?u, ?u]]"
    using token_bucket_expiry_refills [OF ref_up.reliable_redis_axioms ok _ _ _ _ _ _ run run2,
        of 0 2001]
    by (simp add: Time_UnixMilli_def new_redis_def NewTokenBucketCounter_def)
  with run run2 show ?thesis by (simp add: NewTokenBucketCounter_def upt_rec)
qed

text \<open>With a window below one millisecond the lifetime of the keys comes out as zero, which
  the script's SET refuses: no call is ever admitted.\<close>

theorem token_bucket_submilli_refuses:
  assumes "redis_client R keys" and "0 \<le> tb_window b" and "tb_window b < millisecond"
  shows "\<not> fst (fst (TokenBucketCounter_Allow R b t key r))"
  using redis_client.tb_submilli_refused [OF assms] by simp

theorem token_bucket_submilli_refuses_witness:
  "\<not> fst (fst (TokenBucketCounter_Allow ref_client
      (NewTokenBucketCounter 10 10 (500000 :: int)) unix_epoch ''a'' new_redis))"
  by (rule token_bucket_submilli_refuses [OF ref.redis_client_axioms])
    (simp_all add: NewTokenBucketCounter_def)

end
