(* ===== verification/Strategy.thy ===== *)
theory Strategy
  imports Text
begin

section \<open>NewStrategy\<close>

text \<open>
  \<open>src/strategy.go\<close>: the strategy names and the constructor chosen by name. The calls hand a
  Store and the arguments (limit, window) to constructors that take a Redis client and
  other arguments, and do not compile; a result is therefore the constructor named with the
  arguments it is given, the Store left out.
\<close>

definition StrategyFixedWindow :: string where "StrategyFixedWindow = ''fixed_window''"
definition StrategySlidingWindow :: string where "StrategySlidingWindow = ''sliding_window''"
definition StrategyTokenBucket :: string where "StrategyTokenBucket = ''token_bucket''"
definition StrategyLeakyBucket :: string where "StrategyLeakyBucket = ''leaky_bucket''"
definition StrategyBurst :: string where "StrategyBurst = ''burst''"

lemmas strategy_names = StrategyFixedWindow_def StrategySlidingWindow_def StrategyTokenBucket_def
  StrategyLeakyBucket_def StrategyBurst_def

definition ValidStrategies :: "string list" where
  "ValidStrategies =
     [StrategyFixedWindow, StrategySlidingWindow, StrategyTokenBucket, StrategyLeakyBucket, StrategyBurst]"

record StrategyConfig =
  sc_Strategy :: string
  sc_Limit :: int
  sc_Burst :: int
  sc_Window :: duration

datatype built =
    CallFixedWindow int duration
  | CallSlidingWindow int duration
  | CallTokenBucket int duration
  | CallLeakyBucket int duration
  | CallBurst int int duration

definition strategy_burst :: "StrategyConfig \<Rightarrow> int" where
  "strategy_burst cfg =
     (if sc_Burst cfg \<le> 0 then (let b = sc_Limit cfg sdiv 2 in if b < 1 then 1 else b)
      else sc_Burst cfg)"

definition NewStrategy :: "StrategyConfig \<Rightarrow> err + built" where
  "NewStrategy cfg =
     (if sc_Strategy cfg = StrategyFixedWindow then
        Inr (CallFixedWindow (sc_Limit cfg) (sc_Window cfg))
      else if sc_Strategy cfg = StrategySlidingWindow \<or> sc_Strategy cfg = '''' then
        Inr (CallSlidingWindow (sc_Limit cfg) (sc_Window cfg))
      else if sc_Strategy cfg = StrategyTokenBucket then
        Inr (CallTokenBucket (sc_Limit cfg) (sc_Window cfg))
      else if sc_Strategy cfg = StrategyLeakyBucket then
        Inr (CallLeakyBucket (sc_Limit cfg) (sc_Window cfg))
      else if sc_Strategy cfg = StrategyBurst then
        Inr (CallBurst (sc_Limit cfg) (strategy_burst cfg) (sc_Window cfg))
      else Inl (''unknown strategy '' @ Quote (sc_Strategy cfg) @ ''; valid strategies: ['' @
                Join ValidStrategies '' '' @ '']''))"

text \<open>The burst that a chosen burst counter gets.\<close>

lemma strategy_burst_pos: "1 \<le> strategy_burst cfg"
  by (simp add: strategy_burst_def Let_def)

lemma strategy_burst_le:
  assumes "1 \<le> sc_Limit cfg" and "sc_Burst cfg \<le> 0"
  shows "2 * strategy_burst cfg \<le> max 2 (sc_Limit cfg)"
  using assms by (auto simp: strategy_burst_def Let_def sdiv_nonneg)

subsection \<open>Properties\<close>

text \<open>The names that are accepted are the listed ones and the empty one, which stands for the
  sliding window; any other name is an error, and is not replaced by a default.\<close>

theorem strategy_known_or_error:
  "(\<exists>b. NewStrategy cfg = Inr b) \<longleftrightarrow> sc_Strategy cfg \<in> set ('''' # ValidStrategies)"
  by (auto simp: NewStrategy_def ValidStrategies_def strategy_names)

end
