(* ===== verification/Http.thy ===== *)
theory Http
  imports Text "HOL-Library.AList"
begin

section \<open>Requests, response writers and handlers\<close>

text \<open>
  The part of \<open>net/http\<close> the program uses. A \<open>http.ResponseWriter\<close> is an interface value:
  the record \<open>rwriter\<close> holds its methods over the type \<open>'w\<close> of the value behind it, so a
  middleware that wraps a writer in one of its own builds a new \<open>rwriter\<close> and calls the next
  handler with it, as the code does by embedding. The map \<open>Header()\<close> returns is mutable: it
  is read with \<open>HeaderOf\<close> and written back with \<open>PutHeader\<close>.

  A handler gets the request, the writer and the rest of the world \<open>'s\<close> (stores, clocks, the
  state of the middlewares below it), and gives all three back; requests are pointers and may
  have been changed. A handler returns: one that panics is outside the model, but for
  \<open>WriteHeader\<close> with a code that is no status, which \<open>conn\<close> records.

  The locale \<open>response_writer\<close> is what every writer promises about the status line: the first
  final code is kept, and a \<open>Write\<close> before it commits 200.
\<close>

named_theorems hdr_simps \<open>headers\<close>
named_theorems rw_simps \<open>response writers\<close>

subsection \<open>Header\<close>

type_synonym header = "(string \<times> string list) list"

text \<open>\<open>textproto.CanonicalMIMEHeaderKey\<close>: a letter at the start or after a hyphen is upper
  case, every other one lower case; a key with a byte no header field may have is unchanged.\<close>

definition is_token :: "char \<Rightarrow> bool" where
  "is_token c \<longleftrightarrow>
     (let n = of_char c :: nat
      in (48 \<le> n \<and> n \<le> 57) \<or> (65 \<le> n \<and> n \<le> 90) \<or> (97 \<le> n \<and> n \<le> 122)) \<or>
     c \<in> set ''!#$%&*+-.^_|~'' \<or> c = CHR 0x27 \<or> c = CHR 0x60"

fun canon_loop :: "bool \<Rightarrow> string \<Rightarrow> string" where
  "canon_loop up [] = []"
| "canon_loop up (c # cs) =
     (if up then upper_char c else lower_char c) # canon_loop (c = CHR ''-'') cs"

definition canon :: "string \<Rightarrow> string" where
  "canon k = (if list_all is_token k then canon_loop True k else k)"

definition hget :: "header \<Rightarrow> string \<Rightarrow> string" where
  "hget h k = (case map_of h (canon k) of Some (v # _) \<Rightarrow> v | _ \<Rightarrow> [])"

definition hvalues :: "header \<Rightarrow> string \<Rightarrow> string list" where
  "hvalues h k = (case map_of h (canon k) of Some vs \<Rightarrow> vs | None \<Rightarrow> [])"

definition hset :: "string \<Rightarrow> string \<Rightarrow> header \<Rightarrow> header" where
  "hset k v h = AList.update (canon k) [v] h"

definition hadd :: "string \<Rightarrow> string \<Rightarrow> header \<Rightarrow> header" where
  "hadd k v h = AList.update (canon k) (hvalues h k @ [v]) h"

definition hdel :: "string \<Rightarrow> header \<Rightarrow> header" where
  "hdel k h = AList.delete (canon k) h"

lemma hget_hset [hdr_simps]:
  "hget (hset k v h) k' = (if canon k = canon k' then v else hget h k')"
  by (simp add: hget_def hset_def update_conv')

lemma hget_hdel [hdr_simps]:
  "hget (hdel k h) k' = (if canon k = canon k' then [] else hget h k')"
  by (simp add: hget_def hdel_def delete_conv')

lemma hget_Nil [hdr_simps]: "hget [] k = []"
  by (simp add: hget_def)

lemma hvalues_hset [hdr_simps]:
  "hvalues (hset k v h) k' = (if canon k = canon k' then [v] else hvalues h k')"
  by (simp add: hvalues_def hset_def update_conv')

lemma hvalues_hadd [hdr_simps]:
  "hvalues (hadd k v h) k' = (if canon k = canon k' then hvalues h k @ [v] else hvalues h k')"
  by (simp add: hvalues_def hadd_def update_conv')

lemma hget_hvalues: "hget h k = (case hvalues h k of [] \<Rightarrow> [] | v # _ \<Rightarrow> v)"
  by (simp add: hget_def hvalues_def split: option.split list.split)

subsection \<open>Request\<close>

text \<open>A body is the bytes it delivers and how it ends; \<open>None\<close> is a nil body.\<close>

datatype read_end = EOF | ReadError

type_synonym body = "(string \<times> read_end) option"

record req =
  Method :: string
  URL_Path :: string
  URL_String :: string
  URL_RequestURI :: string
  RequestURI :: string
  RemoteAddr :: string
  ReqHeader :: header
  ContentLength :: int
  Body :: body

definition req_hget :: "req \<Rightarrow> string \<Rightarrow> string" where
  "req_hget r k = hget (ReqHeader r) k"

definition req_hset :: "string \<Rightarrow> string \<Rightarrow> req \<Rightarrow> req" where
  "req_hset k v r = r\<lparr>ReqHeader := hset k v (ReqHeader r)\<rparr>"

lemma req_hget_hset [hdr_simps]:
  "req_hget (req_hset k v r) k' = (if canon k = canon k' then v else req_hget r k')"
  by (simp add: req_hget_def req_hset_def hdr_simps)

lemma req_hset_fields [simp]:
  "Method (req_hset k v r) = Method r" "URL_Path (req_hset k v r) = URL_Path r"
  "URL_String (req_hset k v r) = URL_String r"
  "URL_RequestURI (req_hset k v r) = URL_RequestURI r"
  "RequestURI (req_hset k v r) = RequestURI r"
  "RemoteAddr (req_hset k v r) = RemoteAddr r"
  "ContentLength (req_hset k v r) = ContentLength r" "Body (req_hset k v r) = Body r"
  by (simp_all add: req_hset_def)

subsection \<open>ResponseWriter\<close>

record 'w rwriter =
  HeaderOf :: "'w \<Rightarrow> header"
  PutHeader :: "header \<Rightarrow> 'w \<Rightarrow> 'w"
  WriteHeader :: "int \<Rightarrow> 'w \<Rightarrow> 'w"
  Write :: "string \<Rightarrow> 'w \<Rightarrow> 'w"

type_synonym ('w, 's) handler = "req \<Rightarrow> 'w \<Rightarrow> 's \<Rightarrow> req \<times> 'w \<times> 's"

definition rw_set :: "'w rwriter \<Rightarrow> string \<Rightarrow> string \<Rightarrow> 'w \<Rightarrow> 'w" where
  "rw_set W k v w = PutHeader W (hset k v (HeaderOf W w)) w"

definition rw_add :: "'w rwriter \<Rightarrow> string \<Rightarrow> string \<Rightarrow> 'w \<Rightarrow> 'w" where
  "rw_add W k v w = PutHeader W (hadd k v (HeaderOf W w)) w"

definition rw_del :: "'w rwriter \<Rightarrow> string \<Rightarrow> 'w \<Rightarrow> 'w" where
  "rw_del W k w = PutHeader W (hdel k (HeaderOf W w)) w"

text \<open>\<open>http.Error\<close>: plain text, the code, and the message with a newline.\<close>

definition http_Error :: "'w rwriter \<Rightarrow> string \<Rightarrow> int \<Rightarrow> 'w \<Rightarrow> 'w" where
  "http_Error W msg code w =
     (let w1 = rw_set W ''Content-Type'' ''text/plain; charset=utf-8'' w;
          w2 = rw_set W ''X-Content-Type-Options'' ''nosniff'' w1;
          w3 = WriteHeader W code w2
      in Write W (msg @ [CHR 0x0A]) w3)"

abbreviation StatusOK :: int where "StatusOK \<equiv> 200"
abbreviation StatusForbidden :: int where "StatusForbidden \<equiv> 403"
abbreviation StatusConflict :: int where "StatusConflict \<equiv> 409"
abbreviation StatusRequestEntityTooLarge :: int where "StatusRequestEntityTooLarge \<equiv> 413"
abbreviation StatusTooManyRequests :: int where "StatusTooManyRequests \<equiv> 429"
abbreviation StatusInternalServerError :: int where "StatusInternalServerError \<equiv> 500"
abbreviation StatusServiceUnavailable :: int where "StatusServiceUnavailable \<equiv> 503"
abbreviation StatusGatewayTimeout :: int where "StatusGatewayTimeout \<equiv> 504"

subsection \<open>The server's own writer\<close>

text \<open>
  The writer a handler gets from the server: the live header map, the status line and header
  snapshot once committed, and the body. Informational codes commit nothing. A code outside
  100..999 panics, which is recorded by committing it: nothing is sent after that.
\<close>

record conn =
  cHeader :: header
  cSent :: "(int \<times> header) option"
  cBody :: string

definition new_conn :: conn where
  "new_conn = \<lparr>cHeader = [], cSent = None, cBody = []\<rparr>"

definition conn_panicked :: "conn \<Rightarrow> bool" where
  "conn_panicked c = (case cSent c of None \<Rightarrow> False | Some (code, _) \<Rightarrow> code < 100 \<or> 999 < code)"

definition conn_WriteHeader :: "int \<Rightarrow> conn \<Rightarrow> conn" where
  "conn_WriteHeader code c =
     (if cSent c \<noteq> None then c
      else if 100 \<le> code \<and> code \<le> 199 \<and> code \<noteq> 101 then c
      else c\<lparr>cSent := Some (code, cHeader c)\<rparr>)"

definition conn_Write :: "string \<Rightarrow> conn \<Rightarrow> conn" where
  "conn_Write b c =
     (if conn_panicked c then c
      else let c1 = conn_WriteHeader StatusOK c in c1\<lparr>cBody := cBody c1 @ b\<rparr>)"

definition conn_rw :: "conn rwriter" where
  "conn_rw = \<lparr>HeaderOf = cHeader, PutHeader = (\<lambda>h c. c\<lparr>cHeader := h\<rparr>),
              WriteHeader = conn_WriteHeader, Write = conn_Write\<rparr>"

definition conn_status :: "conn \<Rightarrow> int option" where
  "conn_status c = map_option fst (cSent c)"

text \<open>What the client receives once the handler has returned.\<close>

definition resp_code :: "conn \<Rightarrow> int" where
  "resp_code c = (case cSent c of None \<Rightarrow> StatusOK | Some (code, _) \<Rightarrow> code)"

definition resp_header :: "conn \<Rightarrow> header" where
  "resp_header c = (case cSent c of None \<Rightarrow> cHeader c | Some (_, h) \<Rightarrow> h)"

lemma conn_rw_sel [rw_simps]:
  "HeaderOf conn_rw = cHeader" "PutHeader conn_rw h c = c\<lparr>cHeader := h\<rparr>"
  "WriteHeader conn_rw = conn_WriteHeader" "Write conn_rw = conn_Write"
  by (simp_all add: conn_rw_def)

lemma conn_WriteHeader_first [rw_simps]:
  "cSent c = None \<Longrightarrow> 200 \<le> code \<Longrightarrow>
   conn_WriteHeader code c = c\<lparr>cSent := Some (code, cHeader c)\<rparr>"
  by (simp add: conn_WriteHeader_def)

lemma conn_WriteHeader_again [rw_simps]: "cSent c = Some p \<Longrightarrow> conn_WriteHeader code c = c"
  by (simp add: conn_WriteHeader_def)

lemma conn_Write_sent [rw_simps]:
  "cSent c = Some (code, h) \<Longrightarrow> 200 \<le> code \<Longrightarrow> code \<le> 999 \<Longrightarrow>
   conn_Write b c = c\<lparr>cBody := cBody c @ b\<rparr>"
  by (simp add: conn_Write_def conn_panicked_def conn_WriteHeader_def)

lemma conn_http_Error:
  assumes "cSent c = None" and "200 \<le> code" and "code \<le> 999"
  shows "http_Error conn_rw msg code c =
    (let h = hset ''X-Content-Type-Options'' ''nosniff''
               (hset ''Content-Type'' ''text/plain; charset=utf-8'' (cHeader c))
     in c\<lparr>cHeader := h, cSent := Some (code, h), cBody := cBody c @ msg @ [CHR 0x0A]\<rparr>)"
  using assms by (simp add: http_Error_def rw_set_def rw_simps Let_def)

subsection \<open>The contract of a response writer\<close>

locale response_writer =
  fixes W :: "'w rwriter" and status :: "'w \<Rightarrow> int option"
  assumes header_put: "HeaderOf W (PutHeader W h w) = h"
    and status_put: "status (PutHeader W h w) = status w"
    and status_first: "status w = None \<Longrightarrow> 200 \<le> c \<Longrightarrow> c \<le> 999 \<Longrightarrow> status (WriteHeader W c w) = Some c"
    and status_kept: "status w = Some d \<Longrightarrow> status (WriteHeader W c w) = Some d"
    and status_write: "status (Write W b w) = (case status w of None \<Rightarrow> Some 200 | Some d \<Rightarrow> Some d)"
begin

lemma header_rw_set: "HeaderOf W (rw_set W k v w) = hset k v (HeaderOf W w)"
  and header_rw_add: "HeaderOf W (rw_add W k v w) = hadd k v (HeaderOf W w)"
  and header_rw_del: "HeaderOf W (rw_del W k w) = hdel k (HeaderOf W w)"
  by (simp_all add: rw_set_def rw_add_def rw_del_def header_put)

lemma status_rw_set: "status (rw_set W k v w) = status w"
  and status_rw_add: "status (rw_add W k v w) = status w"
  and status_rw_del: "status (rw_del W k w) = status w"
  by (simp_all add: rw_set_def rw_add_def rw_del_def status_put)

lemma status_http_Error:
  "status w = None \<Longrightarrow> 200 \<le> c \<Longrightarrow> c \<le> 999 \<Longrightarrow> status (http_Error W msg c w) = Some c"
  by (simp add: http_Error_def Let_def status_write status_first status_rw_set)

lemma status_http_Error_kept:
  "status w = Some d \<Longrightarrow> status (http_Error W msg c w) = Some d"
  by (simp add: http_Error_def Let_def status_write status_kept status_rw_set)

end

interpretation server_rw: response_writer conn_rw conn_status
  by unfold_locales
    (auto simp: rw_simps conn_status_def conn_Write_def conn_panicked_def conn_WriteHeader_def
      split: option.splits)

subsection \<open>Writers that embed another one\<close>

text \<open>
  A struct that embeds a \<open>http.ResponseWriter\<close> has its methods, applied to the field; a method
  of its own is a record update of \<open>embed_rw\<close>.
\<close>

definition embed_rw :: "'w rwriter \<Rightarrow> ('a \<Rightarrow> 'w) \<Rightarrow> (('w \<Rightarrow> 'w) \<Rightarrow> 'a \<Rightarrow> 'a) \<Rightarrow> 'a rwriter" where
  "embed_rw W inner upd =
     \<lparr>HeaderOf = (\<lambda>a. HeaderOf W (inner a)), PutHeader = (\<lambda>h. upd (PutHeader W h)),
      WriteHeader = (\<lambda>c. upd (WriteHeader W c)), Write = (\<lambda>b. upd (Write W b))\<rparr>"

lemma embed_rw_sel [rw_simps]:
  "HeaderOf (embed_rw W inner upd) a = HeaderOf W (inner a)"
  "PutHeader (embed_rw W inner upd) h = upd (PutHeader W h)"
  "WriteHeader (embed_rw W inner upd) c = upd (WriteHeader W c)"
  "Write (embed_rw W inner upd) b = upd (Write W b)"
  by (simp_all add: embed_rw_def)

lemma embedded_writer:
  assumes "response_writer W status"
    and "\<And>a. HeaderOf V a = HeaderOf W (inner a)"
    and "\<And>h a. inner (PutHeader V h a) = PutHeader W h (inner a)"
    and "\<And>c a. status (inner (WriteHeader V c a)) = status (WriteHeader W c (inner a))"
    and "\<And>b a. status (inner (Write V b a)) = status (Write W b (inner a))"
  shows "response_writer V (\<lambda>a. status (inner a))"
  using assms by (simp add: response_writer_def)

subsection \<open>Handlers given by what they write\<close>

text \<open>The calls a handler makes to its writer, in order.\<close>

datatype wop = SetHeader string string | SendHeader int | SendBody string

fun do_wop :: "'w rwriter \<Rightarrow> wop \<Rightarrow> 'w \<Rightarrow> 'w" where
  "do_wop W (SetHeader k v) w = rw_set W k v w"
| "do_wop W (SendHeader c) w = WriteHeader W c w"
| "do_wop W (SendBody b) w = Write W b w"

definition do_wops :: "'w rwriter \<Rightarrow> wop list \<Rightarrow> 'w \<Rightarrow> 'w" where
  "do_wops W ops w = fold (do_wop W) ops w"

definition writes :: "'w rwriter \<Rightarrow> wop list \<Rightarrow> ('w, 's) handler" where
  "writes W ops r w s = (r, do_wops W ops w, s)"

fun good_wop :: "wop \<Rightarrow> bool" where
  "good_wop (SendHeader c) \<longleftrightarrow> 200 \<le> c \<and> c \<le> 999"
| "good_wop _ \<longleftrightarrow> True"

lemma do_wops_simps [simp]:
  "do_wops W [] w = w" "do_wops W (op # ops) w = do_wops W ops (do_wop W op w)"
  by (simp_all add: do_wops_def)

lemma do_wops_append: "do_wops W (xs @ ys) w = do_wops W ys (do_wops W xs w)"
  by (simp add: do_wops_def)

text \<open>The status a sequence of calls leads to.\<close>

fun wop_status :: "int option \<Rightarrow> wop \<Rightarrow> int option" where
  "wop_status None (SendHeader c) = Some c"
| "wop_status None (SendBody b) = Some StatusOK"
| "wop_status st _ = st"

context response_writer
begin

lemma status_wop: "good_wop op \<Longrightarrow> status (do_wop W op w) = wop_status (status w) op"
  by (cases op; cases "status w")
    (simp_all add: status_rw_set status_first status_kept status_write)

lemma status_wops:
  "list_all good_wop ops \<Longrightarrow> status (do_wops W ops w) = fold (\<lambda>op st. wop_status st op) ops (status w)"
  by (induction ops arbitrary: w) (simp_all add: status_wop)

end

end
