(* ===== verification/KeyFunc.thy ===== *)
theory KeyFunc
  imports Http
begin

section \<open>Rate-limit keys of requests\<close>

text \<open>
  \<open>src/ip_key_func.go\<close>, with the two functions of \<open>net\<close> it calls: \<open>SplitHostPort\<close>, which is
  \<open>None\<close> on an error and the host otherwise, and \<open>ParseIP\<close>, of which only success matters
  here.
\<close>

subsection \<open>net.SplitHostPort and net.ParseIP\<close>

definition SplitHostPort :: "string \<Rightarrow> (string \<times> string) option" where
  "SplitHostPort hp =
     (case before_last (CHR '':'') hp of
        None \<Rightarrow> None
      | Some pre \<Rightarrow>
          let port = drop (Suc (length pre)) hp
          in if hd hp = CHR ''['' then
               (if CHR '']'' \<notin> set hp then None
                else let host = before_first (CHR '']'') (tl hp)
                     in if length pre = length host + 2 then
                          (if CHR ''['' \<in> set (tl hp) \<or> CHR '']'' \<in> set (drop (length pre) hp) then None
                           else Some (host, port))
                        else None)
             else if CHR '':'' \<in> set pre \<or> CHR ''['' \<in> set hp \<or> CHR '']'' \<in> set hp then None
             else Some (pre, port))"

fun split_on :: "char \<Rightarrow> string \<Rightarrow> string list" where
  "split_on c [] = [[]]"
| "split_on c (x # xs) =
     (if x = c then [] # split_on c xs
      else (case split_on c xs of [] \<Rightarrow> [[x]] | p # ps \<Rightarrow> (x # p) # ps))"

definition is_octet :: "string \<Rightarrow> bool" where
  "is_octet p \<longleftrightarrow>
     (case dec_digits p of None \<Rightarrow> False | Some n \<Rightarrow> n \<le> 255 \<and> (hd p = CHR ''0'' \<longrightarrow> length p = 1))"

definition is_ipv4 :: "string \<Rightarrow> bool" where
  "is_ipv4 s \<longleftrightarrow> (let ps = split_on (CHR ''.'') s in length ps = 4 \<and> list_all is_octet ps)"

definition is_hex :: "char \<Rightarrow> bool" where
  "is_hex c \<longleftrightarrow> (let n = of_char c :: nat
     in (48 \<le> n \<and> n \<le> 57) \<or> (65 \<le> n \<and> n \<le> 70) \<or> (97 \<le> n \<and> n \<le> 102))"

text \<open>The groups of an IPv6 address: \<open>k\<close> are read, and \<open>ell\<close> says whether \<open>::\<close> was seen.\<close>

definition v6_end :: "nat \<Rightarrow> bool \<Rightarrow> bool" where
  "v6_end k ell \<longleftrightarrow> (if k < 8 then ell else \<not> ell)"

function v6_loop :: "nat \<Rightarrow> bool \<Rightarrow> string \<Rightarrow> bool" where
  "v6_loop k ell s =
     (if 8 \<le> k then s = [] \<and> \<not> ell
      else let h = takeWhile is_hex s; rest = dropWhile is_hex s
           in if h = [] \<or> 4 < length h then False
              else (case rest of
                      [] \<Rightarrow> v6_end (k + 1) ell
                    | c # cs \<Rightarrow>
                        if c = CHR ''.'' then (ell \<or> k = 6) \<and> k \<le> 6 \<and> is_ipv4 s \<and> v6_end (k + 2) ell
                        else if c \<noteq> CHR '':'' then False
                        else (case cs of
                                [] \<Rightarrow> False
                              | d # ds \<Rightarrow>
                                  if d = CHR '':'' then
                                    (if ell then False
                                     else if ds = [] then v6_end (k + 1) True
                                     else v6_loop (k + 1) True ds)
                                  else v6_loop (k + 1) ell cs)))"
  by pat_completeness auto
termination
  by (relation "measure (\<lambda>(k, ell, s). 8 - k)") auto

declare v6_loop.simps [simp del]

definition is_ipv6 :: "string \<Rightarrow> bool" where
  "is_ipv6 s \<longleftrightarrow>
     (case s of
        a # b # cs \<Rightarrow>
          if a = CHR '':'' \<and> b = CHR '':'' then cs = [] \<or> v6_loop 0 True cs else v6_loop 0 False s
      | _ \<Rightarrow> v6_loop 0 False s)"

definition ParseIP_ok :: "string \<Rightarrow> bool" where
  "ParseIP_ok s \<longleftrightarrow>
     (case dropWhile (\<lambda>c. c \<noteq> CHR ''.'' \<and> c \<noteq> CHR '':'' \<and> c \<noteq> CHR ''%'') s of
        [] \<Rightarrow> False
      | c # _ \<Rightarrow> if c = CHR ''.'' then is_ipv4 s
                 else c = CHR '':'' \<and> CHR ''%'' \<notin> set s \<and> is_ipv6 s)"

subsection \<open>Key functions\<close>

type_synonym KeyFunc = "req \<Rightarrow> string"

definition remote_ip :: KeyFunc where
  "remote_ip r =
     (case SplitHostPort (RemoteAddr r) of None \<Rightarrow> RemoteAddr r | Some (ip, _) \<Rightarrow> ip)"

definition IPKeyFunc :: "bool \<Rightarrow> KeyFunc" where
  "IPKeyFunc trustProxies r =
     (let xff = req_hget r ''X-Forwarded-For'';
          xip = TrimSpace (before_first (CHR '','') xff);
          xri = req_hget r ''X-Real-IP'';
          rip = TrimSpace xri
      in if trustProxies \<and> xff \<noteq> [] \<and> ParseIP_ok xip then xip
         else if trustProxies \<and> xri \<noteq> [] \<and> ParseIP_ok rip then rip
         else remote_ip r)"

definition RouteKeyFunc :: "bool \<Rightarrow> KeyFunc" where
  "RouteKeyFunc trustProxies r = IPKeyFunc trustProxies r @ CHR '':'' # URL_Path r"

definition defaultKeyFunc :: KeyFunc where
  "defaultKeyFunc r = IPKeyFunc False r"

lemma SplitHostPort_plain:
  assumes "CHR '':'' \<notin> set host" "CHR ''['' \<notin> set (host @ port)" "CHR '']'' \<notin> set (host @ port)"
    and "CHR '':'' \<notin> set port" "host \<noteq> []"
  shows "SplitHostPort (host @ CHR '':'' # port) = Some (host, port)"
proof -
  have "before_last (CHR '':'') (host @ CHR '':'' # port) = Some host"
    by (rule before_last_append [OF assms(4)])
  moreover have "hd (host @ CHR '':'' # port) \<noteq> CHR ''[''"
    using assms(2,5) by (cases host) auto
  ultimately show ?thesis
    using assms by (simp add: SplitHostPort_def)
qed

lemma SplitHostPort_bracket:
  assumes "CHR ''['' \<notin> set (host @ port)" "CHR '']'' \<notin> set (host @ port)" "CHR '':'' \<notin> set port"
  shows "SplitHostPort (CHR ''['' # host @ CHR '']'' # CHR '':'' # port) = Some (host, port)"
proof -
  have "before_last (CHR '':'') ((CHR ''['' # host @ [CHR '']'']) @ CHR '':'' # port) =
      Some (CHR ''['' # host @ [CHR '']''])"
    by (rule before_last_append [OF assms(3)])
  moreover have "before_first (CHR '']'') (host @ CHR '']'' # CHR '':'' # port) = host"
    using assms(2) by (simp add: before_first_def takeWhile_append)
  ultimately show ?thesis
    using assms by (simp add: SplitHostPort_def)
qed

lemma IPKeyFunc_untrusted: "IPKeyFunc False r = remote_ip r"
  by (simp add: IPKeyFunc_def Let_def)

lemma IPKeyFunc_source:
  "IPKeyFunc trust r = remote_ip r \<or> (trust \<and> ParseIP_ok (IPKeyFunc trust r))"
  by (simp add: IPKeyFunc_def Let_def)

text \<open>An address that parses has no slash, so the route key splits at the first one.\<close>

lemma split_on_mem: "x \<in> set s \<Longrightarrow> x \<noteq> c \<Longrightarrow> \<exists>p\<in>set (split_on c s). x \<in> set p"
  by (induction c s rule: split_on.induct) (force split: list.splits)+

lemma dec_val_digits: "dec_val a s = Some n \<Longrightarrow> x \<in> set s \<Longrightarrow> digit_val x \<noteq> None"
  by (induction a s rule: dec_val.induct) (auto split: option.splits)

lemma slash_no_digit: "digit_val (CHR ''/'') = None"
  by (simp add: digit_val_def Let_def)

lemma slash_no_hex: "\<not> is_hex (CHR ''/'')"
  by (simp add: is_hex_def Let_def)

lemma ipv4_no_slash: "is_ipv4 s \<Longrightarrow> CHR ''/'' \<notin> set s"
proof
  assume ip: "is_ipv4 s" and slash: "CHR ''/'' \<in> set s"
  obtain p where p: "p \<in> set (split_on (CHR ''.'') s)" "CHR ''/'' \<in> set p"
    using split_on_mem [OF slash, of "CHR ''.''"] by auto
  with ip have "is_octet p" by (auto simp: is_ipv4_def list_all_iff Let_def)
  then obtain n where "dec_val 0 p = Some n"
    by (auto simp: is_octet_def dec_digits_def split: option.splits if_splits)
  from dec_val_digits [OF this p(2)] slash_no_digit show False by simp
qed

lemma v6_loop_step:
  assumes "v6_loop k ell s"
  shows "s = [] \<or> dropWhile is_hex s = [] \<or> is_ipv4 s \<or>
    (\<exists>cs. dropWhile is_hex s = CHR '':'' # cs \<and>
      (v6_loop (k + 1) ell cs \<or> (\<exists>ds. cs = CHR '':'' # ds \<and> (ds = [] \<or> v6_loop (k + 1) True ds))))"
proof (cases "8 \<le> k")
  case False
  define rest where "rest = dropWhile is_hex s"
  have "rest = [] \<or> is_ipv4 s \<or> (\<exists>cs. rest = CHR '':'' # cs \<and>
      (v6_loop (k + 1) ell cs \<or> (\<exists>ds. cs = CHR '':'' # ds \<and> (ds = [] \<or> v6_loop (k + 1) True ds))))"
    using assms False unfolding v6_loop.simps [of k] rest_def [symmetric]
    by (auto simp: Let_def split: if_split_asm list.split_asm)
  then show ?thesis unfolding rest_def by blast
qed (use assms in \<open>simp add: v6_loop.simps [of k]\<close>)

lemma v6_no_slash: "v6_loop k ell s \<Longrightarrow> CHR ''/'' \<notin> set s"
proof (induction "length s" arbitrary: k ell s rule: less_induct)
  case less
  let ?h = "takeWhile is_hex s" and ?r = "dropWhile is_hex s"
  have h: "CHR ''/'' \<notin> set ?h" using slash_no_hex by (metis set_takeWhileD)
  have rest: "CHR ''/'' \<notin> set s" if "CHR ''/'' \<notin> set ?r"
    using that h by (metis Un_iff set_append takeWhile_dropWhile_id)
  have len: "length ?r \<le> length s" by (rule length_dropWhile_le)
  from v6_loop_step [OF less.prems] consider "s = []" | "?r = []" | "is_ipv4 s"
    | cs where "?r = CHR '':'' # cs" "v6_loop (k + 1) ell cs"
    | ds where "?r = CHR '':'' # CHR '':'' # ds" "ds = [] \<or> v6_loop (k + 1) True ds"
    by blast
  then show ?case
  proof cases
    case (4 cs)
    have "length cs < length s" using len unfolding 4(1) by simp
    from less.hyps [OF this 4(2)] have "CHR ''/'' \<notin> set ?r" unfolding 4(1) by simp
    then show ?thesis by (rule rest)
  next
    case (5 ds)
    have "length ds < length s" using len unfolding 5(1) by simp
    from less.hyps [OF this] 5(2) have "CHR ''/'' \<notin> set ds" by auto
    then have "CHR ''/'' \<notin> set ?r" unfolding 5(1) by simp
    then show ?thesis by (rule rest)
  next
    case 2
    then have "CHR ''/'' \<notin> set ?r" by (simp only: list.set empty_iff not_False_eq_True)
    then show ?thesis by (rule rest)
  next
    case 1
    then show ?thesis by simp
  next
    case 3
    then show ?thesis by (rule ipv4_no_slash)
  qed
qed

lemma ParseIP_no_slash: "ParseIP_ok s \<Longrightarrow> CHR ''/'' \<notin> set s"
  using ipv4_no_slash v6_no_slash
  by (fastforce simp: ParseIP_ok_def is_ipv6_def split: list.splits if_splits)

lemma route_key_inject:
  assumes "CHR ''/'' \<notin> set a" and "CHR ''/'' \<notin> set b"
    and "a @ CHR '':'' # CHR ''/'' # p = b @ CHR '':'' # CHR ''/'' # q"
  shows "a = b \<and> p = q"
proof -
  have "takeWhile (\<lambda>c. c \<noteq> CHR ''/'') (x @ CHR '':'' # CHR ''/'' # y) = x @ [CHR '':'']"
    if "CHR ''/'' \<notin> set x" for x y
    using that by (simp add: takeWhile_append)
  with assms have "a @ [CHR '':''] = b @ [CHR '':'']" by metis
  with assms(3) show ?thesis by simp
qed

lemma SplitHostPort_chars: "SplitHostPort hp = Some (host, port) \<Longrightarrow> set host \<subseteq> set hp"
proof -
  assume sp: "SplitHostPort hp = Some (host, port)"
  have pre: "set p \<subseteq> set hp" if "before_last (CHR '':'') hp = Some p" for p
  proof -
    have "set (tl (dropWhile (\<lambda>x. x \<noteq> CHR '':'') (rev hp))) \<subseteq> set hp"
      by (metis (no_types, lifting) set_dropWhileD set_mp set_rev subsetI list.set_sel(2) tl_Nil)
    with that show ?thesis by (auto simp: before_last_def split: if_splits)
  qed
  have "set (before_first (CHR '']'') (tl hp)) \<subseteq> set hp"
    by (cases hp) (auto simp: before_first_def dest: set_takeWhileD)
  with sp pre show ?thesis
    by (auto simp: SplitHostPort_def Let_def split: option.splits if_splits)
qed

lemma remote_ip_chars: "set (remote_ip r) \<subseteq> set (RemoteAddr r)"
  by (auto simp: remote_ip_def dest: SplitHostPort_chars split: option.splits)

lemma IPKeyFunc_no_slash:
  "CHR ''/'' \<notin> set (RemoteAddr r) \<Longrightarrow> CHR ''/'' \<notin> set (IPKeyFunc trust r)"
  using IPKeyFunc_source [of trust r] remote_ip_chars [of r] ParseIP_no_slash [of "IPKeyFunc trust r"]
  by auto

subsection \<open>Properties\<close>

text \<open>Without trusted proxies, or when no proxy header holds an address, the key of a client
  is its host without the port, for plain and for bracketed hosts.\<close>

theorem ip_key_strips_port:
  assumes "trust \<longrightarrow> \<not> ParseIP_ok (TrimSpace (before_first (CHR '','') (req_hget r ''X-Forwarded-For''))) \<and>
      \<not> ParseIP_ok (TrimSpace (req_hget r ''X-Real-IP''))"
    and "CHR ''['' \<notin> set (host @ port)" and "CHR '']'' \<notin> set (host @ port)" and "CHR '':'' \<notin> set port"
    and "RemoteAddr r = CHR ''['' # host @ CHR '']'' # CHR '':'' # port \<or>
      (CHR '':'' \<notin> set host \<and> host \<noteq> [] \<and> RemoteAddr r = host @ CHR '':'' # port)"
  shows "IPKeyFunc trust r = host"
proof -
  have "remote_ip r = host"
    using assms(5) SplitHostPort_bracket [OF assms(2-4)] SplitHostPort_plain [of host port] assms(2-4)
    by (auto simp: remote_ip_def)
  with assms(1) show ?thesis by (auto simp: IPKeyFunc_def Let_def)
qed

definition sample_req :: "string \<Rightarrow> string \<Rightarrow> header \<Rightarrow> req" where
  "sample_req addr path h =
     \<lparr>Method = ''GET'', URL_Path = path, URL_String = path, URL_RequestURI = path,
      RequestURI = path, RemoteAddr = addr, ReqHeader = h, ContentLength = 0, Body = None\<rparr>"

theorem ip_key_strips_port_witness:
  "IPKeyFunc False (sample_req ''[::1]:8080'' ''/'' [(''X-Real-Ip'', [''1.2.3.4''])]) = ''::1''"
  by (rule ip_key_strips_port [where port = "''8080''"]) (simp_all add: sample_req_def)

text \<open>The keys of RouteKeyFunc tell clients and paths apart, with and without trusted
  proxies: an address that is taken from a header has parsed, so it has no slash.\<close>

theorem route_key_separates:
  assumes "CHR ''/'' \<notin> set (RemoteAddr r)" and "CHR ''/'' \<notin> set (RemoteAddr r')"
    and "URL_Path r = CHR ''/'' # p" and "URL_Path r' = CHR ''/'' # p'"
    and "RouteKeyFunc trust r = RouteKeyFunc trust r'"
  shows "IPKeyFunc trust r = IPKeyFunc trust r' \<and> URL_Path r = URL_Path r'"
proof -
  have "IPKeyFunc trust r @ CHR '':'' # CHR ''/'' # p = IPKeyFunc trust r' @ CHR '':'' # CHR ''/'' # p'"
    using assms(3-5) by (simp only: RouteKeyFunc_def)
  from route_key_inject [OF IPKeyFunc_no_slash [OF assms(1)] IPKeyFunc_no_slash [OF assms(2)] this]
  show ?thesis using assms(3,4) by simp
qed

theorem route_key_separates_witness:
  "RouteKeyFunc True (sample_req ''10.0.0.1:80'' ''/a'' []) \<noteq> RouteKeyFunc True (sample_req ''10.0.0.1:80'' ''/b'' [])"
proof
  assume eq: "RouteKeyFunc True (sample_req ''10.0.0.1:80'' ''/a'' []) =
    RouteKeyFunc True (sample_req ''10.0.0.1:80'' ''/b'' [])"
  have "URL_Path (sample_req ''10.0.0.1:80'' ''/a'' []) = URL_Path (sample_req ''10.0.0.1:80'' ''/b'' [])"
    using route_key_separates [OF _ _ _ _ eq, of "''a''" "''b''"] by (simp add: sample_req_def)
  then show False by (simp add: sample_req_def)
qed

end
