(* ===== verification/Windows.thy ===== *)
theory Windows
  imports Burst
begin

section \<open>What a burst counter computes\<close>

text \<open>
  The specification of \<open>src/burst.go\<close> as a machine of its own: a number per client and window,
  and a call is admitted as long as the number is below limit + burst. Over any store that
  counts whenever it is asked to, \<open>BurstCounter.Allow\<close> simulates it step by step, for any number of
  clients and windows at once; so \<open>src/memory_store.go\<close> and \<open>src/redis_store.go\<close> over a server that answers
  cannot be told apart by their verdicts.
\<close>

subsection \<open>Stores that do not fail\<close>

locale exact_store = store +
  fixes up :: "'a \<Rightarrow> bool"
  assumes incr_up: "up s \<Longrightarrow> okw w \<Longrightarrow> 0 \<le> count_of (live t s k) \<Longrightarrow> count_of (live t s k) < max_i64 \<Longrightarrow>
    Increment S t k w s = (r, s') \<Longrightarrow> \<not> isl r \<and> up s'"

interpretation mem_exact: exact_store memory_store mem_live "\<lambda>w. 0 \<le> w" "\<lambda>_. True"
proof (unfold_locales, goal_cases)
  case (1 s w t k r s')
  then show ?case using memory_Increment_Inr [of t k w s] by auto
qed

text \<open>A Redis key space in which only counters have been stored.\<close>

definition counters_only :: "kv \<Rightarrow> bool" where
  "counters_only m \<longleftrightarrow> (\<forall>k v d. m k = Some (v, d) \<longrightarrow> (\<exists>n. v = VInt n))"

lemma counters_only_incr:
  assumes "counters_only m" and "whole_seconds w"
    and "0 \<le> count_of (kv_live t m k)" and "count_of (kv_live t m k) < max_i64"
  shows "first_err (fst (spec_cmds t [Incr k, Expire k w] m)) = None \<and>
    counters_only (snd (spec_cmds t [Incr k, Expire k w] m))"
proof (cases "kv_at t m k")
  case None
  then show ?thesis
    using assms(1) whole_format_sec [OF assms(2)] whole_seconds_pos [OF assms(2)]
    by (auto simp: set_deadline_def redis_simps counters_only_def)
next
  case (Some vd)
  then obtain v d where vd: "kv_at t m k = Some (v, d)" by (cases vd) auto
  then have "m k = Some (v, d)" by (auto simp: kv_at_def split: option.splits if_splits)
  with assms(1) obtain n where n: "v = VInt n" unfolding counters_only_def by blast
  have "0 \<le> n" "n < max_i64" using assms(3,4) vd n by (auto simp: kv_live_def rval_int_def)
  with vd n kv_at_alive [OF vd] show ?thesis
    using assms(1) whole_format_sec [OF assms(2)] whole_seconds_pos [OF assms(2)]
    by (auto simp: set_deadline_def redis_simps counters_only_def)
qed

sublocale reliable_redis \<subseteq> rexact: exact_store "redis_store R" "\<lambda>t r k. kv_live t (keys r) k"
  whole_seconds "\<lambda>r. up r \<and> counters_only (keys r)"
proof (unfold_locales, goal_cases)
  case (1 s w t k r s')
  obtain e rs r' where ex: "Exec R t [Incr k, Expire k w] s = ((e, rs), r')" by (metis surj_pair)
  have "first_err (fst (spec_cmds t [Incr k, Expire k w] (keys s))) = None"
    and "counters_only (snd (spec_cmds t [Incr k, Expire k w] (keys s)))"
    using counters_only_incr [of "keys s" w t k] 1 by auto
  with exec_up [OF _ ex] 1 ex show ?case
    by (auto simp: redis_simps RedisStore_Increment_def)
qed

subsection \<open>The abstract counter\<close>

text \<open>Calls of several clients, each with its time, one after another.\<close>

fun run_clients ::
  "(string \<Rightarrow> gotime \<Rightarrow> 's \<Rightarrow> 'v \<times> 's) \<Rightarrow> (gotime \<times> string) list \<Rightarrow> 's \<Rightarrow> 'v list \<times> 's" where
  "run_clients allow [] s = ([], s)"
| "run_clients allow ((t, key) # cs) s =
     (case allow key t s of (ok, s1) \<Rightarrow> case run_clients allow cs s1 of (oks, s2) \<Rightarrow> (ok # oks, s2))"

definition window_step ::
  "int \<Rightarrow> duration \<Rightarrow> string \<Rightarrow> gotime \<Rightarrow> (string \<times> gotime \<Rightarrow> int) \<Rightarrow> bool \<times> (string \<times> gotime \<Rightarrow> int)" where
  "window_step L w key t cnt =
     (let i = (key, Time_Truncate t w) in (cnt i < L, cnt(i := cnt i + 1)))"

text \<open>In one expression: a call is admitted when fewer than \<open>L\<close> calls before it were of the same
  client and window.\<close>

definition same_window :: "duration \<Rightarrow> gotime \<times> string \<Rightarrow> gotime \<times> string \<Rightarrow> bool" where
  "same_window w c d \<longleftrightarrow> snd c = snd d \<and> Time_Truncate (fst c) w = Time_Truncate (fst d) w"

definition window_verdicts :: "int \<Rightarrow> duration \<Rightarrow> (gotime \<times> string) list \<Rightarrow> bool list" where
  "window_verdicts L w cs =
     map (\<lambda>i. int (length (filter (same_window w (cs ! i)) (take i cs))) < L) [0..<length cs]"

lemma window_run:
  "fst (run_clients (window_step L w) cs cnt) =
   map (\<lambda>i. cnt (snd (cs ! i), Time_Truncate (fst (cs ! i)) w) +
          int (length (filter (same_window w (cs ! i)) (take i cs))) < L) [0..<length cs]"
proof (induction cs arbitrary: cnt)
  case (Cons c cs)
  obtain t key where c: "c = (t, key)" by force
  have "fst (run_clients (window_step L w) (c # cs) cnt) =
      (cnt (key, Time_Truncate t w) < L) #
      fst (run_clients (window_step L w) cs (cnt((key, Time_Truncate t w) := cnt (key, Time_Truncate t w) + 1)))"
    by (simp add: c window_step_def Let_def case_prod_beta)
  also have "\<dots> = map (\<lambda>i. cnt (snd ((c # cs) ! i), Time_Truncate (fst ((c # cs) ! i)) w) +
      int (length (filter (same_window w ((c # cs) ! i)) (take i (c # cs)))) < L) [0..<length (c # cs)]"
    unfolding Cons.IH
    by (simp add: c upt_conv_Cons map_Suc_upt [symmetric] same_window_def del: upt_Suc) auto
  finally show ?case .
qed simp

lemma window_run_verdicts:
  "fst (run_clients (window_step L w) cs (\<lambda>_. 0)) = window_verdicts L w cs"
  by (simp add: window_run window_verdicts_def)

subsection \<open>The simulation\<close>

text \<open>A counter that keeps step with the machine, while its counts are in range, gives its verdicts.\<close>

lemma run_clients_simulates:
  assumes step: "\<And>s cnt key t ok s' ok' cnt'. rel s cnt \<Longrightarrow> cnt (key, Time_Truncate t w) < max_i64 \<Longrightarrow>
      allow key t s = (ok, s') \<Longrightarrow> window_step L w key t cnt = (ok', cnt') \<Longrightarrow> ok = ok' \<and> rel s' cnt'"
    and "rel s cnt" and "\<forall>i. cnt i + int (length cs) \<le> max_i64"
  shows "fst (run_clients allow cs s) = fst (run_clients (window_step L w) cs cnt)"
  using assms(2,3)
proof (induction cs arbitrary: s cnt)
  case (Cons c cs)
  obtain t key where c: "c = (t, key)" by force
  obtain ok s1 where one: "allow key t s = (ok, s1)" by force
  obtain ok' cnt1 where abs: "window_step L w key t cnt = (ok', cnt1)" by force
  have all: "cnt i + (1 + int (length cs)) \<le> max_i64" for i
    using Cons.prems(2) [rule_format, of i] by simp
  have "cnt (key, Time_Truncate t w) < max_i64"
    using all [of "(key, Time_Truncate t w)"] by linarith
  from step [OF Cons.prems(1) this one abs]
  have same: "ok = ok'" "rel s1 cnt1" by auto
  have "cnt1 i + int (length cs) \<le> max_i64" for i
    using abs all [of i] by (auto simp: window_step_def Let_def)
  then show ?case using Cons.IH [OF same(2)] same(1) by (simp add: c one abs case_prod_beta)
qed simp

lemma run_clients_verdicts:
  assumes "\<And>s cnt key t ok s' ok' cnt'. rel s cnt \<Longrightarrow> cnt (key, Time_Truncate t w) < max_i64 \<Longrightarrow>
      allow key t s = (ok, s') \<Longrightarrow> window_step L w key t cnt = (ok', cnt') \<Longrightarrow> ok = ok' \<and> rel s' cnt'"
    and "rel s (\<lambda>_. 0)" and "int (length cs) \<le> max_i64"
  shows "fst (run_clients allow cs s) = window_verdicts L w cs"
  using run_clients_simulates [of rel w allow L, OF assms(1,2)] assms(3) by (simp add: window_run_verdicts)

lemma window_starts_apart:
  assumes "whole_seconds w" and "Time_Unix (Time_Truncate t w) = Time_Unix (Time_Truncate t' w)"
  shows "Time_Truncate t w = Time_Truncate t' w"
proof -
  obtain n where n: "w = n * second" "0 < n" using assms(1) by (rule whole_secondsE)
  have start: "Time_Truncate u w = (u div w * n) * second" for u
    using n by (simp add: Time_Truncate_def minus_mod_eq_div_mult)
  have "((a * second) - unix_epoch) div second = a - 62135596800" for a :: int
    by (simp add: unix_epoch_def)
  with assms(2) show ?thesis unfolding start Time_Unix_def by simp
qed

context exact_store
begin

text \<open>Every count of the abstract machine is the one of its key in the store.\<close>

definition burst_rel :: "BurstCounter \<Rightarrow> 'a \<Rightarrow> (string \<times> gotime \<Rightarrow> int) \<Rightarrow> bool" where
  "burst_rel b s cnt \<longleftrightarrow> up s \<and>
     (\<forall>key t. let wst = Time_Truncate t (bc_window b)
              in winv b key wst s \<and> wcnt key wst s = cnt (key, wst) \<and> 0 \<le> cnt (key, wst))"

lemma burst_rel_fresh:
  assumes "up s" and "\<And>t k. live t s k = None"
  shows "burst_rel b s (\<lambda>_. 0)"
  using assms fresh_key by (simp add: burst_rel_def Let_def)

lemma burst_simulates:
  assumes rel: "burst_rel b s cnt" and w: "whole_seconds (bc_window b)" "okw (bc_window b)"
    and small: "cnt (key, Time_Truncate t (bc_window b)) < max_i64"
    and lim: "0 \<le> bc_limit b + bc_burst b" "bc_limit b + bc_burst b \<le> max_i64"
    and run: "burst_allow S b key t s = (ok, s')"
    and abs: "window_step (bc_limit b + bc_burst b) (bc_window b) key t cnt = (ok', cnt')"
  shows "ok = ok' \<and> burst_rel b s' cnt'"
proof -
  let ?w = "bc_window b" and ?wst = "Time_Truncate t (bc_window b)"
  have inw: "in_window b ?wst t" using whole_seconds_pos [OF w(1)] by (simp add: in_window_def)
  have here: "winv b key ?wst s" "wcnt key ?wst s = cnt (key, ?wst)" "0 \<le> cnt (key, ?wst)"
    using rel by (auto simp: burst_rel_def Let_def)
  obtain r where inc: "Increment S t (window_key key ?wst) ?w s = (r, s')"
    and ok: "ok = (case r of Inl _ \<Rightarrow> False | Inr n \<Rightarrow> n \<le> i64 (bc_limit b + bc_burst b))"
    using run burst_key_in_window [OF inw] by (auto simp: burst_allow_cases split: prod.splits sum.splits)
  have "live t s (window_key key ?wst) = live ?wst s (window_key key ?wst)"
    using in_window_bounds [OF inw] by (intro live_in_interval [OF here(1)]) auto
  then have cnt_t: "count_of (live t s (window_key key ?wst)) = cnt (key, ?wst)"
    using here(2) by (simp add: kcnt_def)
  have up': "\<not> isl r" "up s'"
    using incr_up [OF _ w(2) _ _ inc] cnt_t here(3) small rel by (auto simp: burst_rel_def)
  then obtain n where n: "r = Inr n" by (cases r) auto
  note step = incr_in_window [OF here(1) inw w(2) _ inc]
  have n_val: "n = cnt (key, ?wst) + 1" "wcnt key ?wst s' = n" "winv b key ?wst s'"
    using step(1) step(2) [OF _ n] here(2) small by auto
  have "ok \<longleftrightarrow> cnt (key, ?wst) < bc_limit b + bc_burst b"
    using ok n n_val(1) lim by (simp add: i64_id add1_zle_eq)
  moreover have "winv b key' (Time_Truncate t' ?w) s' \<and>
      wcnt key' (Time_Truncate t' ?w) s' = cnt' (key', Time_Truncate t' ?w) \<and>
      0 \<le> cnt' (key', Time_Truncate t' ?w)" for key' t'
  proof (cases "(key', Time_Truncate t' ?w) = (key, ?wst)")
    case True
    with abs n_val here(3) show ?thesis by (auto simp: window_step_def Let_def)
  next
    case False
    then have "window_key key ?wst \<noteq> window_key key' (Time_Truncate t' ?w)"
      using window_starts_apart [OF w(1), of t t'] by (auto simp: window_key_inject)
    with False abs rel incr_other_key [OF inc, of "window_key key' (Time_Truncate t' ?w)"] show ?thesis
      by (auto simp: window_step_def burst_rel_def Let_def)
  qed
  ultimately show ?thesis
    using abs up' by (auto simp: burst_rel_def window_step_def Let_def)
qed

lemma burst_verdicts:
  assumes "up s" and "\<And>t k. live t s k = None" and "whole_seconds (bc_window b)" and "okw (bc_window b)"
    and "0 \<le> bc_limit b + bc_burst b" and "bc_limit b + bc_burst b \<le> max_i64"
    and "int (length cs) \<le> max_i64"
  shows "fst (run_clients (burst_allow S b) cs s) = window_verdicts (bc_limit b + bc_burst b) (bc_window b) cs"
proof (rule run_clients_verdicts [where rel = "burst_rel b"])
  show "ok = ok' \<and> burst_rel b s' cnt'" if "burst_rel b s cnt" "cnt (key, Time_Truncate t (bc_window b)) < max_i64"
      "burst_allow S b key t s = (ok, s')"
      "window_step (bc_limit b + bc_burst b) (bc_window b) key t cnt = (ok', cnt')" for s cnt key t ok s' ok' cnt'
    using burst_simulates [OF that(1) assms(3,4) that(2) assms(5,6) that(3,4)] .
qed (use burst_rel_fresh [OF assms(1,2)] assms(7) in simp_all)

end

context reliable_redis
begin

lemma redis_burst_verdicts:
  assumes "up r" and "keys r = Map.empty" and "whole_seconds (bc_window b)"
    and "0 \<le> bc_limit b + bc_burst b" and "bc_limit b + bc_burst b \<le> max_i64"
    and "int (length cs) \<le> max_i64"
  shows "fst (run_clients (burst_allow (redis_store R) b) cs r) =
    window_verdicts (bc_limit b + bc_burst b) (bc_window b) cs"
  using assms by (intro rexact.burst_verdicts) (simp_all add: counters_only_def kv_live_def kv_at_def)

end

lemma mem_burst_verdicts:
  assumes "whole_seconds (bc_window b)" and "0 \<le> bc_limit b + bc_burst b"
    and "bc_limit b + bc_burst b \<le> max_i64" and "int (length cs) \<le> max_i64"
  shows "fst (run_clients (burst_allow memory_store b) cs NewMemoryStore) =
    window_verdicts (bc_limit b + bc_burst b) (bc_window b) cs"
  using mem_exact.burst_verdicts [of NewMemoryStore b cs] assms whole_seconds_pos [OF assms(1)]
  by (simp add: mem_live_def NewMemoryStore_def)

subsection \<open>Properties\<close>

text \<open>C4. For any calls of any number of clients at any times, a BurstCounter with a window of whole
  seconds admits exactly the calls before which fewer than limit + burst calls were of the same
  client and window, over the in-memory store and over a Redis that answers alike.\<close>

theorem burst_stores_equivalent:
  assumes "reliable_redis R keys up" and "up r" and "keys r = Map.empty"
    and "whole_seconds (bc_window b)" and "0 \<le> bc_limit b + bc_burst b"
    and "bc_limit b + bc_burst b \<le> max_i64" and "int (length cs) \<le> max_i64"
  shows "fst (run_clients (burst_allow memory_store b) cs NewMemoryStore) =
      window_verdicts (bc_limit b + bc_burst b) (bc_window b) cs \<and>
    fst (run_clients (burst_allow (redis_store R) b) cs r) =
      fst (run_clients (burst_allow memory_store b) cs NewMemoryStore)"
  using mem_burst_verdicts [OF assms(4-7)] reliable_redis.redis_burst_verdicts [OF assms(1-7)] by simp

text \<open>Two clients and two windows, one second each, out of order.\<close>

theorem burst_stores_equivalent_witness:
  "fst (run_clients (burst_allow (redis_store ref_client) (NewBurstCounter 1 1 second))
      [(unix_epoch + 5, ''a''), (unix_epoch, ''b''), (unix_epoch + 7, ''a''), (unix_epoch + second, ''a''),
       (unix_epoch + 6, ''a''), (unix_epoch + 9, ''b'')] new_redis) = [True, True, True, True, False, True]"
proof -
  let ?cs = "[(unix_epoch + 5, ''a''), (unix_epoch, ''b''), (unix_epoch + 7, ''a''), (unix_epoch + second, ''a''),
       (unix_epoch + 6, ''a''), (unix_epoch + 9, ''b'')]"
  have "fst (run_clients (burst_allow memory_store (NewBurstCounter 1 1 second)) ?cs NewMemoryStore) =
      window_verdicts 2 second ?cs \<and>
    fst (run_clients (burst_allow (redis_store ref_client) (NewBurstCounter 1 1 second)) ?cs new_redis) =
      fst (run_clients (burst_allow memory_store (NewBurstCounter 1 1 second)) ?cs NewMemoryStore)"
    using burst_stores_equivalent [OF ref_up.reliable_redis_axioms, of new_redis "NewBurstCounter 1 1 second" ?cs]
    by (simp add: new_redis_def NewBurstCounter_def whole_seconds_def)
  moreover have "window_verdicts 2 second ?cs = [True, True, True, True, False, True]"
    by (simp add: window_verdicts_def same_window_def Time_Truncate_def unix_epoch_def upt_rec)
  ultimately show ?thesis by simp
qed

end
