(* ===== verification/Quota.thy ===== *)
theory Quota
  imports KeyFunc Windows
begin

section \<open>Quotas\<close>

text \<open>
  \<open>src/quota.go\<close> and \<open>src/quota_middleware.go\<close>: named limits counted one after another in a
  Store, under a key made of the quota's name and the client's. The code takes an increment
  back with a method \<open>Decrement\<close> that the Store interface does not have; it is the parameter
  \<open>dec\<close>, whose error the code ignores. Nothing is assumed of it: what is proved holds whatever
  it does to the store. \<open>clk\<close> is the clock each call to the store reads.
\<close>

record Quota =
  q_Name :: string
  q_Limit :: int
  q_Window :: duration

record QuotaManager =
  qm_keyFn :: KeyFunc
  qm_quotas :: "Quota list"

definition NewQuotaManager :: "KeyFunc option \<Rightarrow> Quota list \<Rightarrow> QuotaManager" where
  "NewQuotaManager keyFn quotas =
     \<lparr>qm_keyFn = (case keyFn of None \<Rightarrow> defaultKeyFunc | Some f \<Rightarrow> f), qm_quotas = quotas\<rparr>"

definition quota_key :: "Quota \<Rightarrow> string \<Rightarrow> string" where
  "quota_key q requestKey = ''quota:'' @ q_Name q @ '':'' @ requestKey"

fun check_quotas ::
  "'s Store \<Rightarrow> (gotime \<Rightarrow> string \<Rightarrow> 's \<Rightarrow> 's) \<Rightarrow> ('s \<Rightarrow> gotime) \<Rightarrow> Quota list \<Rightarrow> string \<Rightarrow> 's \<Rightarrow>
   (Quota option \<times> err option) \<times> 's" where
  "check_quotas S dec clk [] requestKey s = ((None, None), s)"
| "check_quotas S dec clk (q # qs) requestKey s =
     (let key = quota_key q requestKey
      in case Increment S (clk s) key (q_Window q) s of
           (Inl e, s1) \<Rightarrow> ((None, Some (''quota '' @ q_Name q @ '': '' @ e)), s1)
         | (Inr count, s1) \<Rightarrow>
             if q_Limit q < count then ((Some q, None), dec (clk s1) key s1)
             else check_quotas S dec clk qs requestKey s1)"

definition QuotaManager_CheckAll ::
  "'s Store \<Rightarrow> (gotime \<Rightarrow> string \<Rightarrow> 's \<Rightarrow> 's) \<Rightarrow> ('s \<Rightarrow> gotime) \<Rightarrow> QuotaManager \<Rightarrow> string \<Rightarrow> 's \<Rightarrow>
   (Quota option \<times> err option) \<times> 's" where
  "QuotaManager_CheckAll S dec clk qm requestKey s =
     check_quotas S dec clk (qm_quotas qm) requestKey s"

fun quotas_remaining ::
  "'s Store \<Rightarrow> ('s \<Rightarrow> gotime) \<Rightarrow> Quota list \<Rightarrow> string \<Rightarrow> string \<Rightarrow> 's \<Rightarrow> (err + int) \<times> 's" where
  "quotas_remaining S clk [] quotaName requestKey s = (Inl (''quota '' @ Quote quotaName @ '' not found''), s)"
| "quotas_remaining S clk (q # qs) quotaName requestKey s =
     (if q_Name q \<noteq> quotaName then quotas_remaining S clk qs quotaName requestKey s
      else (case Get S (clk s) (quota_key q requestKey) s of
              (Inl e, s1) \<Rightarrow> (Inl e, s1)
            | (Inr count, s1) \<Rightarrow>
                let remaining = i64 (q_Limit q - count)
                in (Inr (if remaining < 0 then 0 else remaining), s1)))"

definition QuotaManager_Remaining ::
  "'s Store \<Rightarrow> ('s \<Rightarrow> gotime) \<Rightarrow> QuotaManager \<Rightarrow> string \<Rightarrow> string \<Rightarrow> 's \<Rightarrow> (err + int) \<times> 's" where
  "QuotaManager_Remaining S clk qm quotaName requestKey s =
     quotas_remaining S clk (qm_quotas qm) quotaName requestKey s"

subsection \<open>WithQuotaManager\<close>

type_synonym ('w, 's) QuotaLimitExceededHandler = "Quota \<Rightarrow> ('w, 's) handler"

definition defaultQuotaLimitExceededHandler ::
  "'w rwriter \<Rightarrow> ('w, 's) QuotaLimitExceededHandler" where
  "defaultQuotaLimitExceededHandler W q r w s =
     (r, http_Error W (''quota '' @ Quote (q_Name q) @ '' exceeded'') StatusTooManyRequests
           (rw_set W ''X-Quota-Exceeded'' (q_Name q) w), s)"

fun quota_headers ::
  "'w rwriter \<Rightarrow> ('s \<Rightarrow> gotime) \<Rightarrow> 's Store \<Rightarrow> QuotaManager \<Rightarrow> Quota list \<Rightarrow> string \<Rightarrow> 'w \<Rightarrow> 's \<Rightarrow> 'w \<times> 's"
where
  "quota_headers W clk S qm [] requestKey w s = (w, s)"
| "quota_headers W clk S qm (q # qs) requestKey w s =
     (case QuotaManager_Remaining S clk qm (q_Name q) requestKey s of
        (Inl _, s1) \<Rightarrow> quota_headers W clk S qm qs requestKey w s1
      | (Inr remaining, s1) \<Rightarrow>
          quota_headers W clk S qm qs requestKey
            (rw_set W (''X-Quota-'' @ q_Name q @ ''-Remaining'') (Itoa remaining) w) s1)"

definition WithQuotaManager ::
  "'w rwriter \<Rightarrow> ('s \<Rightarrow> gotime) \<Rightarrow> 's Store \<Rightarrow> (gotime \<Rightarrow> string \<Rightarrow> 's \<Rightarrow> 's) \<Rightarrow> QuotaManager \<Rightarrow>
   ('w, 's) QuotaLimitExceededHandler option \<Rightarrow> ('w, 's) handler \<Rightarrow> ('w, 's) handler" where
  "WithQuotaManager W clk S dec qm onExceeded next r w s =
     (let onExceeded = (case onExceeded of
                          None \<Rightarrow> defaultQuotaLimitExceededHandler W | Some h \<Rightarrow> h);
          requestKey = qm_keyFn qm r
      in case QuotaManager_CheckAll S dec clk qm requestKey s of ((exceeded, e), s1) \<Rightarrow>
           (case e of
              Some _ \<Rightarrow> (r, http_Error W ''internal rate limit error'' StatusInternalServerError w, s1)
            | None \<Rightarrow>
                (case exceeded of
                   Some q \<Rightarrow> onExceeded q r w s1
                 | None \<Rightarrow>
                     (case quota_headers W clk S qm (qm_quotas qm) requestKey w s1 of
                        (w1, s2) \<Rightarrow> next r w1 s2))))"

subsection \<open>Counting a request against all quotas\<close>

lemma quota_key_inject:
  "quota_key q rk = quota_key q' rk \<longleftrightarrow> q_Name q = q_Name q'"
  by (simp add: quota_key_def)

lemma check_quotas_member:
  "check_quotas S dec clk qs rk s = ((Some q, e), s') \<Longrightarrow> q \<in> List.set qs"
  by (induction qs arbitrary: s) (auto simp: Let_def split: prod.splits sum.splits if_splits)

definition quota_pass ::
  "'s Store \<Rightarrow> (gotime \<Rightarrow> string \<Rightarrow> 's \<Rightarrow> 's) \<Rightarrow> QuotaManager \<Rightarrow> string \<Rightarrow> gotime \<Rightarrow> 's \<Rightarrow> bool \<times> 's" where
  "quota_pass S dec qm rk t s =
     (case QuotaManager_CheckAll S dec (\<lambda>_. t) qm rk s of (res, s') \<Rightarrow> (res = (None, None), s'))"

lemma check_quotas_append:
  "check_quotas S dec clk qs rk s = ((None, None), s1) \<Longrightarrow>
   check_quotas S dec clk (qs @ qs') rk s = check_quotas S dec clk qs' rk s1"
  by (induction qs arbitrary: s) (auto simp: Let_def split: prod.splits sum.splits if_splits)

context store
begin

text \<open>Quotas of other names leave a quota's count alone, up to the call of \<open>Decrement\<close>.\<close>

lemma check_quotas_other:
  assumes "\<forall>q'\<in>List.set qs. q_Name q' \<noteq> q_Name p"
    and "check_quotas S dec (\<lambda>_. t) qs rk s = ((Some q, e), s')"
  shows "\<exists>s2. s' = dec t (quota_key q rk) s2 \<and>
    kcnt (quota_key p rk) lo s2 = kcnt (quota_key p rk) lo s"
  using assms
proof (induction qs arbitrary: s)
  case (Cons q' qs)
  have neq: "quota_key q' rk \<noteq> quota_key p rk" using Cons.prems(1) by (simp add: quota_key_inject)
  obtain r s1 where one: "Increment S t (quota_key q' rk) (q_Window q') s = (r, s1)" by force
  note same = incr_other_key(2) [OF one neq]
  show ?case
    using Cons.IH [of s1] Cons.prems same by (auto simp: one Let_def split: sum.splits if_splits)
qed simp

text \<open>The quotas before the one that refuses have counted the refused request.\<close>

lemma check_quotas_refused:
  assumes "distinct (map q_Name qs)" and "qs = pre @ q # post" and "p \<in> List.set pre" and "okw (q_Window p)"
    and "lo \<le> t" and "t \<le> lo + q_Window p"
    and "kinv (quota_key p rk) lo (lo + q_Window p) s" and "kcnt (quota_key p rk) lo s < max_i64"
    and "check_quotas S dec (\<lambda>_. t) qs rk s = ((Some q, e), s')"
  shows "\<exists>s2. s' = dec t (quota_key q rk) s2 \<and>
    kcnt (quota_key p rk) lo s2 = kcnt (quota_key p rk) lo s + 1"
  using assms(1,2,3,7-9)
proof (induction pre arbitrary: s qs)
  case (Cons p' pre)
  obtain r s1 where one: "Increment S t (quota_key p' rk) (q_Window p') s = (r, s1)" by force
  have neq: "q \<noteq> p'" using Cons.prems(1,2) by auto
  have rest: "check_quotas S dec (\<lambda>_. t) (pre @ q # post) rk s1 = ((Some q, e), s')"
    and r: "\<exists>n. r = Inr n"
    using Cons.prems(2,6) one neq by (auto simp: Let_def split: sum.splits if_splits)
  have dist: "distinct (map q_Name (pre @ q # post))" using Cons.prems(1,2) by simp
  show ?case
  proof (cases "p = p'")
    case True
    obtain n where n: "r = Inr n" using r by blast
    have "kcnt (quota_key p rk) lo s1 = kcnt (quota_key p rk) lo s + 1"
      using incr_in_interval(2) [OF Cons.prems(4) assms(5,6,4) order.refl Cons.prems(5)
          one [unfolded True [symmetric]], of n] n by simp
    moreover have "\<forall>q'\<in>List.set (pre @ q # post). q_Name q' \<noteq> q_Name p"
      using Cons.prems(1,2) True by (auto, metis image_eqI, metis image_eqI)
    ultimately show ?thesis using check_quotas_other [OF _ rest, of p lo] by auto
  next
    case False
    then have mem: "p \<in> List.set pre" using Cons.prems(3) by simp
    have "quota_key p' rk \<noteq> quota_key p rk"
      using Cons.prems(1,2) mem by (auto simp: quota_key_inject rev_image_eqI)
    note oth = incr_other_key [OF one this]
    show ?thesis
      using Cons.IH [OF dist refl mem, of s1] Cons.prems(4,5) rest oth by simp
  qed
qed simp

lemma quota_earlier_counted:
  assumes "distinct (map q_Name (qm_quotas qm))" and "qm_quotas qm = pre @ q # post" and "p \<in> List.set pre"
    and "okw (q_Window p)" and "lo \<le> t" and "t \<le> lo + q_Window p"
    and "kinv (quota_key p rk) lo (lo + q_Window p) s" and "kcnt (quota_key p rk) lo s < max_i64"
    and "QuotaManager_CheckAll S dec (\<lambda>_. t) qm rk s = ((Some q, e), s')"
  shows "\<exists>s2. s' = dec t (quota_key q rk) s2 \<and>
    count_of (live lo s2 (quota_key p rk)) = count_of (live lo s (quota_key p rk)) + 1"
  using check_quotas_refused [OF assms(1-8)] assms(9) by (simp add: QuotaManager_CheckAll_def kcnt_def)

text \<open>A quota at count \<open>n\<close> at a time of its window.\<close>

definition quota_at :: "gotime \<Rightarrow> gotime \<Rightarrow> string \<Rightarrow> int \<Rightarrow> 's \<Rightarrow> Quota \<Rightarrow> bool" where
  "quota_at lo t rk n s q \<longleftrightarrow> okw (q_Window q) \<and> lo \<le> t \<and> t \<le> lo + q_Window q \<and>
     kinv (quota_key q rk) lo (lo + q_Window q) s \<and> kcnt (quota_key q rk) lo s = n"

lemma quota_at_time: "quota_at lo t rk n s q \<Longrightarrow> lo \<le> t' \<Longrightarrow> t' \<le> lo + q_Window q \<Longrightarrow> quota_at lo t' rk n s q"
  by (simp add: quota_at_def)

end

context exact_store
begin

lemma quota_counts:
  assumes "up s" and "quota_at lo t rk n s q" and "0 \<le> n" and "n < max_i64"
    and "Increment S t (quota_key q rk) (q_Window q) s = (r, s1)"
  shows "r = Inr (n + 1) \<and> up s1 \<and> quota_at lo t rk (n + 1) s1 q"
proof -
  have q: "okw (q_Window q)" "lo \<le> t" "t \<le> lo + q_Window q" "kinv (quota_key q rk) lo (lo + q_Window q) s"
    "kcnt (quota_key q rk) lo s = n"
    using assms(2) by (simp_all add: quota_at_def)
  note inc = incr_in_interval [OF q(4,2,3,1) order.refl _ assms(5)]
  have "live t s (quota_key q rk) = live lo s (quota_key q rk)" by (rule live_in_interval [OF q(4,2,3)])
  then have "\<not> isl r \<and> up s1" using incr_up [OF assms(1) q(1) _ _ assms(5)] q(5) assms(3,4) by (simp add: kcnt_def)
  then show ?thesis using inc q assms(4) by (cases r) (auto simp: quota_at_def)
qed

lemma quota_other_at:
  assumes "Increment S t k w s = (r, s1)" and "k \<noteq> quota_key q rk" and "quota_at lo t' rk n s q"
  shows "quota_at lo t' rk n s1 q"
  using incr_other_key [OF assms(1,2)] assms(3) by (simp add: quota_at_def)

lemma check_quotas_other_at:
  assumes "quota_at lo t' rk m s q" and "\<forall>q'\<in>List.set qs. quota_key q' rk \<noteq> quota_key q rk"
    and "check_quotas S dec (\<lambda>_. t) qs rk s = ((None, None), s')"
  shows "quota_at lo t' rk m s' q"
  using assms
proof (induction qs arbitrary: s)
  case (Cons q' qs)
  obtain r s1 where one: "Increment S t (quota_key q' rk) (q_Window q') s = (r, s1)" by force
  have "quota_at lo t' rk m s1 q" using quota_other_at [OF one _ Cons.prems(1)] Cons.prems(2) by simp
  with Cons one show ?case by (auto simp: Let_def split: sum.splits if_splits)
qed simp

text \<open>A request that no quota refuses is counted by all of them, and only by them.\<close>

lemma check_quotas_pass:
  assumes "0 \<le> n" and "n < max_i64" and "distinct (map q_Name (qs @ ps))" and "up s"
    and "\<forall>q\<in>List.set (qs @ ps). quota_at lo t rk n s q" and "\<forall>q\<in>List.set qs. n < q_Limit q"
  shows "\<exists>s1. check_quotas S dec (\<lambda>_. t) qs rk s = ((None, None), s1) \<and> up s1 \<and>
    (\<forall>q\<in>List.set qs. quota_at lo t rk (n + 1) s1 q) \<and> (\<forall>q\<in>List.set ps. quota_at lo t rk n s1 q)"
  using assms(3-6)
proof (induction qs arbitrary: s ps)
  case (Cons q qs)
  obtain r s1 where one: "Increment S t (quota_key q rk) (q_Window q) s = (r, s1)" by force
  have c: "r = Inr (n + 1)" "up s1" "quota_at lo t rk (n + 1) s1 q"
    using quota_counts [OF Cons.prems(2) _ assms(1,2) one, of lo] Cons.prems(3) by simp_all
  have neq: "quota_key q rk \<noteq> quota_key q' rk" if "q' \<in> List.set (qs @ ps)" for q'
    using Cons.prems(1) that by (auto simp: quota_key_inject rev_image_eqI)
  have at: "\<forall>q'\<in>List.set (qs @ ps). quota_at lo t rk n s1 q'"
    using quota_other_at [OF one neq] Cons.prems(3) by simp
  have others: "\<forall>q'\<in>List.set qs. quota_key q' rk \<noteq> quota_key q rk" using neq by fastforce
  have "distinct (map q_Name (qs @ ps))" using Cons.prems(1) by simp
  from Cons.IH [OF this c(2) at] Cons.prems(4) obtain s2 where
    s2: "check_quotas S dec (\<lambda>_. t) qs rk s1 = ((None, None), s2)" "up s2"
      "\<forall>q\<in>List.set qs. quota_at lo t rk (n + 1) s2 q" "\<forall>q\<in>List.set ps. quota_at lo t rk n s2 q" by auto
  have "\<not> q_Limit q < n + 1" using Cons.prems(4) by simp
  with one c(1) s2 check_quotas_other_at [OF c(3) others s2(1)] show ?case by (auto simp: Let_def)
qed auto

lemma quotas_pass:
  assumes "0 \<le> n" and "n + int (length ts) \<le> max_i64" and "distinct (map q_Name (qm_quotas qm))" and "up s"
    and "\<forall>q\<in>List.set (qm_quotas qm). quota_at lo lo rk n s q \<and> n + int (length ts) \<le> q_Limit q"
    and "\<forall>t\<in>List.set ts. \<forall>q\<in>List.set (qm_quotas qm). lo \<le> t \<and> t \<le> lo + q_Window q"
    and "run_calls (quota_pass S dec qm rk) ts s = (oks, s')"
  shows "oks = replicate (length ts) True \<and> up s' \<and>
    (\<forall>q\<in>List.set (qm_quotas qm). quota_at lo lo rk (n + int (length ts)) s' q)"
  using assms
proof (induction ts arbitrary: n s oks)
  case (Cons t ts)
  have at: "\<forall>q\<in>List.set (qm_quotas qm @ []). quota_at lo t rk n s q"
    using Cons.prems(5,6) quota_at_time by auto
  have lim: "n < max_i64" "\<forall>q\<in>List.set (qm_quotas qm). n < q_Limit q" using Cons.prems(2,5) by auto
  obtain s1 where one: "check_quotas S dec (\<lambda>_. t) (qm_quotas qm) rk s = ((None, None), s1)" "up s1"
    "\<forall>q\<in>List.set (qm_quotas qm). quota_at lo t rk (n + 1) s1 q"
    using check_quotas_pass [OF Cons.prems(1) lim(1) _ Cons.prems(4) at lim(2)] Cons.prems(3) by auto
  have "quota_pass S dec qm rk t s = (True, s1)"
    by (simp add: quota_pass_def QuotaManager_CheckAll_def one(1))
  then obtain oks2 where rest: "run_calls (quota_pass S dec qm rk) ts s1 = (oks2, s')" "oks = True # oks2"
    using Cons.prems(7) by (auto split: prod.splits)
  have "\<forall>q\<in>List.set (qm_quotas qm). quota_at lo lo rk (n + 1) s1 q \<and> n + 1 + int (length ts) \<le> q_Limit q"
    using one(3) Cons.prems(5) by (auto simp: quota_at_def)
  from Cons.IH [OF _ _ Cons.prems(3) one(2) this _ rest(1)] Cons.prems(1,2,6) rest(2)
  show ?case by (simp add: algebra_simps)
qed simp

lemma quota_refuses:
  assumes "0 \<le> n" and "n < max_i64" and "distinct (map q_Name (pre @ q # post))" and "up s"
    and "\<forall>p\<in>List.set (pre @ q # post). quota_at lo t rk n s p" and "\<forall>p\<in>List.set pre. n < q_Limit p"
    and "q_Limit q = n" and "check_quotas S dec (\<lambda>_. t) (pre @ q # post) rk s = (res, s')"
  shows "res = (Some q, None) \<and> (\<exists>s2. s' = dec t (quota_key q rk) s2 \<and>
    (\<forall>p\<in>List.set pre. quota_at lo t rk (n + 1) s2 p) \<and> quota_at lo t rk (n + 1) s2 q \<and>
    (\<forall>p\<in>List.set post. quota_at lo t rk n s2 p))"
proof -
  obtain s1 where one: "check_quotas S dec (\<lambda>_. t) pre rk s = ((None, None), s1)" "up s1"
    "\<forall>p\<in>List.set pre. quota_at lo t rk (n + 1) s1 p" "\<forall>p\<in>List.set (q # post). quota_at lo t rk n s1 p"
    using check_quotas_pass [OF assms(1-5,6)] by blast
  obtain r s2 where two: "Increment S t (quota_key q rk) (q_Window q) s1 = (r, s2)" by force
  have c: "r = Inr (n + 1)" "quota_at lo t rk (n + 1) s2 q"
    using quota_counts [OF one(2) _ assms(1,2) two, of lo] one(4) by simp_all
  have neq: "quota_key q rk \<noteq> quota_key p rk" if "p \<in> List.set (pre @ post)" for p
    using assms(3) that by (auto simp: quota_key_inject rev_image_eqI)
  have "\<forall>p\<in>List.set pre. quota_at lo t rk (n + 1) s2 p" "\<forall>p\<in>List.set post. quota_at lo t rk n s2 p"
    using quota_other_at [OF two neq] one(3,4) by simp_all
  with assms(7,8) c two check_quotas_append [OF one(1), of "q # post"] show ?thesis
    by (auto simp: Let_def)
qed

lemma quota_first:
  assumes "up s" and "distinct (map q_Name (qm_quotas qm))" and qm: "qm_quotas qm = pre @ q # post"
    and "0 \<le> q_Limit q" and "q_Limit q < max_i64"
    and "\<forall>p\<in>List.set (qm_quotas qm). okw (q_Window p) \<and> q_Limit q \<le> q_Limit p \<and> live lo s (quota_key p rk) = None"
    and "\<forall>p\<in>List.set pre. q_Limit q < q_Limit p"
    and "\<forall>u\<in>List.set (ts @ [t]). \<forall>p\<in>List.set (qm_quotas qm). lo \<le> u \<and> u \<le> lo + q_Window p"
    and "int (length ts) = q_Limit q"
    and "run_calls (quota_pass S dec qm rk) ts s = (oks, s1)"
    and "QuotaManager_CheckAll S dec (\<lambda>_. t) qm rk s1 = (res, s')"
  shows "oks = replicate (length ts) True \<and> res = (Some q, None) \<and>
    (\<exists>s2. s' = dec t (quota_key q rk) s2 \<and>
      (\<forall>p\<in>List.set pre. count_of (live lo s2 (quota_key p rk)) = q_Limit q + 1) \<and>
      count_of (live lo s2 (quota_key q rk)) = q_Limit q + 1 \<and>
      (\<forall>p\<in>List.set post. count_of (live lo s2 (quota_key p rk)) = q_Limit q))"
proof -
  have "\<forall>p\<in>List.set (qm_quotas qm). quota_at lo lo rk 0 s p \<and> 0 + int (length ts) \<le> q_Limit p"
    using assms(6,9) okw_nonneg fresh_key by (fastforce simp: quota_at_def)
  with quotas_pass [OF order.refl _ assms(2,1) this _ assms(10)] assms(5,8,9)
  have one: "oks = replicate (length ts) True" "up s1"
    "\<forall>p\<in>List.set (qm_quotas qm). quota_at lo lo rk (q_Limit q) s1 p" by auto
  then have at: "\<forall>p\<in>List.set (pre @ q # post). quota_at lo t rk (q_Limit q) s1 p"
    using assms(8) by (auto simp: qm intro: quota_at_time)
  have run: "check_quotas S dec (\<lambda>_. t) (pre @ q # post) rk s1 = (res, s')"
    using assms(11) by (simp add: QuotaManager_CheckAll_def qm)
  from quota_refuses [OF assms(4,5) assms(2) [unfolded qm] one(2) at assms(7) refl run] one(1)
  show ?thesis by (auto simp: quota_at_def kcnt_def)
qed

end

subsection \<open>Properties\<close>

text \<open>C16. Quotas of distinct names over a store that does not fail (the in-memory store, or Redis
  that answers, with windows of whole seconds), none of them counted yet for a client, with limits that
  are not negative and not the largest int64: of the client's calls, all within a window of every quota,
  the first ones, as many as the smallest limit, pass, and the next one is refused, and by the first
  quota in the list with that limit. When the code then calls Decrement, whatever that does, the quota
  that refuses and those before it have counted the refused call, and those after it have not.\<close>

theorem quota_first_refusal:
  assumes "exact_store S live okw up" and "up s" and "distinct (map q_Name (qm_quotas qm))"
    and "qm_quotas qm = pre @ q # post" and "0 \<le> q_Limit q" and "q_Limit q < max_i64"
    and "\<forall>p\<in>List.set (qm_quotas qm). okw (q_Window p) \<and> q_Limit q \<le> q_Limit p \<and> live lo s (quota_key p rk) = None"
    and "\<forall>p\<in>List.set pre. q_Limit q < q_Limit p"
    and "\<forall>u\<in>List.set (ts @ [t]). \<forall>p\<in>List.set (qm_quotas qm). lo \<le> u \<and> u \<le> lo + q_Window p"
    and "int (length ts) = q_Limit q"
    and "run_calls (quota_pass S dec qm rk) ts s = (oks, s1)"
    and "QuotaManager_CheckAll S dec (\<lambda>_. t) qm rk s1 = (res, s')"
  shows "oks = replicate (length ts) True \<and> res = (Some q, None) \<and>
    (\<exists>s2. s' = dec t (quota_key q rk) s2 \<and>
      (\<forall>p\<in>List.set pre. count_of (live lo s2 (quota_key p rk)) = q_Limit q + 1) \<and>
      count_of (live lo s2 (quota_key q rk)) = q_Limit q + 1 \<and>
      (\<forall>p\<in>List.set post. count_of (live lo s2 (quota_key p rk)) = q_Limit q))"
  using exact_store.quota_first [OF assms] .

definition two_quotas :: QuotaManager where
  "two_quotas = NewQuotaManager None
     [\<lparr>q_Name = ''day'', q_Limit = 3, q_Window = 86400 * second\<rparr>,
      \<lparr>q_Name = ''sec'', q_Limit = 2, q_Window = second\<rparr>]"

text \<open>Three a day and two a second: two requests pass, the third is refused by the quota of the second, and the
  day has counted three. The method that takes an increment back does nothing here.\<close>

theorem quota_first_refusal_witness:
  "\<exists>oks s1 s'. run_calls (quota_pass memory_store (\<lambda>t k s. s) two_quotas ''a'') [1, 2] NewMemoryStore = (oks, s1) \<and>
    oks = [True, True] \<and>
    QuotaManager_CheckAll memory_store (\<lambda>t k s. s) (\<lambda>_. 3) two_quotas ''a'' s1 =
      ((Some \<lparr>q_Name = ''sec'', q_Limit = 2, q_Window = second\<rparr>, None), s') \<and>
    count_of (mem_live 1 s' ''quota:day:a'') = 3"
proof -
  let ?day = "\<lparr>q_Name = ''day'', q_Limit = 3, q_Window = 86400 * second\<rparr>"
    and ?sec = "\<lparr>q_Name = ''sec'', q_Limit = 2, q_Window = second\<rparr>"
  obtain oks s1 where run: "run_calls (quota_pass memory_store (\<lambda>t k s. s) two_quotas ''a'') [1, 2] NewMemoryStore =
      (oks, s1)" by (metis surj_pair)
  obtain res s' where last: "QuotaManager_CheckAll memory_store (\<lambda>t k s. s) (\<lambda>_. 3) two_quotas ''a'' s1 = (res, s')"
    by (metis surj_pair)
  have qm: "qm_quotas two_quotas = [?day] @ ?sec # []" by (simp add: two_quotas_def NewQuotaManager_def)
  have key: "quota_key ?day ''a'' = ''quota:day:a''" by (simp add: quota_key_def)
  have "oks = replicate (length [1 :: gotime, 2]) True \<and> res = (Some ?sec, None) \<and>
    (\<exists>s2. s' = (\<lambda>t k s. s) (3 :: gotime) (quota_key ?sec ''a'') s2 \<and>
      (\<forall>p\<in>List.set [?day]. count_of (mem_live 1 s2 (quota_key p ''a'')) = q_Limit ?sec + 1) \<and>
      count_of (mem_live 1 s2 (quota_key ?sec ''a'')) = q_Limit ?sec + 1 \<and>
      (\<forall>p\<in>List.set []. count_of (mem_live 1 s2 (quota_key p ''a'')) = q_Limit ?sec))"
    by (rule quota_first_refusal [OF mem_exact.exact_store_axioms _ _ qm _ _ _ _ _ _ run last])
      (simp_all add: qm mem_live_def NewMemoryStore_def)
  then have "oks = [True, True]" "res = (Some ?sec, None)" "count_of (mem_live 1 s' (quota_key ?day ''a'')) = 3"
    by simp_all
  with run last show ?thesis by (metis key)
qed

text \<open>A request that one quota refuses has been counted by every quota before it when the code goes on
  to take back the count of the one that refuses, and only of that one.\<close>

theorem quota_refusal_counts_earlier:
  assumes "store S live okw"
    and "distinct (map q_Name (qm_quotas qm))" and "qm_quotas qm = pre @ q # post"
    and "p \<in> List.set pre" and "okw (q_Window p)" and "lo \<le> t" and "t \<le> lo + q_Window p"
    and "store.kinv live (quota_key p rk) lo (lo + q_Window p) s"
    and "store.kcnt live (quota_key p rk) lo s < max_i64"
    and "QuotaManager_CheckAll S dec (\<lambda>_. t) qm rk s = ((Some q, e), s')"
  shows "\<exists>s2. s' = dec t (quota_key q rk) s2 \<and>
    count_of (live lo s2 (quota_key p rk)) = count_of (live lo s (quota_key p rk)) + 1"
  using store.quota_earlier_counted [OF assms] .

text \<open>With a quota of nothing a second after one of three a day, a first request is refused, and the
  day is at one.\<close>

theorem quota_refusal_counts_earlier_witness:
  "\<exists>s'. QuotaManager_CheckAll memory_store (\<lambda>t k s. s) (\<lambda>_. 1) (NewQuotaManager None
      [\<lparr>q_Name = ''day'', q_Limit = 3, q_Window = 86400 * second\<rparr>, \<lparr>q_Name = ''none'', q_Limit = 0, q_Window = second\<rparr>])
      ''a'' NewMemoryStore = ((Some \<lparr>q_Name = ''none'', q_Limit = 0, q_Window = second\<rparr>, None), s') \<and>
    count_of (mem_live 1 s' ''quota:day:a'') = 1"
proof -
  let ?day = "\<lparr>q_Name = ''day'', q_Limit = 3, q_Window = 86400 * second\<rparr>"
    and ?none = "\<lparr>q_Name = ''none'', q_Limit = 0, q_Window = second\<rparr>"
  let ?qm = "NewQuotaManager None [?day, ?none]"
  obtain res s' where run: "QuotaManager_CheckAll memory_store (\<lambda>t k s. s) (\<lambda>_. 1) ?qm ''a'' NewMemoryStore =
      (res, s')" by (metis surj_pair)
  have res: "res = (Some ?none, None)"
    using run by (simp add: QuotaManager_CheckAll_def NewQuotaManager_def NewMemoryStore_def
        quota_key_def mem_simps MemoryStore_Increment_cases mem_live_def Let_def)
  have qm: "qm_quotas ?qm = [?day] @ ?none # []" by (simp add: NewQuotaManager_def)
  have key: "quota_key ?day ''a'' = ''quota:day:a''" by (simp add: quota_key_def)
  have "\<exists>s2. s' = (\<lambda>t k s. s) (1 :: gotime) (quota_key ?none ''a'') s2 \<and>
      count_of (mem_live 1 s2 (quota_key ?day ''a'')) = count_of (mem_live 1 NewMemoryStore (quota_key ?day ''a'')) + 1"
    by (rule quota_refusal_counts_earlier [OF mem.store_axioms _ qm _ _ _ _ _ _ run [unfolded res]])
      (simp_all add: NewQuotaManager_def NewMemoryStore_def mem_live_def mem.kinv_def mem.kcnt_def)
  then have "count_of (mem_live 1 s' (quota_key ?day ''a'')) = 1" by (simp add: NewMemoryStore_def mem_live_def)
  with run res show ?thesis by (metis key)
qed

text \<open>The middleware answers 500 when the store fails, and by default 429 with the name of the
  quota when one is exceeded, without running the next handler; otherwise the next handler
  gets the request, and on the way the counts are only read.\<close>

theorem quota_middleware_answers:
  assumes "cSent c = None" and "onExceeded = None"
    and "QuotaManager_CheckAll S dec clk qm (qm_keyFn qm r) s = ((exceeded, e), s1)"
  shows "case (e, exceeded) of
      (Some _, _) \<Rightarrow> \<exists>c'. WithQuotaManager conn_rw clk S dec qm onExceeded nxt r c s = (r, c', s1) \<and>
        resp_code c' = 500
    | (None, Some q) \<Rightarrow> \<exists>c'. WithQuotaManager conn_rw clk S dec qm onExceeded nxt r c s = (r, c', s1) \<and>
        resp_code c' = 429 \<and> hget (resp_header c') ''X-Quota-Exceeded'' = q_Name q \<and>
        q \<in> List.set (qm_quotas qm)
    | (None, None) \<Rightarrow> \<exists>c' s2. WithQuotaManager conn_rw clk S dec qm onExceeded nxt r c s = nxt r c' s2 \<and>
        cSent c' = None"
proof -
  have hdrs: "cSent (fst (quota_headers conn_rw clk S qm qs rk c s)) = cSent c" for qs rk c s
    by (induction qs arbitrary: c s)
      (auto simp: rw_set_def rw_simps split: prod.splits sum.splits)
  have "canon ''X-Quota-Exceeded'' = ''X-Quota-Exceeded''" by code_simp
  moreover have "canon ''Content-Type'' = ''Content-Type''" by code_simp
  moreover have "canon ''X-Content-Type-Options'' = ''X-Content-Type-Options''" by code_simp
  moreover have "q \<in> List.set (qm_quotas qm)" if "exceeded = Some q" for q
    using assms(3) that check_quotas_member by (fastforce simp: QuotaManager_CheckAll_def)
  ultimately show ?thesis
    using assms hdrs [of "qm_quotas qm" "qm_keyFn qm r" c s1]
    by (auto simp: WithQuotaManager_def Let_def conn_http_Error resp_code_def resp_header_def
        defaultQuotaLimitExceededHandler_def rw_set_def rw_simps hdr_simps
        split: option.splits prod.splits)
qed

theorem quota_middleware_answers_witness:
  "\<exists>c' s2. WithQuotaManager conn_rw (\<lambda>_. 1) memory_store (\<lambda>t k s. s) two_quotas None (\<lambda>r w s. (r, w, s))
      (sample_req ''10.0.0.1:80'' ''/'' []) new_conn NewMemoryStore =
    (sample_req ''10.0.0.1:80'' ''/'' [], c', s2) \<and> cSent c' = None"
proof -
  let ?r = "sample_req ''10.0.0.1:80'' ''/'' []"
  obtain res s1 where run: "QuotaManager_CheckAll memory_store (\<lambda>t k s. s) (\<lambda>_. 1) two_quotas
      (qm_keyFn two_quotas ?r) NewMemoryStore = (res, s1)" by (metis surj_pair)
  have res: "res = (None, None)"
    using run by (simp add: QuotaManager_CheckAll_def two_quotas_def NewQuotaManager_def
        quota_key_def NewMemoryStore_def mem_simps MemoryStore_Increment_cases mem_live_def Let_def)
  have "cSent new_conn = None" by (simp add: new_conn_def)
  from quota_middleware_answers [OF this refl run [unfolded res], where nxt = "\<lambda>r w s. (r, w, s)"]
  show ?thesis by auto
qed

end
