(* ===== verification/RateLimiter.thy ===== *)
theory RateLimiter
  imports KeyFunc GoFloat Burst
begin

section \<open>The rate-limiting middlewares\<close>

text \<open>
  \<open>src/ratelimiter.go\<close>, \<open>src/burst_middleware.go\<close>, \<open>src/retry_after.go\<close> and
  \<open>src/retry_after_option.go\<close>: the middleware over a counter, the one over a BurstCounter, and
  the writer that adds Retry-After to 429 responses. A nil function or interface is \<open>None\<close>. The
  writer the handlers are run with is the argument \<open>W\<close>.
\<close>

subsection \<open>New\<close>

text \<open>The strategy behind the interface: its clock and its backend are in its state.\<close>

record 's Counter =
  Allow :: "string \<Rightarrow> 's \<Rightarrow> (bool \<times> int \<times> duration \<times> err option) \<times> 's"

record ('w, 's) Options =
  opt_Limiter :: "'s Counter"
  opt_KeyFunc :: "KeyFunc option"
  opt_LimitExceededHandler :: "('w, 's) handler option"

definition defaultLimitExceededHandler :: "'w rwriter \<Rightarrow> ('w, 's) handler" where
  "defaultLimitExceededHandler W r w s =
     (r, http_Error W ''rate limit exceeded'' StatusTooManyRequests w, s)"

definition opt_key :: "('w, 's) Options \<Rightarrow> KeyFunc" where
  "opt_key opts = (case opt_KeyFunc opts of None \<Rightarrow> defaultKeyFunc | Some f \<Rightarrow> f)"

definition opt_exceeded :: "'w rwriter \<Rightarrow> ('w, 's) Options \<Rightarrow> ('w, 's) handler" where
  "opt_exceeded W opts =
     (case opt_LimitExceededHandler opts of None \<Rightarrow> defaultLimitExceededHandler W | Some h \<Rightarrow> h)"

definition New :: "'w rwriter \<Rightarrow> ('w, 's) Options \<Rightarrow> ('w, 's) handler \<Rightarrow> ('w, 's) handler" where
  "New W opts next r w s =
     (case Allow (opt_Limiter opts) (opt_key opts r) s of ((allowed, remaining, reset, e), s1) \<Rightarrow>
        (case e of
           Some _ \<Rightarrow> next r w s1
         | None \<Rightarrow>
             let w1 = rw_set W ''X-RateLimit-Remaining'' (Itoa remaining) w;
                 w2 = rw_set W ''X-RateLimit-Reset'' (fmt_f0 (Duration_Seconds reset)) w1
             in if \<not> allowed then opt_exceeded W opts r w2 s1 else next r w2 s1))"

subsection \<open>WithBurst\<close>

text \<open>The key function is called with two results here, the second an error.\<close>

record ('w, 's) BurstConfig =
  bm_Counter :: BurstCounter
  bm_KeyFunc :: "(req \<Rightarrow> err + string) option"
  bm_LimitExceeded :: "('w, 's) handler option"

definition bm_key :: "('w, 's) BurstConfig \<Rightarrow> req \<Rightarrow> err + string" where
  "bm_key cfg = (case bm_KeyFunc cfg of None \<Rightarrow> (\<lambda>r. Inr (defaultKeyFunc r)) | Some f \<Rightarrow> f)"

definition WithBurst ::
  "'w rwriter \<Rightarrow> ('s \<Rightarrow> gotime) \<Rightarrow> 's Store \<Rightarrow> ('w, 's) BurstConfig \<Rightarrow> ('w, 's) handler \<Rightarrow> ('w, 's) handler"
where
  "WithBurst W clk S cfg next r w s =
     (let b = bm_Counter cfg;
          limitExceeded = (case bm_LimitExceeded cfg of
                             None \<Rightarrow> defaultLimitExceededHandler W | Some h \<Rightarrow> h)
      in case bm_key cfg r of
           Inl _ \<Rightarrow> (r, http_Error W ''rate limiter key error'' StatusInternalServerError w, s)
         | Inr key \<Rightarrow>
             (case BurstCounter_Allow S b (clk s) key s of ((allowed, remaining, e), s1) \<Rightarrow>
                (case e of
                   Some _ \<Rightarrow> (r, http_Error W ''rate limiter error'' StatusInternalServerError w, s1)
                 | None \<Rightarrow>
                     let effective = i64 (BurstCounter_Limit b + BurstCounter_Burst b);
                         w1 = rw_set W ''X-RateLimit-Limit'' (Itoa effective) w;
                         w2 = rw_set W ''X-RateLimit-Remaining'' (Itoa remaining) w1;
                         w3 = rw_set W ''X-RateLimit-Burst'' (Itoa (BurstCounter_Burst b)) w2
                     in if \<not> allowed then limitExceeded r w3 s1 else next r w3 s1)))"

subsection \<open>Retry-After\<close>

type_synonym RetryAfterCalculator = "string \<Rightarrow> duration \<Rightarrow> err + int"

record 'w retryAfterResponseWriter =
  ra_inner :: 'w
  ra_window :: duration
  ra_calc :: "RetryAfterCalculator option"
  ra_key :: string
  ra_wrote :: bool

definition retry_seconds :: "'w retryAfterResponseWriter \<Rightarrow> int" where
  "retry_seconds rw =
     (let seconds = int_of_float (Duration_Seconds (ra_window rw))
      in case ra_calc rw of
           None \<Rightarrow> seconds
         | Some calc \<Rightarrow> (case calc (ra_key rw) (ra_window rw) of Inl _ \<Rightarrow> seconds | Inr n \<Rightarrow> n))"

definition retryAfter_WriteHeader ::
  "'w rwriter \<Rightarrow> int \<Rightarrow> 'w retryAfterResponseWriter \<Rightarrow> 'w retryAfterResponseWriter" where
  "retryAfter_WriteHeader W status rw =
     (let rw1 = (if status = StatusTooManyRequests \<and> \<not> ra_wrote rw
                 then rw\<lparr>ra_wrote := True,
                         ra_inner := rw_set W ''Retry-After'' (Itoa (retry_seconds rw)) (ra_inner rw)\<rparr>
                 else rw)
      in rw1\<lparr>ra_inner := WriteHeader W status (ra_inner rw1)\<rparr>)"

definition retry_rw :: "'w rwriter \<Rightarrow> 'w retryAfterResponseWriter rwriter" where
  "retry_rw W = (embed_rw W ra_inner ra_inner_update)\<lparr>WriteHeader := retryAfter_WriteHeader W\<rparr>"

definition RetryAfterMiddleware ::
  "RetryAfterCalculator option \<Rightarrow> duration \<Rightarrow> ('w retryAfterResponseWriter, 's) handler \<Rightarrow> ('w, 's) handler"
where
  "RetryAfterMiddleware calc window next r w s =
     (let rw = \<lparr>ra_inner = w, ra_window = window, ra_calc = calc, ra_key = RemoteAddr r, ra_wrote = False\<rparr>
      in case next r rw s of (r', rw', s') \<Rightarrow> (r', ra_inner rw', s'))"

definition FixedRetryAfter :: "duration \<Rightarrow> RetryAfterCalculator" where
  "FixedRetryAfter window = (\<lambda>_ _. Inr (int_of_float (Duration_Seconds window)))"

definition WithRetryAfter ::
  "('w retryAfterResponseWriter, 's) handler \<Rightarrow> duration \<Rightarrow> RetryAfterCalculator option \<Rightarrow> ('w, 's) handler"
where
  "WithRetryAfter next window calc =
     (let calc = (case calc of None \<Rightarrow> Some (FixedRetryAfter window) | Some c \<Rightarrow> Some c)
      in RetryAfterMiddleware calc window next)"

lemma retry_rw_sel [rw_simps]:
  "HeaderOf (retry_rw W) a = HeaderOf W (ra_inner a)"
  "PutHeader (retry_rw W) h = ra_inner_update (PutHeader W h)"
  "WriteHeader (retry_rw W) = retryAfter_WriteHeader W"
  "Write (retry_rw W) b = ra_inner_update (Write W b)"
  by (simp_all add: retry_rw_def embed_rw_def)

text \<open>The wrapped writer keeps the contract of the one it wraps.\<close>

context response_writer
begin

lemma retry_status:
  "status (ra_inner (retryAfter_WriteHeader W c rw)) = status (WriteHeader W c (ra_inner rw))"
proof (cases "c = StatusTooManyRequests \<and> \<not> ra_wrote rw")
  case True
  then show ?thesis
    by (cases "status (ra_inner rw)")
      (simp_all add: retryAfter_WriteHeader_def Let_def status_first status_kept status_rw_set)
next
  case False
  then show ?thesis by (simp only: retryAfter_WriteHeader_def Let_def if_False) simp
qed

lemma retry_writer: "response_writer (retry_rw W) (\<lambda>rw. status (ra_inner rw))"
  by (rule embedded_writer [OF response_writer_axioms]) (simp_all add: rw_simps retry_status)

end

interpretation retry_conn: response_writer "retry_rw conn_rw" "\<lambda>rw. conn_status (ra_inner rw)"
  by (rule server_rw.retry_writer)

subsection \<open>What reaches the next handler\<close>

text \<open>A next handler that records the requests it is given.\<close>

definition probe :: "('w, 's \<times> req list) handler" where
  "probe r w p = (r, w, (fst p, snd p @ [r]))"

fun serve_all ::
  "(gotime \<Rightarrow> (conn, 's) handler) \<Rightarrow> (gotime \<times> req) list \<Rightarrow> 's \<Rightarrow> conn list \<times> 's" where
  "serve_all h [] s = ([], s)"
| "serve_all h ((t, r) # rs) s =
     (case h t r new_conn s of (_, c, s1) \<Rightarrow> case serve_all h rs s1 of (cs, s2) \<Rightarrow> (c # cs, s2))"

lemma BurstCounter_Allow_lift:
  "BurstCounter_Allow (lift_store S) b t key p =
     (case BurstCounter_Allow S b t key (fst p) of (x, s') \<Rightarrow> (x, (s', snd p)))"
  by (simp add: BurstCounter_Allow_def lift_store_def lift_op_def Let_def split: prod.split sum.split)

lemma BurstCounter_Allow_err:
  "BurstCounter_Allow S b t key s = ((ok, rem, Some e), s') \<Longrightarrow> \<not> ok"
  by (auto simp: BurstCounter_Allow_def Let_def split: prod.splits sum.splits if_splits)

lemma WithBurst_step:
  assumes "bm_key cfg r = Inr key" and "bm_LimitExceeded cfg = None"
    and "burst_allow S (bm_Counter cfg) key t s = (ok, s1)"
  shows "\<exists>w'. WithBurst W (\<lambda>_. t) (lift_store S) cfg probe r w (s, l) =
    (r, w', (s1, if ok then l @ [r] else l))"
proof -
  obtain rem e where "BurstCounter_Allow S (bm_Counter cfg) t key s = ((ok, rem, e), s1)"
    using assms(3) by (auto simp: burst_allow_def split: prod.splits)
  with assms(1,2) BurstCounter_Allow_err [of S "bm_Counter cfg" t key s ok rem _ s1] show ?thesis
    by (cases e) (auto simp: WithBurst_def Let_def BurstCounter_Allow_lift probe_def
        defaultLimitExceededHandler_def)
qed

lemma WithBurst_run:
  assumes "\<forall>(t, r)\<in>List.set rs. bm_key cfg r = Inr key" and "bm_LimitExceeded cfg = None"
    and "serve_all (\<lambda>t. WithBurst conn_rw (\<lambda>_. t) (lift_store S) cfg probe) rs (s, l) = (cs, (s', l'))"
  shows "\<exists>oks. run_calls (burst_allow S (bm_Counter cfg) key) (map fst rs) s = (oks, s') \<and>
    length l' = length l + admitted oks"
  using assms(1,3)
proof (induction rs arbitrary: s l cs)
  case (Cons tr rs)
  obtain t r where tr: "tr = (t, r)" by force
  obtain ok s1 where one: "burst_allow S (bm_Counter cfg) key t s = (ok, s1)" by force
  obtain w' where step: "WithBurst conn_rw (\<lambda>_. t) (lift_store S) cfg probe r new_conn (s, l) =
      (r, w', (s1, if ok then l @ [r] else l))"
    using WithBurst_step [OF _ assms(2) one] Cons.prems(1) tr by fastforce
  obtain cs1 where rest: "serve_all (\<lambda>t. WithBurst conn_rw (\<lambda>_. t) (lift_store S) cfg probe) rs
      (s1, if ok then l @ [r] else l) = (cs1, (s', l'))"
    using Cons.prems(2) by (auto simp: tr step split: prod.splits)
  obtain oks where "run_calls (burst_allow S (bm_Counter cfg) key) (map fst rs) s1 = (oks, s')"
    "length l' = length (if ok then l @ [r] else l) + admitted oks"
    using Cons.IH [OF _ rest] Cons.prems(1) by auto
  then show ?case by (cases ok) (auto simp: tr one)
qed simp

text \<open>A refused request, seen from the client.\<close>

lemma New_refuses:
  assumes "Allow (opt_Limiter opts) (opt_key opts r) s = ((False, remaining, reset, None), s1)"
  shows "New W opts next r w s =
    opt_exceeded W opts r (rw_set W ''X-RateLimit-Reset'' (fmt_f0 (Duration_Seconds reset))
      (rw_set W ''X-RateLimit-Remaining'' (Itoa remaining) w)) s1"
  using assms by (simp add: New_def Let_def)

lemma canon_headers [hdr_simps]:
  "canon ''X-RateLimit-Remaining'' = ''X-Ratelimit-Remaining''"
  "canon ''X-RateLimit-Reset'' = ''X-Ratelimit-Reset''"
  "canon ''Retry-After'' = ''Retry-After''"
  "canon ''Content-Type'' = ''Content-Type''"
  "canon ''X-Content-Type-Options'' = ''X-Content-Type-Options''"
  by code_simp+

subsection \<open>Properties\<close>



text \<open>Under WithRetryAfter a refused request is answered with 429, the seconds of the window
  in Retry-After and the remaining count, and the next handler is not run.\<close>

theorem refusal_has_retry_after:
  assumes "Allow (opt_Limiter opts) (opt_key opts r) s = ((False, remaining, reset, None), s1)"
    and "opt_LimitExceededHandler opts = None" and "cSent c = None"
  shows "\<exists>c'. WithRetryAfter (New (retry_rw conn_rw) opts next) window None r c s = (r, c', s1) \<and>
    resp_code c' = 429 \<and>
    hget (resp_header c') ''Retry-After'' = Itoa (int_of_float (Duration_Seconds window)) \<and>
    hget (resp_header c') ''X-RateLimit-Remaining'' = Itoa remaining"
  using assms
  by (simp add: WithRetryAfter_def RetryAfterMiddleware_def New_refuses opt_exceeded_def
      defaultLimitExceededHandler_def http_Error_def rw_set_def rw_simps Let_def
      retryAfter_WriteHeader_def retry_seconds_def FixedRetryAfter_def resp_code_def resp_header_def
      hdr_simps)

theorem refusal_has_retry_after_witness:
  "\<exists>c'. WithRetryAfter (New (retry_rw conn_rw)
      \<lparr>opt_Limiter = \<lparr>Allow = (\<lambda>k s. ((False, 0, second, None), s + 1))\<rparr>, opt_KeyFunc = None,
       opt_LimitExceededHandler = None\<rparr> (\<lambda>r w s. (r, w, 0))) (90 * second) None
      (sample_req ''10.0.0.1:80'' ''/'' []) new_conn (7 :: int) =
      (sample_req ''10.0.0.1:80'' ''/'' [], c', 8) \<and>
    resp_code c' = 429 \<and> hget (resp_header c') ''Retry-After'' = ''90''"
proof -
  have "Itoa (int_of_float (Duration_Seconds (90 * second))) = ''90''"
    by (simp add: Duration_Seconds_whole [of 90] int_of_float_of_int [of 90, simplified]) code_simp
  then show ?thesis
    using refusal_has_retry_after [of "\<lparr>opt_Limiter = \<lparr>Allow = (\<lambda>k s. ((False, 0, second, None), s + 1))\<rparr>,
      opt_KeyFunc = None, opt_LimitExceededHandler = None\<rparr>" "sample_req ''10.0.0.1:80'' ''/'' []"
      "7 :: int" 0 second 8 new_conn "\<lambda>r w s. (r, w, 0)" "90 * second"]
    by (auto simp: new_conn_def)
qed

text \<open>C18. The two middlewares part on a backend error: New hands the request on unlimited and
  adds no header, WithBurst answers 500 and the next handler is not run.\<close>

theorem backend_error_open_and_closed:
  assumes "Allow (opt_Limiter opts) (opt_key opts r) s = ((ok, remaining, reset, Some e), s1)"
    and "bm_key cfg r = Inr key"
    and "Increment S (clk s) (burst_key (bm_Counter cfg) (clk s) key) (bc_window (bm_Counter cfg)) s =
      (Inl e', s2)"
    and "cSent c = None"
  shows "New conn_rw opts next r c s = next r c s1 \<and>
    (\<exists>c'. WithBurst conn_rw clk S cfg next r c s = (r, c', s2) \<and> resp_code c' = 500)"
  using assms
  by (auto simp: New_def WithBurst_def BurstCounter_Allow_def Let_def conn_http_Error resp_code_def)

theorem backend_error_open_and_closed_witness:
  "\<exists>c'. WithBurst conn_rw (\<lambda>_. unix_epoch) (redis_store ref_client)
      \<lparr>bm_Counter = NewBurstCounter 1 1 second, bm_KeyFunc = None, bm_LimitExceeded = None\<rparr>
      (\<lambda>r w s. (r, w, s)) (sample_req ''10.0.0.1:80'' ''/'' []) new_conn (new_redis\<lparr>rDown := True\<rparr>) =
      (sample_req ''10.0.0.1:80'' ''/'' [], c', new_redis\<lparr>rDown := True\<rparr>) \<and> resp_code c' = 500"
  using backend_error_open_and_closed [of "\<lparr>opt_Limiter = \<lparr>Allow = (\<lambda>k s. ((False, 0, 0, Some ''down''), s))\<rparr>,
      opt_KeyFunc = None, opt_LimitExceededHandler = None\<rparr>" "sample_req ''10.0.0.1:80'' ''/'' []"
      "new_redis\<lparr>rDown := True\<rparr>" False 0 0 "''down''" "new_redis\<lparr>rDown := True\<rparr>"
      "\<lparr>bm_Counter = NewBurstCounter 1 1 second, bm_KeyFunc = None, bm_LimitExceeded = None\<rparr>"
      "defaultKeyFunc (sample_req ''10.0.0.1:80'' ''/'' [])" "redis_store ref_client" "\<lambda>_. unix_epoch"]
  by (simp add: bm_key_def redis_simps RedisStore_Increment_def ref_client_def ref_exec_def
      new_conn_def)

end
