(* ===== verification/Breaker.thy ===== *)
theory Breaker
  imports Http
begin

section \<open>Circuit breaker\<close>

text \<open>
  \<open>src/circuit_breaker.go\<close> and \<open>src/circuit_breaker_middleware.go\<close>. Every method of the breaker
  holds its mutex, so an execution of any number of requests is a sequence of method calls:
  the relation \<open>cb_step\<close>. The callbacks run in goroutines of their own; \<open>cb_started\<close> lists
  those that were started, and a field says whether each is registered. \<open>0\<close> is the zero
  time, from which a new breaker's last failure is.
\<close>

datatype CircuitState = CircuitClosed | CircuitOpen | CircuitHalfOpen

text \<open>The constants are numbered in this order, and are ordered as integers.\<close>

definition circuit_iota :: "CircuitState \<Rightarrow> int" where
  "circuit_iota st = (case st of CircuitClosed \<Rightarrow> 0 | CircuitOpen \<Rightarrow> 1 | CircuitHalfOpen \<Rightarrow> 2)"

instantiation CircuitState :: linorder
begin

definition less_eq_CircuitState :: "CircuitState \<Rightarrow> CircuitState \<Rightarrow> bool" where
  "less_eq_CircuitState a b \<longleftrightarrow> circuit_iota a \<le> circuit_iota b"

definition less_CircuitState :: "CircuitState \<Rightarrow> CircuitState \<Rightarrow> bool" where
  "less_CircuitState a b \<longleftrightarrow> circuit_iota a < circuit_iota b"

instance
  by standard
    (auto simp: less_eq_CircuitState_def less_CircuitState_def circuit_iota_def
      split: CircuitState.splits)

end

datatype callback = OnTrip | OnReset

record CircuitBreaker =
  cb_state :: CircuitState
  cb_failures :: int
  cb_threshold :: int
  cb_resetAfter :: duration
  cb_lastFailureTime :: gotime
  cb_onTrip :: bool
  cb_onReset :: bool
  cb_started :: "callback list"

type_synonym CircuitBreakerOption = "CircuitBreaker \<Rightarrow> CircuitBreaker"

definition WithTripThreshold :: "int \<Rightarrow> CircuitBreakerOption" where
  "WithTripThreshold n cb = cb\<lparr>cb_threshold := n\<rparr>"

definition WithResetAfter :: "duration \<Rightarrow> CircuitBreakerOption" where
  "WithResetAfter d cb = cb\<lparr>cb_resetAfter := d\<rparr>"

definition WithOnTrip :: "bool \<Rightarrow> CircuitBreakerOption" where
  "WithOnTrip fn cb = cb\<lparr>cb_onTrip := fn\<rparr>"

definition WithOnReset :: "bool \<Rightarrow> CircuitBreakerOption" where
  "WithOnReset fn cb = cb\<lparr>cb_onReset := fn\<rparr>"

definition NewCircuitBreaker :: "CircuitBreakerOption list \<Rightarrow> CircuitBreaker" where
  "NewCircuitBreaker opts =
     fold (\<lambda>opt cb. opt cb) opts
       \<lparr>cb_state = CircuitClosed, cb_failures = 0, cb_threshold = 5, cb_resetAfter = 30 * second,
        cb_lastFailureTime = 0, cb_onTrip = False, cb_onReset = False, cb_started = []\<rparr>"

definition currentState :: "gotime \<Rightarrow> CircuitBreaker \<Rightarrow> CircuitState \<times> CircuitBreaker" where
  "currentState now cb =
     (let cb1 = (if cb_state cb = CircuitOpen \<and> cb_resetAfter cb \<le> Time_Sub now (cb_lastFailureTime cb)
                 then cb\<lparr>cb_state := CircuitHalfOpen\<rparr> else cb)
      in (cb_state cb1, cb1))"

definition CircuitBreaker_State :: "gotime \<Rightarrow> CircuitBreaker \<Rightarrow> CircuitState \<times> CircuitBreaker" where
  "CircuitBreaker_State now cb = currentState now cb"

definition RecordBlocked :: "gotime \<Rightarrow> CircuitBreaker \<Rightarrow> CircuitBreaker" where
  "RecordBlocked now cb =
     (let cb1 = cb\<lparr>cb_failures := i64 (cb_failures cb + 1), cb_lastFailureTime := now\<rparr>
      in if cb_state cb1 = CircuitClosed \<and> cb_threshold cb1 \<le> cb_failures cb1
         then (let cb2 = cb1\<lparr>cb_state := CircuitOpen\<rparr>
               in if cb_onTrip cb2 then cb2\<lparr>cb_started := cb_started cb2 @ [OnTrip]\<rparr> else cb2)
         else cb1)"

definition RecordAllowed :: "CircuitBreaker \<Rightarrow> CircuitBreaker" where
  "RecordAllowed cb =
     (if cb_state cb = CircuitHalfOpen \<or> 0 < cb_failures cb
      then (let prevState = cb_state cb;
                cb1 = cb\<lparr>cb_state := CircuitClosed, cb_failures := 0\<rparr>
            in if prevState = CircuitHalfOpen \<and> cb_onReset cb1
               then cb1\<lparr>cb_started := cb_started cb1 @ [OnReset]\<rparr> else cb1)
      else cb)"

subsection \<open>The middlewares\<close>

text \<open>The state of a middleware is paired with that of the handlers below it.\<close>

definition WithCircuitBreaker ::
  "'w rwriter \<Rightarrow> ('s \<Rightarrow> gotime) \<Rightarrow> ('w, 's) handler \<Rightarrow> ('w, CircuitBreaker \<times> 's) handler" where
  "WithCircuitBreaker W clk next r w p =
     (case p of (cb, s) \<Rightarrow>
        (case CircuitBreaker_State (clk s) cb of (st, cb1) \<Rightarrow>
           if st = CircuitOpen
           then (r, http_Error W ''service temporarily unavailable'' StatusServiceUnavailable w, (cb1, s))
           else (case next r w s of (r', w', s') \<Rightarrow> (r', w', (cb1, s')))))"

record 'w circuitBreakerResponseWriter =
  cbw_inner :: 'w
  cbw_statusCode :: int

definition circuitBreaker_WriteHeader ::
  "'w rwriter \<Rightarrow> int \<Rightarrow> 'w circuitBreakerResponseWriter \<Rightarrow> 'w circuitBreakerResponseWriter" where
  "circuitBreaker_WriteHeader W code rw =
     rw\<lparr>cbw_statusCode := code, cbw_inner := WriteHeader W code (cbw_inner rw)\<rparr>"

definition breaker_rw :: "'w rwriter \<Rightarrow> 'w circuitBreakerResponseWriter rwriter" where
  "breaker_rw W = (embed_rw W cbw_inner cbw_inner_update)\<lparr>WriteHeader := circuitBreaker_WriteHeader W\<rparr>"

definition WithCircuitBreakerMiddleware ::
  "'w rwriter \<Rightarrow> ('s \<Rightarrow> gotime) \<Rightarrow> ('w circuitBreakerResponseWriter, 's) handler \<Rightarrow>
   ('w, CircuitBreaker \<times> 's) handler" where
  "WithCircuitBreakerMiddleware W clk next r w p =
     (case p of (cb, s) \<Rightarrow>
        (case CircuitBreaker_State (clk s) cb of (st, cb1) \<Rightarrow>
           if st = CircuitOpen
           then (r, http_Error W ''service temporarily unavailable'' StatusServiceUnavailable
                      (rw_set W ''Retry-After'' ''30'' w), (cb1, s))
           else (case next r \<lparr>cbw_inner = w, cbw_statusCode = StatusOK\<rparr> s of (r', rw, s') \<Rightarrow>
                   (r', cbw_inner rw,
                    (if cbw_statusCode rw = StatusTooManyRequests then RecordBlocked (clk s') cb1
                     else RecordAllowed cb1, s')))))"

subsection \<open>Executions\<close>

text \<open>One method call, by any request; the clock does not run backwards. A history lists the calls,
  the newest first, each with its time.\<close>

datatype cb_call = CallState | CallBlocked | CallAllowed

type_synonym cb_history = "(gotime \<times> cb_call) list"

inductive cb_step :: "cb_call \<Rightarrow> gotime \<times> CircuitBreaker \<Rightarrow> gotime \<times> CircuitBreaker \<Rightarrow> bool" where
  step_state: "t \<le> t' \<Longrightarrow> cb_step CallState (t, cb) (t', snd (CircuitBreaker_State t' cb))"
| step_blocked: "t \<le> t' \<Longrightarrow> cb_step CallBlocked (t, cb) (t', RecordBlocked t' cb)"
| step_allowed: "t \<le> t' \<Longrightarrow> cb_step CallAllowed (t, cb) (t', RecordAllowed cb)"

inductive_cases cb_stepE: "cb_step c (t, cb) (t', cb')"

inductive cb_reach :: "CircuitBreaker \<Rightarrow> cb_history \<Rightarrow> gotime \<times> CircuitBreaker \<Rightarrow> bool" for cb0 where
  reach_start: "0 \<le> t \<Longrightarrow> cb_reach cb0 [] (t, cb0)"
| reach_call: "cb_reach cb0 h p \<Longrightarrow> cb_step c p q \<Longrightarrow> cb_reach cb0 ((fst q, c) # h) q"

text \<open>What a history says: the blocked calls since the last allowed one, the time of the last
  blocked call, and whether the state has been asked for at a time when the threshold had been
  reached and the reset time was over, with no allowed call since.\<close>

fun blocked_since :: "cb_history \<Rightarrow> nat" where
  "blocked_since [] = 0"
| "blocked_since ((t, CallState) # h) = blocked_since h"
| "blocked_since ((t, CallBlocked) # h) = Suc (blocked_since h)"
| "blocked_since ((t, CallAllowed) # h) = 0"

fun last_blocked :: "cb_history \<Rightarrow> gotime" where
  "last_blocked [] = 0"
| "last_blocked ((t, c) # h) = (if c = CallBlocked then t else last_blocked h)"

fun probed :: "int \<Rightarrow> duration \<Rightarrow> cb_history \<Rightarrow> bool" where
  "probed th d [] = False"
| "probed th d ((t, CallState) # h) =
     (probed th d h \<or> (th \<le> int (blocked_since h) \<and> d \<le> t - last_blocked h))"
| "probed th d ((t, CallBlocked) # h) = probed th d h"
| "probed th d ((t, CallAllowed) # h) = False"

definition state_of_history :: "int \<Rightarrow> duration \<Rightarrow> cb_history \<Rightarrow> CircuitState" where
  "state_of_history th d h =
     (if int (blocked_since h) < th then CircuitClosed
      else if probed th d h then CircuitHalfOpen else CircuitOpen)"

lemma blocked_since_le: "blocked_since h \<le> length h"
  by (induction h rule: blocked_since.induct) simp_all

lemma probed_reached: "probed th d h \<Longrightarrow> th \<le> int (blocked_since h)"
  by (induction h rule: blocked_since.induct) auto

definition cb_rel :: "cb_history \<Rightarrow> CircuitBreaker \<Rightarrow> bool" where
  "cb_rel h cb \<longleftrightarrow> cb_failures cb = int (blocked_since h) \<and> cb_lastFailureTime cb = last_blocked h \<and>
     cb_state cb = state_of_history (cb_threshold cb) (cb_resetAfter cb) h"

lemma breaker_config [simp]:
  "cb_threshold (snd (CircuitBreaker_State t cb)) = cb_threshold cb"
  "cb_threshold (RecordBlocked t cb) = cb_threshold cb"
  "cb_threshold (RecordAllowed cb) = cb_threshold cb"
  "cb_resetAfter (snd (CircuitBreaker_State t cb)) = cb_resetAfter cb"
  "cb_resetAfter (RecordBlocked t cb) = cb_resetAfter cb"
  "cb_resetAfter (RecordAllowed cb) = cb_resetAfter cb"
  by (simp_all add: CircuitBreaker_State_def currentState_def RecordBlocked_def RecordAllowed_def Let_def)

lemma cb_step_rel:
  assumes "cb_step c (t, cb) (t', cb')" and rel: "cb_rel h cb" and th: "1 \<le> cb_threshold cb"
    and d: "min_i64 < cb_resetAfter cb" "cb_resetAfter cb \<le> max_i64" and "int (length h) < max_i64"
  shows "cb_rel ((t', c) # h) cb'"
  using assms(1)
proof (rule cb_stepE)
  assume c: "c = CallState" and cb': "cb' = snd (CircuitBreaker_State t' cb)"
  show ?thesis
    using rel th probed_reached [of "cb_threshold cb" "cb_resetAfter cb" h] d
    by (auto simp: cb_rel_def state_of_history_def c cb' CircuitBreaker_State_def currentState_def Let_def
        Time_Sub_ge_iff)
next
  assume c: "c = CallBlocked" and cb': "cb' = RecordBlocked t' cb"
  have "i64 (cb_failures cb + 1) = cb_failures cb + 1"
    using rel assms(6) blocked_since_le [of h] by (simp add: cb_rel_def i64_id)
  with rel th probed_reached [of "cb_threshold cb" "cb_resetAfter cb" h] show ?thesis
    by (auto simp: cb_rel_def state_of_history_def c cb' RecordBlocked_def Let_def)
next
  assume c: "c = CallAllowed" and cb': "cb' = RecordAllowed cb"
  with rel th show ?thesis
    by (auto simp: cb_rel_def state_of_history_def RecordAllowed_def Let_def)
qed

lemma cb_reach_config:
  "cb_reach cb0 h p \<Longrightarrow> cb_threshold (snd p) = cb_threshold cb0 \<and> cb_resetAfter (snd p) = cb_resetAfter cb0"
  by (induction rule: cb_reach.induct) (auto elim: cb_step.cases)

lemma cb_reach_rel:
  assumes "cb_reach cb0 h p" and "cb_rel [] cb0" and "1 \<le> cb_threshold cb0"
    and "min_i64 < cb_resetAfter cb0" and "cb_resetAfter cb0 \<le> max_i64" and "int (length h) \<le> max_i64"
  shows "cb_rel h (snd p)"
  using assms(1,6)
proof (induction rule: cb_reach.induct)
  case (reach_call h p c q)
  with cb_step_rel [of c "fst p" "snd p" "fst q" "snd q" h] cb_reach_config [OF reach_call.hyps(1)] assms(3-5)
  show ?case by simp
qed (use assms(2) in simp)

text \<open>The package's options.\<close>

definition breaker_options :: "CircuitBreakerOption set" where
  "breaker_options = range WithTripThreshold \<union> range WithResetAfter \<union> range WithOnTrip \<union> range WithOnReset"

lemma NewCircuitBreaker_rel:
  assumes "set opts \<subseteq> breaker_options" and "1 \<le> cb_threshold (NewCircuitBreaker opts)"
  shows "cb_rel [] (NewCircuitBreaker opts)"
proof -
  have "cb_state (fold (\<lambda>opt cb. opt cb) opts cb) = cb_state cb \<and>
      cb_failures (fold (\<lambda>opt cb. opt cb) opts cb) = cb_failures cb \<and>
      cb_lastFailureTime (fold (\<lambda>opt cb. opt cb) opts cb) = cb_lastFailureTime cb" for cb
    using assms(1)
    by (induction opts arbitrary: cb)
      (auto simp: breaker_options_def WithTripThreshold_def WithResetAfter_def WithOnTrip_def WithOnReset_def)
  with assms(2) show ?thesis by (simp add: cb_rel_def state_of_history_def NewCircuitBreaker_def)
qed

text \<open>Blocked requests in a row, with nothing in between.\<close>

lemma blocked_run:
  assumes "cb_state cb = CircuitClosed" and "cb_failures cb < cb_threshold cb"
    and "0 \<le> cb_failures cb" and "cb_failures cb + int (length ts) \<le> max_i64"
  shows "cb_state (fold RecordBlocked ts cb) =
      (if cb_threshold cb \<le> cb_failures cb + int (length ts) then CircuitOpen else CircuitClosed)"
  using assms
proof (induction ts arbitrary: cb)
  case (Cons t ts)
  have f: "i64 (cb_failures cb + 1) = cb_failures cb + 1" using Cons.prems by (simp add: i64_id)
  have stay: "cb_state (fold RecordBlocked us c) = CircuitOpen" if "cb_state c = CircuitOpen" for us c
    using that by (induction us arbitrary: c) (simp_all add: RecordBlocked_def Let_def)
  show ?case
  proof (cases "cb_threshold cb \<le> cb_failures cb + 1")
    case True
    then have "cb_state (RecordBlocked t cb) = CircuitOpen"
      using Cons.prems f by (simp add: RecordBlocked_def Let_def)
    with True stay Cons.prems show ?thesis by simp
  next
    case False
    then have "RecordBlocked t cb = cb\<lparr>cb_failures := cb_failures cb + 1, cb_lastFailureTime := t\<rparr>"
      using Cons.prems f by (simp add: RecordBlocked_def Let_def)
    with False Cons.IH [of "RecordBlocked t cb"] Cons.prems show ?thesis by (simp add: algebra_simps)
  qed
qed simp

text \<open>Once half open, blocked requests leave it so: it does not trip again.\<close>

lemma half_open_stays:
  assumes "cb_state cb = CircuitHalfOpen"
  shows "cb_state (fold RecordBlocked ts cb) = CircuitHalfOpen"
  using assms by (induction ts arbitrary: cb) (simp_all add: RecordBlocked_def Let_def)

lemma breaker_rw_sel [rw_simps]:
  "HeaderOf (breaker_rw W) a = HeaderOf W (cbw_inner a)"
  "PutHeader (breaker_rw W) h = cbw_inner_update (PutHeader W h)"
  "WriteHeader (breaker_rw W) = circuitBreaker_WriteHeader W"
  "Write (breaker_rw W) b = cbw_inner_update (Write W b)"
  by (simp_all add: breaker_rw_def embed_rw_def)

context response_writer
begin

lemma breaker_writer: "response_writer (breaker_rw W) (\<lambda>rw. status (cbw_inner rw))"
  by (rule embedded_writer [OF response_writer_axioms])
    (simp_all add: rw_simps circuitBreaker_WriteHeader_def)

end

interpretation breaker_conn: response_writer "breaker_rw conn_rw" "\<lambda>rw. conn_status (cbw_inner rw)"
  by (rule server_rw.breaker_writer)

text \<open>An open breaker, before and after its time.\<close>

lemma State_open:
  assumes "cb_state cb = CircuitOpen" and "min_i64 < cb_resetAfter cb" and "cb_resetAfter cb \<le> max_i64"
  shows "CircuitBreaker_State t cb =
    (if cb_resetAfter cb \<le> t - cb_lastFailureTime cb
     then (CircuitHalfOpen, cb\<lparr>cb_state := CircuitHalfOpen\<rparr>) else (CircuitOpen, cb))"
  using assms by (simp add: CircuitBreaker_State_def currentState_def Let_def Time_Sub_ge_iff)

subsection \<open>Properties\<close>

text \<open>C19. Whatever methods any number of requests call, in any order and at any times that do not
  run backwards, the state is a function of the history of calls: closed as long as the blocked calls
  since the last allowed one, which are the failures, are below the threshold; else half open when the
  state has been asked for once the reset time after the last blocked call was over, and open until
  then.\<close>

theorem breaker_state_from_history:
  assumes "cb_reach (NewCircuitBreaker opts) h (t, cb)" and "set opts \<subseteq> breaker_options"
    and "th = cb_threshold (NewCircuitBreaker opts)" and "d = cb_resetAfter (NewCircuitBreaker opts)"
    and "1 \<le> th" and "min_i64 < d" and "d \<le> max_i64" and "int (length h) \<le> max_i64"
  shows "cb_failures cb = int (blocked_since h) \<and>
    cb_state cb = (if int (blocked_since h) < th then CircuitClosed
      else if probed th d h then CircuitHalfOpen else CircuitOpen)"
  using cb_reach_rel [OF assms(1) NewCircuitBreaker_rel [OF assms(2)]] cb_reach_config [OF assms(1)] assms(3-8)
  by (simp add: cb_rel_def state_of_history_def)

text \<open>Threshold two, reset after ten: blocked at 1, allowed, blocked at 2 and 3, and asked for its
  state at 20.\<close>

theorem breaker_state_from_history_witness:
  "\<exists>cb. cb_reach (NewCircuitBreaker [WithTripThreshold 2, WithResetAfter 10])
     [(20, CallState), (3, CallBlocked), (2, CallBlocked), (1, CallAllowed), (1, CallBlocked)] (20, cb) \<and>
   cb_failures cb = 2 \<and> cb_state cb = CircuitHalfOpen"
proof -
  let ?opts = "[WithTripThreshold 2, WithResetAfter 10]"
  let ?h = "[(20, CallState), (3, CallBlocked), (2, CallBlocked), (1, CallAllowed), (1, CallBlocked)]"
  have call: "cb_reach cb0 ((t', c) # h) (t', cb')" if "cb_reach cb0 h (t, cb)" "cb_step c (t, cb) (t', cb')"
    for cb0 h t cb t' cb' c
    using reach_call [OF that] by simp
  have "cb_reach (NewCircuitBreaker ?opts) [] (0, NewCircuitBreaker ?opts)" by (rule reach_start) simp
  from call [OF this step_blocked [of 0 1]] obtain cb1 where "cb_reach (NewCircuitBreaker ?opts) [(1, CallBlocked)] (1, cb1)"
    by auto
  from call [OF this step_allowed [of 1 1]] obtain cb2
    where "cb_reach (NewCircuitBreaker ?opts) [(1, CallAllowed), (1, CallBlocked)] (1, cb2)" by auto
  from call [OF this step_blocked [of 1 2]] obtain cb3
    where "cb_reach (NewCircuitBreaker ?opts) [(2, CallBlocked), (1, CallAllowed), (1, CallBlocked)] (2, cb3)" by auto
  from call [OF this step_blocked [of 2 3]] obtain cb4
    where "cb_reach (NewCircuitBreaker ?opts) [(3, CallBlocked), (2, CallBlocked), (1, CallAllowed), (1, CallBlocked)] (3, cb4)"
    by auto
  from call [OF this step_state [of 3 20]] obtain cb where run: "cb_reach (NewCircuitBreaker ?opts) ?h (20, cb)" by auto
  have "cb_failures cb = int (blocked_since ?h) \<and> cb_state cb = (if int (blocked_since ?h) < 2 then CircuitClosed
      else if probed 2 10 ?h then CircuitHalfOpen else CircuitOpen)"
    by (rule breaker_state_from_history [OF run])
      (simp_all add: breaker_options_def NewCircuitBreaker_def WithTripThreshold_def WithResetAfter_def)
  then have "cb_failures cb = 2 \<and> cb_state cb = CircuitHalfOpen" by simp
  with run show ?thesis by blast
qed

text \<open>Once half open, the breaker never opens again on blocked requests: however many the
  rate limiter refuses, and whenever, every later request is let through to it.\<close>

theorem half_open_never_reopens:
  assumes "cb_state cb = CircuitHalfOpen"
    and "\<And>r w s. next r w s = (r, do_wops (breaker_rw W) [SendHeader StatusTooManyRequests] w, s)"
  shows "\<exists>w' cb'. WithCircuitBreakerMiddleware W clk next r w (cb, s) = (r, w', (cb', s)) \<and>
    w' = WriteHeader W StatusTooManyRequests w \<and> cb_state cb' = CircuitHalfOpen"
  using assms
  by (simp add: WithCircuitBreakerMiddleware_def CircuitBreaker_State_def currentState_def Let_def
      rw_simps circuitBreaker_WriteHeader_def RecordBlocked_def)

theorem half_open_never_reopens_witness:
  "cb_state (fst (snd (snd (WithCircuitBreakerMiddleware conn_rw (\<lambda>s. s)
      (writes (breaker_rw conn_rw) [SendHeader StatusTooManyRequests])
      (\<lparr>Method = [], URL_Path = [], URL_String = [], URL_RequestURI = [], RequestURI = [],
        RemoteAddr = [], ReqHeader = [], ContentLength = 0, Body = None\<rparr>) new_conn
      ((NewCircuitBreaker [WithTripThreshold 1])\<lparr>cb_state := CircuitHalfOpen\<rparr>, 100 * second))))) =
    CircuitHalfOpen"
  using half_open_never_reopens [of "(NewCircuitBreaker [WithTripThreshold 1])\<lparr>cb_state := CircuitHalfOpen\<rparr>"
      "writes (breaker_rw conn_rw) [SendHeader StatusTooManyRequests]" conn_rw "\<lambda>s. s"
      "\<lparr>Method = [], URL_Path = [], URL_String = [], URL_RequestURI = [], RequestURI = [],
        RemoteAddr = [], ReqHeader = [], ContentLength = 0, Body = None\<rparr>" new_conn "100 * second"]
  by (auto simp: writes_def)



text \<open>The status the breaker goes by is the last one the handler set, also when the server ignored
  it: a second WriteHeader after the response has been sent decides.\<close>

lemma breaker_goes_by_last_code:
  "cbw_statusCode (do_wops (breaker_rw W) (ops @ [SendHeader code]) rw) = code"
  by (simp add: do_wops_def rw_simps circuitBreaker_WriteHeader_def)

end
