(* ===== verification/Metrics.thy ===== *)
theory Metrics
  imports Http
begin

section \<open>Metrics\<close>

text \<open>
  \<open>src/metrics.go\<close> and \<open>src/metrics_middleware.go\<close>. Three atomic counters; each method is one or
  more atomic operations on them, and requests interleave between these. \<open>m_step\<close> is the
  interleaving of the operations that are still to be done, one list per running call.
\<close>

record Metrics =
  m_allowed :: int
  m_blocked :: int
  m_total :: int

definition new_metrics :: Metrics where
  "new_metrics = \<lparr>m_allowed = 0, m_blocked = 0, m_total = 0\<rparr>"

definition Metrics_Allowed :: "Metrics \<Rightarrow> int" where "Metrics_Allowed m = m_allowed m"
definition Metrics_Blocked :: "Metrics \<Rightarrow> int" where "Metrics_Blocked m = m_blocked m"
definition Metrics_Total :: "Metrics \<Rightarrow> int" where "Metrics_Total m = m_total m"

text \<open>The atomic operations, and the methods as sequences of them.\<close>

datatype mop = AddTotal | AddAllowed | AddBlocked | ZeroAllowed | ZeroBlocked | ZeroTotal

fun do_mop :: "mop \<Rightarrow> Metrics \<Rightarrow> Metrics" where
  "do_mop AddTotal m = m\<lparr>m_total := i64 (m_total m + 1)\<rparr>"
| "do_mop AddAllowed m = m\<lparr>m_allowed := i64 (m_allowed m + 1)\<rparr>"
| "do_mop AddBlocked m = m\<lparr>m_blocked := i64 (m_blocked m + 1)\<rparr>"
| "do_mop ZeroAllowed m = m\<lparr>m_allowed := 0\<rparr>"
| "do_mop ZeroBlocked m = m\<lparr>m_blocked := 0\<rparr>"
| "do_mop ZeroTotal m = m\<lparr>m_total := 0\<rparr>"

definition Metrics_Reset :: "mop list" where "Metrics_Reset = [ZeroAllowed, ZeroBlocked, ZeroTotal]"
definition recordAllowed :: "mop list" where "recordAllowed = [AddTotal, AddAllowed]"
definition recordBlocked :: "mop list" where "recordBlocked = [AddTotal, AddBlocked]"

definition run_mops :: "mop list \<Rightarrow> Metrics \<Rightarrow> Metrics" where
  "run_mops ops m = fold do_mop ops m"

subsection \<open>The middleware\<close>

record 'w metricsResponseWriter =
  mw_inner :: 'w
  mw_code :: int
  mw_wrote :: bool

definition metrics_WriteHeader ::
  "'w rwriter \<Rightarrow> int \<Rightarrow> 'w metricsResponseWriter \<Rightarrow> 'w metricsResponseWriter" where
  "metrics_WriteHeader W code rw =
     (let rw1 = (if \<not> mw_wrote rw then rw\<lparr>mw_code := code, mw_wrote := True\<rparr> else rw)
      in rw1\<lparr>mw_inner := WriteHeader W code (mw_inner rw1)\<rparr>)"

definition metrics_Write ::
  "'w rwriter \<Rightarrow> string \<Rightarrow> 'w metricsResponseWriter \<Rightarrow> 'w metricsResponseWriter" where
  "metrics_Write W b rw =
     (let rw1 = (if \<not> mw_wrote rw then rw\<lparr>mw_code := StatusOK, mw_wrote := True\<rparr> else rw)
      in rw1\<lparr>mw_inner := Write W b (mw_inner rw1)\<rparr>)"

definition metrics_rw :: "'w rwriter \<Rightarrow> 'w metricsResponseWriter rwriter" where
  "metrics_rw W = (embed_rw W mw_inner mw_inner_update)
     \<lparr>WriteHeader := metrics_WriteHeader W, Write := metrics_Write W\<rparr>"

definition WithMetrics ::
  "('w metricsResponseWriter, 's) handler \<Rightarrow> ('w, Metrics \<times> 's) handler" where
  "WithMetrics next r w p =
     (case p of (m, s) \<Rightarrow>
        (case next r \<lparr>mw_inner = w, mw_code = StatusOK, mw_wrote = False\<rparr> s of (r', rw, s') \<Rightarrow>
           (r', mw_inner rw,
            (run_mops (if mw_code rw = StatusTooManyRequests then recordBlocked else recordAllowed) m, s'))))"

lemma metrics_rw_sel [rw_simps]:
  "HeaderOf (metrics_rw W) a = HeaderOf W (mw_inner a)"
  "PutHeader (metrics_rw W) h = mw_inner_update (PutHeader W h)"
  "WriteHeader (metrics_rw W) = metrics_WriteHeader W"
  "Write (metrics_rw W) = metrics_Write W"
  by (simp_all add: metrics_rw_def embed_rw_def)

context response_writer
begin

lemma metrics_writer: "response_writer (metrics_rw W) (\<lambda>rw. status (mw_inner rw))"
  by (rule embedded_writer [OF response_writer_axioms])
    (simp_all add: rw_simps metrics_WriteHeader_def metrics_Write_def Let_def)

text \<open>What the wrapper has seen is what the writer below has sent.\<close>

definition seen_ok :: "'w metricsResponseWriter \<Rightarrow> bool" where
  "seen_ok rw \<longleftrightarrow> status (mw_inner rw) = (if mw_wrote rw then Some (mw_code rw) else None)"

lemma seen_ok_wop: "good_wop op \<Longrightarrow> seen_ok rw \<Longrightarrow> seen_ok (do_wop (metrics_rw W) op rw)"
  by (cases op)
    (auto simp: seen_ok_def rw_simps rw_set_def metrics_WriteHeader_def metrics_Write_def Let_def
      status_put status_first status_kept status_write)

lemma seen_ok_wops: "list_all good_wop ops \<Longrightarrow> seen_ok rw \<Longrightarrow> seen_ok (do_wops (metrics_rw W) ops rw)"
  by (induction ops arbitrary: rw) (simp_all add: seen_ok_wop)

lemma unwritten_code:
  "mw_wrote rw \<or> mw_code rw = 200 \<Longrightarrow>
   mw_wrote (do_wops (metrics_rw W) ops rw) \<or> mw_code (do_wops (metrics_rw W) ops rw) = 200"
proof (induction ops arbitrary: rw)
  case (Cons op ops)
  have "mw_wrote (do_wop (metrics_rw W) op rw) \<or> mw_code (do_wop (metrics_rw W) op rw) = 200"
    using Cons.prems
    by (cases op) (auto simp: rw_simps rw_set_def metrics_WriteHeader_def metrics_Write_def Let_def)
  then show ?case by (simp add: Cons.IH)
qed simp

end

interpretation metrics_conn: response_writer "metrics_rw conn_rw" "\<lambda>rw. conn_status (mw_inner rw)"
  by (rule server_rw.metrics_writer)

text \<open>The code the wrapper has noted in the end is the one the client gets.\<close>

lemma metrics_code_sent:
  assumes "list_all good_wop ops" and "cSent c = None"
  defines "rw \<equiv> do_wops (metrics_rw conn_rw) ops \<lparr>mw_inner = c, mw_code = 200, mw_wrote = False\<rparr>"
  shows "mw_code rw = resp_code (mw_inner rw)"
proof -
  have "server_rw.seen_ok rw" unfolding rw_def
    using assms(1,2) by (intro server_rw.seen_ok_wops) (simp_all add: server_rw.seen_ok_def conn_status_def)
  moreover have "mw_wrote rw \<or> mw_code rw = 200" unfolding rw_def
    by (rule server_rw.unwritten_code) simp
  ultimately show ?thesis
    by (auto simp: server_rw.seen_ok_def conn_status_def resp_code_def split: if_splits option.splits)
qed

subsection \<open>Interleavings\<close>

inductive m_step :: "Metrics \<times> mop list list \<Rightarrow> Metrics \<times> mop list list \<Rightarrow> bool" where
  run_op: "i < length ps \<Longrightarrow> ps ! i = op # ops \<Longrightarrow> m_step (m, ps) (do_mop op m, ps[i := ops])"

inductive_cases m_stepE: "m_step (m, ps) (m', ps')"

inductive m_steps :: "Metrics \<times> mop list list \<Rightarrow> Metrics \<times> mop list list \<Rightarrow> bool" for p where
  m_refl: "m_steps p p"
| m_trans: "m_steps p q \<Longrightarrow> m_step q q' \<Longrightarrow> m_steps p q'"

definition mop_count :: "mop \<Rightarrow> mop list list \<Rightarrow> int" where
  "mop_count op ps = int (length (filter (\<lambda>x. x = op) (concat ps)))"

lemma mop_count_update:
  assumes "i < length ps" and "ps ! i = op # ops"
  shows "mop_count x (ps[i := ops]) = mop_count x ps - (if x = op then 1 else 0)"
proof -
  have "ps = take i ps @ (op # ops) # drop (Suc i) ps" using assms id_take_nth_drop by metis
  then have "concat ps = concat (take i ps) @ (op # ops) @ concat (drop (Suc i) ps)"
    by (metis concat.simps(2) concat_append)
  moreover have "concat (ps[i := ops]) = concat (take i ps) @ ops @ concat (drop (Suc i) ps)"
    using assms(1) by (simp add: upd_conv_take_nth_drop)
  ultimately show ?thesis by (simp add: mop_count_def)
qed

lemma mop_count_member: "i < length ps \<Longrightarrow> ps ! i = op # ops \<Longrightarrow> op \<in> set (concat ps)"
  by (metis UN_I list.set_intros(1) nth_mem set_concat)

text \<open>Without a reset, what is done and what is still to be done adds up.\<close>

definition m_sum :: "Metrics \<times> mop list list \<Rightarrow> int \<times> int \<times> int" where
  "m_sum p = (case p of (m, ps) \<Rightarrow>
     (m_total m + mop_count AddTotal ps, m_allowed m + mop_count AddAllowed ps,
      m_blocked m + mop_count AddBlocked ps))"

definition no_reset :: "mop list list \<Rightarrow> bool" where
  "no_reset ps \<longleftrightarrow> set (concat ps) \<subseteq> {AddTotal, AddAllowed, AddBlocked}"

definition m_small :: "Metrics \<times> mop list list \<Rightarrow> bool" where
  "m_small p \<longleftrightarrow> (case m_sum p of (a, b, c) \<Rightarrow> a \<le> max_i64 \<and> b \<le> max_i64 \<and> c \<le> max_i64) \<and>
     0 \<le> m_total (fst p) \<and> 0 \<le> m_allowed (fst p) \<and> 0 \<le> m_blocked (fst p)"

lemma mop_count_pos: "i < length ps \<Longrightarrow> ps ! i = op # ops \<Longrightarrow> 1 \<le> mop_count op ps"
proof -
  assume a: "i < length ps" "ps ! i = op # ops"
  have "0 \<le> mop_count op (ps[i := ops])" by (simp add: mop_count_def)
  with mop_count_update [OF a, of op] show ?thesis by simp
qed

lemma m_step_sum:
  assumes "m_step p q" and "no_reset (snd p)" and "m_small p"
  shows "m_sum q = m_sum p \<and> no_reset (snd q) \<and> m_small q"
  using assms(1)
proof cases
  case (run_op i ps op ops m)
  have "op \<in> {AddTotal, AddAllowed, AddBlocked}"
    using mop_count_member [OF run_op(3,4)] assms(2) run_op(1) by (auto simp: no_reset_def)
  moreover have "no_reset (ps[i := ops])"
  proof -
    have "concat ps = concat (take i ps) @ (op # ops) @ concat (drop (Suc i) ps)"
      using run_op(3,4) by (metis append_take_drop_id Cons_nth_drop_Suc concat.simps(2) concat_append)
    then have "set (concat (ps[i := ops])) \<subseteq> set (concat ps)"
      using run_op(3) by (auto simp: upd_conv_take_nth_drop)
    with assms(2) run_op(1) show ?thesis by (auto simp: no_reset_def)
  qed
  ultimately show ?thesis
    using assms(3) run_op(1,2) mop_count_update [OF run_op(3,4)] mop_count_pos [OF run_op(3,4)]
    by (auto simp: m_sum_def m_small_def i64_id)
qed

lemma m_steps_sum:
  "m_steps p q \<Longrightarrow> no_reset (snd p) \<Longrightarrow> m_small p \<Longrightarrow> m_sum q = m_sum p \<and> no_reset (snd q) \<and> m_small q"
  by (induction rule: m_steps.induct) (auto dest: m_step_sum)

lemma count_record:
  "mop_count AddTotal (map (\<lambda>b. if b then recordBlocked else recordAllowed) bs) = int (length bs)"
  "mop_count AddBlocked (map (\<lambda>b. if b then recordBlocked else recordAllowed) bs) =
     int (length (filter id bs))"
  "mop_count AddAllowed (map (\<lambda>b. if b then recordBlocked else recordAllowed) bs) =
     int (length (filter Not bs))"
  by (induction bs) (auto simp: mop_count_def recordBlocked_def recordAllowed_def)

subsection \<open>Properties\<close>

text \<open>C21. A request is recorded as blocked exactly when the status the client gets is 429, for
  handlers that send final status codes, however often they try to.\<close>

theorem metrics_record_sent_status:
  assumes "list_all good_wop ops" and "cSent c = None"
    and "WithMetrics (writes (metrics_rw conn_rw) ops) r c (m, s) = (r', c', (m', s'))"
  shows "m' = run_mops (if resp_code c' = 429 then recordBlocked else recordAllowed) m"
  using assms(3) metrics_code_sent [OF assms(1,2)] by (auto simp: WithMetrics_def writes_def)

theorem metrics_record_sent_status_witness:
  "\<exists>c'. WithMetrics (writes (metrics_rw conn_rw) [SendHeader 429, SendHeader 200])
      \<lparr>Method = [], URL_Path = [], URL_String = [], URL_RequestURI = [], RequestURI = [],
        RemoteAddr = [], ReqHeader = [], ContentLength = 0, Body = None\<rparr> new_conn (new_metrics, ()) =
    (\<lparr>Method = [], URL_Path = [], URL_String = [], URL_RequestURI = [], RequestURI = [],
        RemoteAddr = [], ReqHeader = [], ContentLength = 0, Body = None\<rparr>, c',
     (\<lparr>m_allowed = 0, m_blocked = 1, m_total = 1\<rparr>, ()))"
proof -
  let ?r = "\<lparr>Method = [], URL_Path = [], URL_String = [], URL_RequestURI = [], RequestURI = [],
        RemoteAddr = [], ReqHeader = [], ContentLength = 0, Body = None\<rparr>"
  obtain r' c' m' s' where run: "WithMetrics (writes (metrics_rw conn_rw) [SendHeader 429, SendHeader 200])
      ?r new_conn (new_metrics, ()) = (r', c', (m', s'))" by (metis surj_pair)
  have "r' = ?r" "resp_code c' = 429"
    using run by (auto simp: WithMetrics_def writes_def rw_simps metrics_WriteHeader_def new_conn_def
        resp_code_def)
  with metrics_record_sent_status [OF _ _ run] run show ?thesis
    by (auto simp: new_conn_def new_metrics_def run_mops_def recordBlocked_def i64_id)
qed

text \<open>C22. However the calls of any number of requests interleave, once they are done the total is
  the number of requests, and the blocked and allowed ones add up to it.\<close>

theorem metrics_add_up:
  assumes "m_steps (new_metrics, map (\<lambda>b. if b then recordBlocked else recordAllowed) bs) (m, ps)"
    and "concat ps = []" and "int (length bs) \<le> max_i64"
  shows "Metrics_Total m = int (length bs) \<and> Metrics_Blocked m = int (length (filter id bs)) \<and>
    Metrics_Allowed m + Metrics_Blocked m = Metrics_Total m"
proof -
  let ?p = "(new_metrics, map (\<lambda>b. if b then recordBlocked else recordAllowed) bs)"
  have part: "length (filter id bs) + length (filter Not bs) = length bs"
    using sum_length_filter_compl [of id bs] by simp
  have "no_reset (snd ?p)"
    by (auto simp: no_reset_def recordBlocked_def recordAllowed_def split: if_splits)
  moreover have "m_small ?p"
    using assms(3) part by (simp add: m_small_def m_sum_def count_record new_metrics_def)
  ultimately have "m_sum (m, ps) = m_sum ?p" using m_steps_sum [OF assms(1)] by blast
  moreover have "mop_count x ps = 0" for x by (simp only: mop_count_def assms(2)) simp
  ultimately show ?thesis
    using part by (simp add: m_sum_def count_record new_metrics_def Metrics_Total_def
        Metrics_Blocked_def Metrics_Allowed_def)
qed

theorem metrics_add_up_witness:
  "\<exists>m ps. m_steps (new_metrics, map (\<lambda>b. if b then recordBlocked else recordAllowed) [True]) (m, ps) \<and>
     Metrics_Total m = 1"
proof -
  let ?p0 = "(new_metrics, [[AddTotal, AddBlocked]])" and ?p1 = "(do_mop AddTotal new_metrics, [[AddBlocked]])"
    and ?p2 = "(do_mop AddBlocked (do_mop AddTotal new_metrics), [[]])"
  have s1: "m_step ?p0 ?p1"
    using m_step.run_op [of 0 "[[AddTotal, AddBlocked]]" AddTotal "[AddBlocked]" new_metrics] by simp
  have s2: "m_step ?p1 ?p2"
    using m_step.run_op [of 0 "[[AddBlocked]]" AddBlocked "[]" "do_mop AddTotal new_metrics"] by simp
  have "m_steps ?p0 ?p2" using m_trans [OF m_trans [OF m_refl s1] s2] .
  then have steps: "m_steps (new_metrics, map (\<lambda>b. if b then recordBlocked else recordAllowed) [True]) ?p2"
    by (simp add: recordBlocked_def)
  with metrics_add_up [OF steps] show ?thesis by (intro exI conjI) auto
qed

text \<open>A Reset in the middle of a call leaves the counters apart for good: more requests are
  counted as allowed than there were in total.\<close>

theorem metrics_reset_race:
  "\<exists>m. m_steps (new_metrics, [recordAllowed, Metrics_Reset]) (m, [[], []]) \<and>
     Metrics_Allowed m + Metrics_Blocked m \<noteq> Metrics_Total m"
proof -
  let ?m1 = "do_mop AddTotal new_metrics"
  let ?m2 = "do_mop ZeroAllowed ?m1"
  let ?m3 = "do_mop ZeroBlocked ?m2"
  let ?m4 = "do_mop ZeroTotal ?m3"
  have "m_step (new_metrics, [recordAllowed, Metrics_Reset]) (?m1, [[AddAllowed], Metrics_Reset])"
    using run_op [of 0 "[recordAllowed, Metrics_Reset]" AddTotal "[AddAllowed]"]
    by (simp add: recordAllowed_def)
  moreover have "m_step (?m1, [[AddAllowed], Metrics_Reset]) (?m2, [[AddAllowed], [ZeroBlocked, ZeroTotal]])"
    using run_op [of 1 "[[AddAllowed], Metrics_Reset]" ZeroAllowed "[ZeroBlocked, ZeroTotal]" ?m1]
    by (simp add: Metrics_Reset_def)
  moreover have "m_step (?m2, [[AddAllowed], [ZeroBlocked, ZeroTotal]]) (?m3, [[AddAllowed], [ZeroTotal]])"
    using run_op [of 1 "[[AddAllowed], [ZeroBlocked, ZeroTotal]]" ZeroBlocked "[ZeroTotal]" ?m2] by simp
  moreover have "m_step (?m3, [[AddAllowed], [ZeroTotal]]) (?m4, [[AddAllowed], []])"
    using run_op [of 1 "[[AddAllowed], [ZeroTotal]]" ZeroTotal "[]" ?m3] by simp
  moreover have "m_step (?m4, [[AddAllowed], []]) (do_mop AddAllowed ?m4, [[], []])"
    using run_op [of 0 "[[AddAllowed], []]" AddAllowed "[]" ?m4] by simp
  ultimately have "m_steps (new_metrics, [recordAllowed, Metrics_Reset]) (do_mop AddAllowed ?m4, [[], []])"
    by (meson m_refl m_trans)
  then show ?thesis
    by (intro exI conjI) (auto simp: new_metrics_def Metrics_Allowed_def Metrics_Blocked_def Metrics_Total_def)
qed

end
