(* ===== verification/Adaptive.thy ===== *)
theory Adaptive
  imports Http GoFloat
begin

section \<open>Adaptive limit\<close>

text \<open>
  \<open>src/adaptive_limit.go\<close> (its \<open>itoa\<close> is in \<open>Text\<close>). The limit that follows the load, between
  the two marks by linear interpolation in floating point. The load function reads a load out
  of the state; \<open>None\<close> is a nil function.
\<close>

record 's AdaptiveConfig =
  ac_BaseLimit :: int
  ac_MinLimit :: int
  ac_MaxLimit :: int
  ac_LoadFunc :: "('s \<Rightarrow> rat) option"
  ac_HighLoadMark :: rat
  ac_LowLoadMark :: rat

record 's AdaptiveLimiter =
  al_cfg :: "'s AdaptiveConfig"
  al_currentLimit :: int

definition NewAdaptiveLimiter :: "'s AdaptiveConfig \<Rightarrow> 's AdaptiveLimiter" where
  "NewAdaptiveLimiter cfg0 =
     (let cfg1 = (if ac_MinLimit cfg0 \<le> 0 then cfg0\<lparr>ac_MinLimit := 1\<rparr> else cfg0);
          cfg2 = (if ac_MaxLimit cfg1 \<le> 0 then cfg1\<lparr>ac_MaxLimit := i64 (ac_BaseLimit cfg1 * 2)\<rparr> else cfg1);
          cfg3 = (if ac_HighLoadMark cfg2 = 0 then cfg2\<lparr>ac_HighLoadMark := fl64 (8 / 10)\<rparr> else cfg2);
          cfg4 = (if ac_LowLoadMark cfg3 = 0 then cfg3\<lparr>ac_LowLoadMark := fl64 (4 / 10)\<rparr> else cfg3)
      in \<lparr>al_cfg = cfg4, al_currentLimit = ac_BaseLimit cfg4\<rparr>)"

definition CurrentLimit :: "'s AdaptiveLimiter \<Rightarrow> int" where
  "CurrentLimit a = al_currentLimit a"

definition limit_for :: "'s AdaptiveConfig \<Rightarrow> rat \<Rightarrow> int" where
  "limit_for cfg load =
     (if ac_HighLoadMark cfg \<le> load then ac_MinLimit cfg
      else if load \<le> ac_LowLoadMark cfg then ac_MaxLimit cfg
      else let rng = fsub (ac_HighLoadMark cfg) (ac_LowLoadMark cfg);
               ratio = fdiv (fsub load (ac_LowLoadMark cfg)) rng;
               span = float_of_int (i64 (ac_MaxLimit cfg - ac_MinLimit cfg))
           in i64 (ac_MaxLimit cfg - int_of_float (fmul ratio span)))"

definition Recalculate :: "'s \<Rightarrow> 's AdaptiveLimiter \<Rightarrow> 's AdaptiveLimiter" where
  "Recalculate s a =
     (case ac_LoadFunc (al_cfg a) of
        None \<Rightarrow> a
      | Some load \<Rightarrow> a\<lparr>al_currentLimit := limit_for (al_cfg a) (load s)\<rparr>)"

definition WithAdaptiveLimit ::
  "'w rwriter \<Rightarrow> ('w, 's) handler \<Rightarrow> ('w, 's AdaptiveLimiter \<times> 's) handler" where
  "WithAdaptiveLimit W next r w p =
     (case p of (al, s) \<Rightarrow>
        let al1 = Recalculate s al;
            w1 = rw_set W ''X-RateLimit-Adaptive-Limit'' (itoa (CurrentLimit al1)) w
        in case next r w1 s of (r', w', s') \<Rightarrow> (r', w', (al1, s')))"

text \<open>Limits that are exact as floats, the smaller first.\<close>

definition ac_ok :: "'s AdaptiveConfig \<Rightarrow> bool" where
  "ac_ok cfg \<longleftrightarrow> 0 \<le> ac_MinLimit cfg \<and> ac_MinLimit cfg \<le> ac_MaxLimit cfg \<and> ac_MaxLimit cfg \<le> 2 ^ 53"

text \<open>The interpolated part lies between nothing and the whole span, and grows with the load.\<close>

definition interpolated :: "'s AdaptiveConfig \<Rightarrow> rat \<Rightarrow> int" where
  "interpolated cfg load =
     int_of_float (fmul (fdiv (fsub load (ac_LowLoadMark cfg))
       (fsub (ac_HighLoadMark cfg) (ac_LowLoadMark cfg))) (of_int (ac_MaxLimit cfg - ac_MinLimit cfg)))"

lemma interpolated_bounds:
  assumes ok: "ac_ok cfg" and load: "ac_LowLoadMark cfg < load" "load < ac_HighLoadMark cfg"
  shows "0 \<le> interpolated cfg load" and "interpolated cfg load \<le> ac_MaxLimit cfg - ac_MinLimit cfg"
proof -
  let ?n = "fsub load (ac_LowLoadMark cfg)" and ?d = "fsub (ac_HighLoadMark cfg) (ac_LowLoadMark cfg)"
  let ?s = "ac_MaxLimit cfg - ac_MinLimit cfg"
  have d: "0 < ?d" using load by (simp add: fsub_def fl64_pos)
  have n: "0 \<le> ?n" "?n \<le> ?d" using load by (auto simp: fsub_def intro: fl64_nonneg fl64_mono)
  then have "0 \<le> ?n / ?d" "?n / ?d \<le> of_int 1" using d by simp_all
  then have r: "0 \<le> fdiv ?n ?d" "fdiv ?n ?d \<le> of_int 1"
    unfolding fdiv_def by (auto intro: fl64_nonneg fl64_le_int [of 1, simplified])
  have s: "0 \<le> ?s" "\<bar>?s\<bar> \<le> 2 ^ 53" using ok by (simp_all add: ac_ok_def)
  have "fdiv ?n ?d * of_int ?s \<le> of_int ?s"
    using r(2) s(1) mult_right_mono [of "fdiv ?n ?d" 1 "of_int ?s"] by simp
  then have "fmul (fdiv ?n ?d) (of_int ?s) \<le> of_int ?s"
    unfolding fmul_def by (rule fl64_le_int [OF s(2)])
  moreover have "0 \<le> fmul (fdiv ?n ?d) (of_int ?s)"
    unfolding fmul_def using r(1) s(1) by (intro fl64_nonneg mult_nonneg_nonneg) simp_all
  ultimately show "0 \<le> interpolated cfg load" "interpolated cfg load \<le> ?s"
    using int_of_float_mono [of 0 "fmul (fdiv ?n ?d) (of_int ?s)"]
      int_of_float_mono [of "fmul (fdiv ?n ?d) (of_int ?s)" "of_int ?s"] int_of_float_of_int [of 0]
    unfolding interpolated_def by (simp_all del: of_int_diff)
qed

lemma interpolated_mono:
  assumes ok: "ac_ok cfg" and load: "ac_LowLoadMark cfg < a" "a \<le> b" "b < ac_HighLoadMark cfg"
  shows "interpolated cfg a \<le> interpolated cfg b"
proof -
  let ?d = "fsub (ac_HighLoadMark cfg) (ac_LowLoadMark cfg)"
  let ?s = "ac_MaxLimit cfg - ac_MinLimit cfg"
  have d: "0 < ?d" using load by (simp add: fsub_def fl64_pos)
  have "fsub a (ac_LowLoadMark cfg) \<le> fsub b (ac_LowLoadMark cfg)"
    using load by (simp add: fsub_def fl64_mono)
  then have "fdiv (fsub a (ac_LowLoadMark cfg)) ?d \<le> fdiv (fsub b (ac_LowLoadMark cfg)) ?d"
    unfolding fdiv_def using d by (intro fl64_mono divide_right_mono) simp_all
  moreover have "(0 :: rat) \<le> of_int ?s" using ok by (simp add: ac_ok_def)
  ultimately show ?thesis
    unfolding interpolated_def fmul_def by (intro int_of_float_mono fl64_mono mult_right_mono)
qed

lemma limit_for_between:
  assumes "ac_ok cfg" and "ac_LowLoadMark cfg < load" and "load < ac_HighLoadMark cfg"
  shows "limit_for cfg load = ac_MaxLimit cfg - interpolated cfg load"
proof -
  let ?s = "ac_MaxLimit cfg - ac_MinLimit cfg"
  have s: "0 \<le> ?s" "?s \<le> 2 ^ 53" using assms(1) by (simp_all add: ac_ok_def)
  then have span: "float_of_int (i64 ?s) = of_int ?s" by (simp add: i64_id float_of_int_exact)
  have fits: "i64 (ac_MaxLimit cfg - interpolated cfg load) = ac_MaxLimit cfg - interpolated cfg load"
    using interpolated_bounds [OF assms] assms(1) by (intro i64_id) (auto simp: ac_ok_def)
  show ?thesis
    using assms(2,3) fits by (simp add: limit_for_def Let_def span interpolated_def)
qed

lemma limit_for_bounds:
  assumes "ac_ok cfg"
  shows "ac_MinLimit cfg \<le> limit_for cfg load \<and> limit_for cfg load \<le> ac_MaxLimit cfg"
proof (cases "ac_LowLoadMark cfg < load \<and> load < ac_HighLoadMark cfg")
  case True
  with limit_for_between [OF assms] interpolated_bounds [OF assms, of load] show ?thesis by simp
next
  case False
  with assms show ?thesis by (auto simp: limit_for_def ac_ok_def)
qed

lemma limit_for_antimono:
  assumes ok: "ac_ok cfg" and marks: "ac_LowLoadMark cfg < ac_HighLoadMark cfg" and ab: "a \<le> b"
  shows "limit_for cfg b \<le> limit_for cfg a"
proof (cases "ac_HighLoadMark cfg \<le> b \<or> a \<le> ac_LowLoadMark cfg")
  case True
  have "limit_for cfg b = ac_MinLimit cfg" if "ac_HighLoadMark cfg \<le> b"
    using that by (simp add: limit_for_def)
  moreover have "limit_for cfg a = ac_MaxLimit cfg" if "a \<le> ac_LowLoadMark cfg"
    using that marks by (simp add: limit_for_def)
  ultimately show ?thesis
    using True limit_for_bounds [OF ok, of a] limit_for_bounds [OF ok, of b] by auto
next
  case False
  then have "ac_LowLoadMark cfg < a" "a < ac_HighLoadMark cfg" "ac_LowLoadMark cfg < b"
    "b < ac_HighLoadMark cfg" using ab by auto
  with limit_for_between [OF ok] interpolated_mono [OF ok _ ab] show ?thesis by simp
qed

subsection \<open>Properties\<close>

text \<open>C23. Whatever the load function returns, the recalculated limit lies between the two limits,
  a higher load never gives a higher limit, and the header holds the limit in decimal.\<close>

theorem adaptive_limit_follows_load:
  assumes "ac_ok (al_cfg a)" and "ac_LowLoadMark (al_cfg a) < ac_HighLoadMark (al_cfg a)"
    and "ac_LoadFunc (al_cfg a) = Some load" and "load s \<le> load s'"
  shows "ac_MinLimit (al_cfg a) \<le> CurrentLimit (Recalculate s' a) \<and>
    CurrentLimit (Recalculate s' a) \<le> CurrentLimit (Recalculate s a) \<and>
    CurrentLimit (Recalculate s a) \<le> ac_MaxLimit (al_cfg a) \<and>
    Atoi (hget (HeaderOf conn_rw (fst (snd (WithAdaptiveLimit conn_rw (\<lambda>r w s. (r, w, s)) r c (a, s)))))
      ''X-RateLimit-Adaptive-Limit'') = Some (CurrentLimit (Recalculate s a))"
proof -
  let ?l = "limit_for (al_cfg a) (load s)"
  have b: "ac_MinLimit (al_cfg a) \<le> ?l" "?l \<le> ac_MaxLimit (al_cfg a)"
    using limit_for_bounds [OF assms(1)] by auto
  then have "0 \<le> ?l" "in_i64 ?l" using assms(1) by (auto simp: ac_ok_def in_i64_def)
  then have "Atoi (itoa ?l) = Some ?l" by (simp add: itoa_eq Atoi_Itoa)
  with b assms(3) limit_for_bounds [OF assms(1), of "load s'"]
    limit_for_antimono [OF assms(1,2,4)]
  show ?thesis
    by (simp add: CurrentLimit_def Recalculate_def WithAdaptiveLimit_def Let_def rw_set_def rw_simps hdr_simps)
qed

theorem adaptive_limit_follows_load_witness:
  "CurrentLimit (Recalculate (3/4) \<lparr>al_cfg = \<lparr>ac_BaseLimit = 100, ac_MinLimit = 10, ac_MaxLimit = 200,
      ac_LoadFunc = Some (\<lambda>s. s), ac_HighLoadMark = 1, ac_LowLoadMark = 1/2\<rparr>, al_currentLimit = 100\<rparr>) \<in> {10..200}"
proof -
  let ?cfg = "\<lparr>ac_BaseLimit = 100, ac_MinLimit = 10, ac_MaxLimit = 200,
      ac_LoadFunc = Some (\<lambda>s :: rat. s), ac_HighLoadMark = 1, ac_LowLoadMark = 1/2\<rparr>"
  show ?thesis
    using adaptive_limit_follows_load [of "\<lparr>al_cfg = ?cfg, al_currentLimit = 100\<rparr>" "\<lambda>s. s" "3/4" "3/4"]
    by (simp add: ac_ok_def)
qed

end
