(* ===== verification/Priority.thy ===== *)
theory Priority
  imports Http GoFloat RedisStore
begin

section \<open>Request priority\<close>

text \<open>
  \<open>src/request_priority.go\<close> and \<open>src/request_priority_option.go\<close>. The handler counts a request
  under its remote address and answers itself; there is no next handler. The error of the
  store is dropped, and the count a store returns with one is 0. The window is \<open>windowTTL\<close>, a
  plain 60 where a \<open>time.Duration\<close> is wanted, that is 60 nanoseconds. Go leaves open what the
  conversion of a float64 to an int gives when the value is out of range: it is the parameter \<open>oob\<close>, and
  on amd64 the smallest int. Multipliers are finite.
\<close>

definition PriorityLow :: int where "PriorityLow = 1"
definition PriorityNormal :: int where "PriorityNormal = 5"
definition PriorityHigh :: int where "PriorityHigh = 10"

record ('w, 's) PriorityConfig =
  pc_keyFunc :: "req \<Rightarrow> int"
  pc_highLimitMult :: rat
  pc_lowLimitMult :: rat
  pc_exceededHandler :: "('w, 's) handler"

definition defaultPriorityKeyFunc :: "req \<Rightarrow> int" where
  "defaultPriorityKeyFunc r =
     (let v = req_hget r ''X-Request-Priority''
      in if v = [] then PriorityNormal
         else (case Atoi v of
                 None \<Rightarrow> PriorityNormal
               | Some n \<Rightarrow> if n < 1 then PriorityNormal else n))"

definition defaultPriorityExceededHandler :: "'w rwriter \<Rightarrow> ('w, 's) handler" where
  "defaultPriorityExceededHandler W r w s =
     (r, http_Error W ''Too Many Requests'' StatusTooManyRequests w, s)"

definition WithPriorityKeyFunc ::
  "(req \<Rightarrow> int) option \<Rightarrow> ('w, 's) PriorityConfig \<Rightarrow> ('w, 's) PriorityConfig" where
  "WithPriorityKeyFunc fn c = (case fn of None \<Rightarrow> c | Some f \<Rightarrow> c\<lparr>pc_keyFunc := f\<rparr>)"

definition WithHighLimitMultiplier :: "rat \<Rightarrow> ('w, 's) PriorityConfig \<Rightarrow> ('w, 's) PriorityConfig" where
  "WithHighLimitMultiplier m c = (if 1 \<le> m then c\<lparr>pc_highLimitMult := m\<rparr> else c)"

definition WithLowLimitMultiplier :: "rat \<Rightarrow> ('w, 's) PriorityConfig \<Rightarrow> ('w, 's) PriorityConfig" where
  "WithLowLimitMultiplier m c = (if 0 < m \<and> m \<le> 1 then c\<lparr>pc_lowLimitMult := m\<rparr> else c)"

definition WithPriorityExceededHandler ::
  "('w, 's) handler option \<Rightarrow> ('w, 's) PriorityConfig \<Rightarrow> ('w, 's) PriorityConfig" where
  "WithPriorityExceededHandler h c = (case h of None \<Rightarrow> c | Some f \<Rightarrow> c\<lparr>pc_exceededHandler := f\<rparr>)"

definition priority_config ::
  "'w rwriter \<Rightarrow> (('w, 's) PriorityConfig \<Rightarrow> ('w, 's) PriorityConfig) list \<Rightarrow> ('w, 's) PriorityConfig" where
  "priority_config W opts =
     fold (\<lambda>opt c. opt c) opts
       \<lparr>pc_keyFunc = defaultPriorityKeyFunc, pc_highLimitMult = 2, pc_lowLimitMult = 1 / 2,
        pc_exceededHandler = defaultPriorityExceededHandler W\<rparr>"

definition float_to_int :: "(rat \<Rightarrow> int) \<Rightarrow> rat \<Rightarrow> int" where
  "float_to_int oob x = (if in_i64 (int_of_float x) then int_of_float x else oob x)"

definition amd64_oob :: "rat \<Rightarrow> int" where
  "amd64_oob x = min_i64"

definition effectiveLimit :: "(rat \<Rightarrow> int) \<Rightarrow> ('w, 's) PriorityConfig \<Rightarrow> int \<Rightarrow> int \<Rightarrow> int" where
  "effectiveLimit oob cfg limit priority =
     (let l = (if PriorityHigh \<le> priority then float_to_int oob (fmul (float_of_int limit) (pc_highLimitMult cfg))
               else if priority \<le> PriorityLow then float_to_int oob (fmul (float_of_int limit) (pc_lowLimitMult cfg))
               else limit)
      in if l < 1 then 1 else l)"

definition windowTTL :: duration where "windowTTL = 60"

definition priority_max :: "int \<Rightarrow> int \<Rightarrow> int" where
  "priority_max a b = (if b < a then a else b)"

definition priority_key :: "req \<Rightarrow> string" where
  "priority_key r = ''priority:'' @ RemoteAddr r"

definition WithRequestPriority ::
  "(rat \<Rightarrow> int) \<Rightarrow> 'w rwriter \<Rightarrow> ('s \<Rightarrow> gotime) \<Rightarrow> 's Store \<Rightarrow> int \<Rightarrow> ('w, 's) PriorityConfig \<Rightarrow> ('w, 's) handler" where
  "WithRequestPriority oob W clk S limit cfg r w s =
     (let eff = effectiveLimit oob cfg limit (pc_keyFunc cfg r)
      in case Increment S (clk s) (priority_key r) windowTTL s of (res, s1) \<Rightarrow>
           let count = (case res of Inl _ \<Rightarrow> 0 | Inr n \<Rightarrow> n);
               w1 = rw_set W ''X-RateLimit-Limit'' (Itoa eff) w;
               w2 = rw_set W ''X-RateLimit-Remaining'' (Itoa (priority_max 0 (i64 (eff - count)))) w1
           in if eff < count then pc_exceededHandler cfg r w2 s1
              else (r, WriteHeader W StatusOK w2, s1))"

text \<open>The options keep the multipliers in their documented ranges.\<close>

definition mults_ok :: "('w, 's) PriorityConfig \<Rightarrow> bool" where
  "mults_ok c \<longleftrightarrow> 1 \<le> pc_highLimitMult c \<and> 0 < pc_lowLimitMult c \<and> pc_lowLimitMult c \<le> 1"

datatype ('w, 's) PriorityOption =
    OptKeyFunc "(req \<Rightarrow> int) option"
  | OptHigh rat
  | OptLow rat
  | OptExceeded "('w, 's) handler option"

fun apply_opt :: "('w, 's) PriorityOption \<Rightarrow> ('w, 's) PriorityConfig \<Rightarrow> ('w, 's) PriorityConfig" where
  "apply_opt (OptKeyFunc f) = WithPriorityKeyFunc f"
| "apply_opt (OptHigh m) = WithHighLimitMultiplier m"
| "apply_opt (OptLow m) = WithLowLimitMultiplier m"
| "apply_opt (OptExceeded h) = WithPriorityExceededHandler h"

lemma mults_ok_opt: "mults_ok c \<Longrightarrow> mults_ok (apply_opt opt c)"
  by (cases opt) (auto simp: mults_ok_def WithPriorityKeyFunc_def WithHighLimitMultiplier_def
      WithLowLimitMultiplier_def WithPriorityExceededHandler_def split: option.splits)

lemma mults_ok_config: "mults_ok (priority_config W (map apply_opt opts))"
proof -
  have "mults_ok (fold (\<lambda>opt c. opt c) (map apply_opt opts) c)" if "mults_ok c" for c :: "('a, 'b) PriorityConfig"
    using that by (induction opts arbitrary: c) (simp_all add: mults_ok_opt)
  then show ?thesis by (simp add: priority_config_def mults_ok_def)
qed

lemma float_to_int_in_range:
  "0 \<le> x \<Longrightarrow> x < 2 ^ 63 \<Longrightarrow> float_to_int oob x = int_of_float x"
  by (auto simp: float_to_int_def in_i64_def int_of_float_def floor_less_iff le_floor_iff)

lemma effectiveLimit_ordered:
  assumes ok: "mults_ok cfg" and limit: "1 \<le> limit" "limit \<le> 2 ^ 53" and p: "p \<le> q"
    and range: "fmul (float_of_int limit) (pc_highLimitMult cfg) < 2 ^ 63"
  shows "effectiveLimit oob cfg limit p \<le> effectiveLimit oob cfg limit q"
proof -
  let ?x = "of_int limit :: rat" let ?l = "fmul ?x (pc_lowLimitMult cfg)" and ?h = "fmul ?x (pc_highLimitMult cfg)"
  have x: "float_of_int limit = ?x" using limit by (intro float_of_int_exact) simp
  have lim: "\<bar>limit\<bar> \<le> 2 ^ 53" using limit by simp
  have "?x * pc_lowLimitMult cfg \<le> ?x"
    using ok limit mult_left_mono [of "pc_lowLimitMult cfg" 1 ?x] by (simp add: mults_ok_def)
  then have l: "?l \<le> ?x" unfolding fmul_def by (rule fl64_le_int [OF lim])
  have "of_int 0 \<le> ?x * pc_lowLimitMult cfg" using ok limit by (simp add: mults_ok_def)
  then have l0: "0 \<le> ?l" unfolding fmul_def using fl64_ge_int [of 0] by fastforce
  have "?x \<le> ?x * pc_highLimitMult cfg"
    using ok limit mult_left_mono [of 1 "pc_highLimitMult cfg" ?x] by (simp add: mults_ok_def)
  then have h: "?x \<le> ?h" unfolding fmul_def by (rule fl64_ge_int [OF lim])
  have "(of_int limit :: rat) \<le> of_int (2 ^ 53)" using limit(2) by (simp only: of_int_le_iff)
  then have "?x < 2 ^ 63" by simp
  then have low: "float_to_int oob ?l = int_of_float ?l" using l l0 by (intro float_to_int_in_range) simp_all
  have high: "float_to_int oob ?h = int_of_float ?h" using h limit(1) range by (intro float_to_int_in_range) (simp_all add: x)
  have "int_of_float ?l \<le> limit" "limit \<le> int_of_float ?h"
    using int_of_float_mono [OF l] int_of_float_mono [OF h] by simp_all
  then show ?thesis
    using p limit(1)
    by (auto simp: effectiveLimit_def x low high Let_def PriorityLow_def PriorityHigh_def)
qed

subsection \<open>Properties\<close>

text \<open>C24. Whatever its finite multipliers, set through the options, a middleware whose limit is
  exact as a float64 (at most 2 to the 53) and whose product with the high multiplier stays below 2 to
  the 63 never gives a request of higher priority a smaller limit, and every limit is at least one,
  however Go converts values out of range.\<close>

theorem priority_limits_ordered:
  assumes "cfg = priority_config W (map apply_opt opts)" and "1 \<le> limit" and "limit \<le> 2 ^ 53"
    and "fmul (float_of_int limit) (pc_highLimitMult cfg) < 2 ^ 63" and "p \<le> q"
  shows "1 \<le> effectiveLimit oob cfg limit p \<and> effectiveLimit oob cfg limit p \<le> effectiveLimit oob cfg limit q"
proof
  show "1 \<le> effectiveLimit oob cfg limit p" by (simp add: effectiveLimit_def Let_def)
  show "effectiveLimit oob cfg limit p \<le> effectiveLimit oob cfg limit q"
    using effectiveLimit_ordered [OF mults_ok_config assms(2,3,5)] assms(4) unfolding assms(1) by blast
qed

text \<open>A high multiplier of 3, and a low one of 7, which the option refuses.\<close>

theorem priority_limits_ordered_witness:
  "let cfg = priority_config conn_rw (map apply_opt [OptHigh 3, OptLow 7]) :: (conn, unit) PriorityConfig
   in effectiveLimit amd64_oob cfg 10 1 \<le> effectiveLimit amd64_oob cfg 10 12"
proof -
  let ?cfg = "priority_config conn_rw (map apply_opt [OptHigh 3, OptLow 7]) :: (conn, unit) PriorityConfig"
  have "fmul (float_of_int 10) (pc_highLimitMult ?cfg) = of_int 30"
    using fl64_int [of 30]
    by (simp add: priority_config_def WithHighLimitMultiplier_def WithLowLimitMultiplier_def fmul_def float_of_int_exact)
  then have "fmul (float_of_int 10) (pc_highLimitMult ?cfg) < 2 ^ 63" by simp
  from priority_limits_ordered [OF refl _ _ this, of 1 12 amd64_oob] show ?thesis by (simp add: Let_def)
qed

text \<open>On amd64 a product out of range is the smallest int, which is then raised to 1: with a large
  multiplier requests of high priority get less than the normal ones.\<close>

theorem priority_overflow_inverts:
  "let cfg = priority_config conn_rw [WithHighLimitMultiplier (10 ^ 30)] :: (conn, unit) PriorityConfig
   in effectiveLimit amd64_oob cfg 100 PriorityHigh = 1 \<and> effectiveLimit amd64_oob cfg 100 PriorityNormal = 100"
proof -
  let ?cfg = "priority_config conn_rw [WithHighLimitMultiplier (10 ^ 30)] :: (conn, unit) PriorityConfig"
  have "\<not> in_i64 (int_of_float (fmul (float_of_int 100) (10 ^ 30)))" by code_simp
  then show ?thesis
    by (simp add: effectiveLimit_def float_to_int_def amd64_oob_def priority_config_def WithHighLimitMultiplier_def
        PriorityHigh_def PriorityNormal_def PriorityLow_def)
qed

text \<open>In the in-memory store the window is 60 nanoseconds: a request more than that after the
  one before it is answered 200 whatever was counted.\<close>

theorem priority_window_is_60ns:
  assumes "\<forall>e. mem_data s (priority_key r) = Some e \<longrightarrow> entry_expired (clk s) e"
    and "0 \<le> clk s" and "cSent c = None"
  shows "\<exists>c' s'. WithRequestPriority oob conn_rw clk memory_store limit cfg r c s = (r, c', s') \<and>
    resp_code c' = 200 \<and>
    (\<forall>t e. t > clk s + 60 \<longrightarrow> mem_data s' (priority_key r) = Some e \<longrightarrow> entry_expired t e)"
proof -
  have "mem_live (clk s) s (priority_key r) = None"
    using assms(1) by (simp add: mem_live_def split: option.split)
  moreover have "\<not> effectiveLimit oob cfg limit p < 1" for p
    by (simp add: effectiveLimit_def Let_def)
  ultimately show ?thesis
    using assms(2,3)
    by (simp add: WithRequestPriority_def mem_simps MemoryStore_Increment_cases Let_def rw_set_def
        rw_simps resp_code_def windowTTL_def entry_expired_def)
qed

theorem priority_window_is_60ns_witness:
  "\<exists>c' s'. WithRequestPriority amd64_oob conn_rw (\<lambda>_. 161) memory_store 1 (priority_config conn_rw [])
      \<lparr>Method = [], URL_Path = [], URL_String = [], URL_RequestURI = [], RequestURI = [],
        RemoteAddr = ''10.0.0.1:80'', ReqHeader = [], ContentLength = 0, Body = None\<rparr> new_conn
      \<lparr>mem_data = [''priority:10.0.0.1:80'' \<mapsto> \<lparr>me_value = 100, me_expiry = 160\<rparr>]\<rparr> =
    (\<lparr>Method = [], URL_Path = [], URL_String = [], URL_RequestURI = [], RequestURI = [],
        RemoteAddr = ''10.0.0.1:80'', ReqHeader = [], ContentLength = 0, Body = None\<rparr>, c', s') \<and>
    resp_code c' = 200"
  using priority_window_is_60ns [of "\<lparr>mem_data = [''priority:10.0.0.1:80'' \<mapsto> \<lparr>me_value = 100, me_expiry = 160\<rparr>]\<rparr>"
      "\<lparr>Method = [], URL_Path = [], URL_String = [], URL_RequestURI = [], RequestURI = [],
        RemoteAddr = ''10.0.0.1:80'', ReqHeader = [], ContentLength = 0, Body = None\<rparr>" "\<lambda>_. 161" new_conn amd64_oob 1
      "priority_config conn_rw []"]
  by (auto simp: priority_key_def entry_expired_def new_conn_def)

text \<open>A store error counts as nothing: the request is answered 200.\<close>

lemma priority_error_open:
  assumes "Increment S (clk s) (priority_key r) windowTTL s = (Inl e, s')" and "cSent c = None"
  shows "\<exists>c'. WithRequestPriority oob conn_rw clk S limit cfg r c s = (r, c', s') \<and> resp_code c' = 200"
  using assms
  by (auto simp: WithRequestPriority_def Let_def rw_set_def rw_simps resp_code_def effectiveLimit_def)

end
