(* ===== verification/Filters.thy ===== *)
theory Filters
  imports KeyFunc
begin

section \<open>Whitelist, blacklist and country filter\<close>

text \<open>
  \<open>src/whitelist.go\<close>, \<open>src/ip_blacklist.go\<close>, \<open>src/blacklist_option.go\<close>, \<open>src/geo_filter.go\<close>,
  \<open>src/geo_filter_option.go\<close> and \<open>src/geo_filter_middleware.go\<close>. A Go map to empty structs is
  the set of its keys.
\<close>

subsection \<open>Whitelist\<close>

record Whitelist =
  wl_keys :: "string set"
  wl_keyFunc :: KeyFunc

definition NewWhitelist :: "KeyFunc option \<Rightarrow> string list \<Rightarrow> Whitelist" where
  "NewWhitelist keyFunc ks =
     \<lparr>wl_keys = set ks, wl_keyFunc = (case keyFunc of None \<Rightarrow> RemoteAddr | Some f \<Rightarrow> f)\<rparr>"

definition Whitelist_Contains :: "Whitelist \<Rightarrow> req \<Rightarrow> bool" where
  "Whitelist_Contains w r \<longleftrightarrow> wl_keyFunc w r \<in> wl_keys w"

definition Whitelist_Add :: "string \<Rightarrow> Whitelist \<Rightarrow> Whitelist" where
  "Whitelist_Add key w = w\<lparr>wl_keys := insert key (wl_keys w)\<rparr>"

definition Whitelist_Remove :: "string \<Rightarrow> Whitelist \<Rightarrow> Whitelist" where
  "Whitelist_Remove key w = w\<lparr>wl_keys := wl_keys w - {key}\<rparr>"

definition WithWhitelist :: "Whitelist option \<Rightarrow> ('w, 's) handler \<Rightarrow> ('w, 's) handler" where
  "WithWhitelist wl next r w s =
     (if (case wl of None \<Rightarrow> False | Some l \<Rightarrow> Whitelist_Contains l r) then next r w s
      else next r w s)"

text \<open>Both branches do the same: the middleware exempts nobody from anything.\<close>

lemma WithWhitelist_is_next: "WithWhitelist wl next = next"
  by (simp add: WithWhitelist_def fun_eq_iff)

subsection \<open>Blacklist\<close>

record Blacklist =
  bl_keys :: "string set"
  bl_keyFunc :: KeyFunc

definition NewBlacklist :: "KeyFunc option \<Rightarrow> string list \<Rightarrow> Blacklist" where
  "NewBlacklist keyFunc ks =
     \<lparr>bl_keys = set ks, bl_keyFunc = (case keyFunc of None \<Rightarrow> defaultKeyFunc | Some f \<Rightarrow> f)\<rparr>"

definition Blacklist_Contains :: "Blacklist \<Rightarrow> req \<Rightarrow> bool" where
  "Blacklist_Contains b r \<longleftrightarrow> bl_keyFunc b r \<in> bl_keys b"

definition Blacklist_Add :: "string \<Rightarrow> Blacklist \<Rightarrow> Blacklist" where
  "Blacklist_Add key b = b\<lparr>bl_keys := insert key (bl_keys b)\<rparr>"

definition Blacklist_Remove :: "string \<Rightarrow> Blacklist \<Rightarrow> Blacklist" where
  "Blacklist_Remove key b = b\<lparr>bl_keys := bl_keys b - {key}\<rparr>"

definition WithBlacklist :: "'w rwriter \<Rightarrow> Blacklist \<Rightarrow> ('w, 's) handler \<Rightarrow> ('w, 's) handler" where
  "WithBlacklist W bl next r w s =
     (if Blacklist_Contains bl r then (r, http_Error W ''Forbidden'' StatusForbidden w, s)
      else next r w s)"

definition WithBlacklistKeyFunc :: "KeyFunc option \<Rightarrow> Blacklist \<Rightarrow> Blacklist" where
  "WithBlacklistKeyFunc fn bl = (case fn of None \<Rightarrow> bl | Some f \<Rightarrow> bl\<lparr>bl_keyFunc := f\<rparr>)"

definition WithBlacklistEntries :: "string list \<Rightarrow> Blacklist \<Rightarrow> Blacklist" where
  "WithBlacklistEntries ks bl = fold (\<lambda>k b. b\<lparr>bl_keys := insert k (bl_keys b)\<rparr>) ks bl"

definition NewBlacklistWithOptions :: "(Blacklist \<Rightarrow> Blacklist) list \<Rightarrow> Blacklist" where
  "NewBlacklistWithOptions opts =
     fold (\<lambda>opt bl. opt bl) opts \<lparr>bl_keys = {}, bl_keyFunc = defaultKeyFunc\<rparr>"

text \<open>The entries are a set: each is there when the last call about it added it.\<close>

datatype bl_op = AddKey string | RemoveKey string

fun bl_apply :: "bl_op \<Rightarrow> Blacklist \<Rightarrow> Blacklist" where
  "bl_apply (AddKey k) b = Blacklist_Add k b"
| "bl_apply (RemoveKey k) b = Blacklist_Remove k b"

fun op_key :: "bl_op \<Rightarrow> string" where
  "op_key (AddKey k) = k"
| "op_key (RemoveKey k) = k"

fun last_op :: "string \<Rightarrow> bl_op list \<Rightarrow> bl_op option" where
  "last_op k [] = None"
| "last_op k (x # xs) = (case last_op k xs of Some y \<Rightarrow> Some y | None \<Rightarrow> if op_key x = k then Some x else None)"

lemma bl_run:
  "bl_keyFunc (fold bl_apply ops b) = bl_keyFunc b \<and>
   (k \<in> bl_keys (fold bl_apply ops b) \<longleftrightarrow>
      (case last_op k ops of None \<Rightarrow> k \<in> bl_keys b | Some (AddKey _) \<Rightarrow> True | Some (RemoveKey _) \<Rightarrow> False))"
proof (induction ops arbitrary: b)
  case (Cons x xs)
  then show ?case
    by (cases x) (auto simp: Blacklist_Add_def Blacklist_Remove_def split: option.splits bl_op.splits)
qed simp

lemma WithBlacklistEntries_keys:
  "bl_keys (WithBlacklistEntries ks bl) = set ks \<union> bl_keys bl"
  "bl_keyFunc (WithBlacklistEntries ks bl) = bl_keyFunc bl"
  unfolding WithBlacklistEntries_def by (induction ks arbitrary: bl) auto

subsection \<open>GeoFilter\<close>

record GeoFilter =
  gf_codes :: "string set"
  gf_block :: bool
  gf_resolveCC :: KeyFunc

definition defaultCountryCodeFunc :: KeyFunc where
  "defaultCountryCodeFunc r =
     (let cc = req_hget r ''CF-IPCountry''
      in if cc \<noteq> [] then cc else req_hget r ''X-Country-Code'')"

definition WithBlockedCountries :: "string list \<Rightarrow> GeoFilter" where
  "WithBlockedCountries cs =
     \<lparr>gf_codes = set (map ToUpper cs), gf_block = True, gf_resolveCC = defaultCountryCodeFunc\<rparr>"

definition WithAllowedCountries :: "string list \<Rightarrow> GeoFilter" where
  "WithAllowedCountries cs =
     \<lparr>gf_codes = set (map ToUpper cs), gf_block = False, gf_resolveCC = defaultCountryCodeFunc\<rparr>"

definition SetCountryCodeFunc :: "KeyFunc option \<Rightarrow> GeoFilter \<Rightarrow> GeoFilter" where
  "SetCountryCodeFunc fn g = (case fn of None \<Rightarrow> g | Some f \<Rightarrow> g\<lparr>gf_resolveCC := f\<rparr>)"

definition GeoFilter_Allowed :: "GeoFilter \<Rightarrow> req \<Rightarrow> bool" where
  "GeoFilter_Allowed g r =
     (let cc = ToUpper (gf_resolveCC g r);
          found = cc \<in> gf_codes g
      in if gf_block g then \<not> found else found)"

type_synonym GeoFilterOpt = "GeoFilter \<Rightarrow> GeoFilter"

definition NewGeoFilterWithOptions :: "GeoFilterOpt list \<Rightarrow> GeoFilter" where
  "NewGeoFilterWithOptions opts =
     fold (\<lambda>opt g. opt g) opts
       \<lparr>gf_codes = {}, gf_block = True, gf_resolveCC = defaultCountryCodeFunc\<rparr>"

definition WithGeoBlockMode :: "bool \<Rightarrow> GeoFilterOpt" where
  "WithGeoBlockMode block g = g\<lparr>gf_block := block\<rparr>"

definition WithGeoCodes :: "string list \<Rightarrow> GeoFilterOpt" where
  "WithGeoCodes cs g = g\<lparr>gf_codes := gf_codes g \<union> set cs\<rparr>"

text \<open>The header is named and not read.\<close>

definition WithGeoCountryCodeHeader :: "string \<Rightarrow> GeoFilterOpt" where
  "WithGeoCountryCodeHeader hdr g = g\<lparr>gf_resolveCC := (\<lambda>r. [])\<rparr>"

record GeoFilterConfig =
  gc_BlockMode :: bool
  gc_Codes :: "string list"
  gc_ResolveCC :: "KeyFunc option"

definition NewGeoFilterFromConfig :: "GeoFilterConfig \<Rightarrow> GeoFilter" where
  "NewGeoFilterFromConfig cfg =
     NewGeoFilterWithOptions
       ([WithGeoBlockMode (gc_BlockMode cfg), WithGeoCodes (gc_Codes cfg)] @
        (case gc_ResolveCC cfg of None \<Rightarrow> [] | Some f \<Rightarrow> [\<lambda>g. g\<lparr>gf_resolveCC := f\<rparr>]))"

definition defaultGeoBlockedHandler :: "'w rwriter \<Rightarrow> ('w, 's) handler" where
  "defaultGeoBlockedHandler W r w s = (r, http_Error W ''Forbidden'' StatusForbidden w, s)"

definition WithGeoFilter ::
  "'w rwriter \<Rightarrow> GeoFilter \<Rightarrow> ('w, 's) handler option \<Rightarrow> ('w, 's) handler \<Rightarrow> ('w, 's) handler" where
  "WithGeoFilter W gf blockedHandler next r w s =
     (let blocked = (case blockedHandler of None \<Rightarrow> defaultGeoBlockedHandler W | Some h \<Rightarrow> h)
      in if \<not> GeoFilter_Allowed gf r then blocked r w s else next r w s)"

subsection \<open>Properties\<close>

text \<open>After any calls of Add and Remove a request is answered 403, without the next handler
  being run, exactly when the last call about its key added it, or there was none and the
  key was there from the start; otherwise it goes through untouched.\<close>

theorem blacklist_last_call_decides:
  assumes "cSent c = None" and "k = bl_keyFunc b r"
  shows "if (case last_op k ops of None \<Rightarrow> k \<in> bl_keys b | Some (AddKey _) \<Rightarrow> True | Some (RemoveKey _) \<Rightarrow> False)
    then \<exists>c'. WithBlacklist conn_rw (fold bl_apply ops b) next r c s = (r, c', s) \<and> resp_code c' = 403
    else WithBlacklist conn_rw (fold bl_apply ops b) next r c s = next r c s"
proof -
  have "Blacklist_Contains (fold bl_apply ops b) r \<longleftrightarrow>
    (case last_op k ops of None \<Rightarrow> k \<in> bl_keys b | Some (AddKey _) \<Rightarrow> True | Some (RemoveKey _) \<Rightarrow> False)"
    using bl_run [of ops b k] assms(2) by (simp add: Blacklist_Contains_def)
  then show ?thesis
    using assms(1) by (simp add: WithBlacklist_def conn_http_Error resp_code_def Let_def)
qed

theorem blacklist_last_call_decides_witness:
  "\<exists>c'. WithBlacklist conn_rw (fold bl_apply [RemoveKey ''10.0.0.1'', AddKey ''10.0.0.1'', RemoveKey ''::1'']
      (NewBlacklist None [])) (\<lambda>r w s. (r, w, s)) (sample_req ''10.0.0.1:80'' ''/'' []) new_conn () =
    (sample_req ''10.0.0.1:80'' ''/'' [], c', ()) \<and> resp_code c' = 403"
proof -
  have "bl_keyFunc (NewBlacklist None []) (sample_req ''10.0.0.1:80'' ''/'' []) = ''10.0.0.1''"
    by (simp add: NewBlacklist_def defaultKeyFunc_def) code_simp
  with blacklist_last_call_decides [of new_conn "''10.0.0.1''" "NewBlacklist None []"
      "sample_req ''10.0.0.1:80'' ''/'' []" "[RemoveKey ''10.0.0.1'', AddKey ''10.0.0.1'', RemoveKey ''::1'']"
      "\<lambda>r w s. (r, w, s)" "()"]
  show ?thesis by (simp add: new_conn_def)
qed

text \<open>The two constructors compare country codes without regard to case, on both sides.\<close>

lemma geo_constructors_ignore_case:
  "(GeoFilter_Allowed (WithBlockedCountries cs) r \<longleftrightarrow>
     ToUpper (defaultCountryCodeFunc r) \<notin> ToUpper ` set cs) \<and>
   (GeoFilter_Allowed (WithAllowedCountries cs) r \<longleftrightarrow>
     ToUpper (defaultCountryCodeFunc r) \<in> ToUpper ` set cs)"
  by (simp add: GeoFilter_Allowed_def WithBlockedCountries_def WithAllowedCountries_def)

text \<open>Codes given as options or in a config are not normalised: those that are not upper case
  match no request, so that they block nobody, or let nobody through.\<close>

theorem geo_options_lowercase_never_match:
  assumes "\<forall>x\<in>set cs. ToUpper x \<noteq> x"
  shows "GeoFilter_Allowed (NewGeoFilterFromConfig
    \<lparr>gc_BlockMode = block, gc_Codes = cs, gc_ResolveCC = f\<rparr>) r \<longleftrightarrow> block"
proof -
  let ?g = "NewGeoFilterFromConfig \<lparr>gc_BlockMode = block, gc_Codes = cs, gc_ResolveCC = f\<rparr>"
  have "gf_codes ?g = set cs" "gf_block ?g = block"
    by (simp_all add: NewGeoFilterFromConfig_def NewGeoFilterWithOptions_def WithGeoBlockMode_def
        WithGeoCodes_def split: option.split)
  moreover have "ToUpper y \<notin> set cs" for y using assms ToUpper_idem by metis
  ultimately show ?thesis by (simp add: GeoFilter_Allowed_def)
qed

theorem geo_options_lowercase_never_match_witness:
  "GeoFilter_Allowed (NewGeoFilterFromConfig
    \<lparr>gc_BlockMode = True, gc_Codes = [''cn'', ''ru''], gc_ResolveCC = None\<rparr>)
    (sample_req ''10.0.0.1:80'' ''/'' [(''Cf-Ipcountry'', [''CN''])])"
proof -
  have "ToUpper ''cn'' \<noteq> ''cn''" "ToUpper ''ru'' \<noteq> ''ru''" by code_simp+
  then show ?thesis by (subst geo_options_lowercase_never_match) simp_all
qed

end
