(* ===== verification/PerRoute.thy ===== *)
theory PerRoute
  imports KeyFunc
begin

section \<open>Per-route configuration\<close>

text \<open>
  \<open>src/per_route_config.go\<close>. The file builds its limiters with a constructor of four kinds of
  argument and asks them for a handler; the package has neither (its \<open>New\<close> takes one options
  struct). Both are parameters: \<open>new\<close> and \<open>handle\<close>. The options are the ones the file names.
\<close>

record ('w, 's) RouteConfig =
  rc_Limit :: int
  rc_Window :: duration
  rc_Strategy :: string
  rc_KeyFunc :: "KeyFunc option"
  rc_LimitExceededHandler :: "('w, 's) handler option"

datatype ('w, 's) RouteOption =
    WithStrategy string
  | WithKeyFunc KeyFunc
  | WithLimitExceededHandler "('w, 's) handler"

type_synonym ('w, 's) RouteConfigMap = "string \<rightharpoonup> ('w, 's) RouteConfig"

definition route_options :: "('w, 's) RouteConfig \<Rightarrow> ('w, 's) RouteOption list" where
  "route_options cfg =
     (if rc_Strategy cfg \<noteq> [] then [WithStrategy (rc_Strategy cfg)] else []) @
     (case rc_KeyFunc cfg of None \<Rightarrow> [] | Some f \<Rightarrow> [WithKeyFunc f]) @
     (case rc_LimitExceededHandler cfg of None \<Rightarrow> [] | Some h \<Rightarrow> [WithLimitExceededHandler h])"

definition WithRouteConfigs ::
  "(int \<Rightarrow> duration \<Rightarrow> ('w, 's) RouteOption list \<Rightarrow> 'l) \<Rightarrow>
   ('l \<Rightarrow> ('w, 's) handler \<Rightarrow> ('w, 's) handler) \<Rightarrow> ('w, 's) RouteConfigMap \<Rightarrow>
   ('w, 's) handler \<Rightarrow> ('w, 's) handler" where
  "WithRouteConfigs new handle configs next r w s =
     (let limiters = (\<lambda>route. map_option (\<lambda>cfg. new (rc_Limit cfg) (rc_Window cfg) (route_options cfg))
                                (configs route))
      in case limiters (URL_Path r) of
           Some limiter \<Rightarrow> handle limiter next r w s
         | None \<Rightarrow> next r w s)"

text \<open>A route's own options, and nothing else: what is not set is left to the constructor.\<close>

lemma route_options_mem:
  "WithStrategy st \<in> set (route_options cfg) \<longleftrightarrow> st = rc_Strategy cfg \<and> st \<noteq> []"
  "WithKeyFunc f \<in> set (route_options cfg) \<longleftrightarrow> rc_KeyFunc cfg = Some f"
  "WithLimitExceededHandler h \<in> set (route_options cfg) \<longleftrightarrow> rc_LimitExceededHandler cfg = Some h"
  by (auto simp: route_options_def split: option.splits)

subsection \<open>What a configuration decides\<close>

text \<open>A request is limited by the configuration of its path, taken letter for letter, and by no
  other: when two maps agree on the path, the request is served alike, and a path that is not
  in the map, like one that differs by a slash, is not limited.\<close>

lemma route_config_of_path_decides:
  assumes "configs (URL_Path r) = configs' (URL_Path r)"
  shows "WithRouteConfigs new handle configs next r w s = WithRouteConfigs new handle configs' next r w s \<and>
    (configs (URL_Path r) = None \<longrightarrow> WithRouteConfigs new handle configs next r w s = next r w s)"
  using assms by (simp add: WithRouteConfigs_def)

end
