(* ===== verification/Throttle.thy ===== *)
theory Throttle
  imports Http
begin

section \<open>Request throttle\<close>

text \<open>
  \<open>src/request_throttle.go\<close> and \<open>src/request_throttle_option.go\<close>. Requests run concurrently:
  each is a process with a program counter, the shared state is the count of active requests
  (under the mutex) and the number of tokens in the buffered channel \<open>queue\<close>. The functions
  are the atomic pieces of the handler, \<open>th_step\<close> is any interleaving of them. A receive from
  the channel needs a token in it, a send a free place.
\<close>

record ('w, 's) ThrottleConfig =
  th_maxConcurrent :: int
  th_queueTimeout :: duration
  th_exceededHandler :: "('w, 's) handler"
  th_active :: int
  th_queueSize :: nat
  th_queued :: nat

definition defaultThrottleExceededHandler :: "'w rwriter \<Rightarrow> ('w, 's) handler" where
  "defaultThrottleExceededHandler W r w s =
     (r, http_Error W ''Service Unavailable'' StatusServiceUnavailable w, s)"

definition WithThrottleExceededHandler ::
  "('w, 's) handler option \<Rightarrow> ('w, 's) ThrottleConfig \<Rightarrow> ('w, 's) ThrottleConfig" where
  "WithThrottleExceededHandler h cfg = (case h of None \<Rightarrow> cfg | Some f \<Rightarrow> cfg\<lparr>th_exceededHandler := f\<rparr>)"

definition throttle_config ::
  "'w rwriter \<Rightarrow> int \<Rightarrow> nat \<Rightarrow> duration \<Rightarrow> (('w, 's) ThrottleConfig \<Rightarrow> ('w, 's) ThrottleConfig) list \<Rightarrow>
   ('w, 's) ThrottleConfig" where
  "throttle_config W maxConcurrent queueSize queueTimeout opts =
     fold (\<lambda>opt c. opt c) opts
       \<lparr>th_maxConcurrent = maxConcurrent, th_queueTimeout = queueTimeout,
        th_exceededHandler = defaultThrottleExceededHandler W, th_active = 0,
        th_queueSize = queueSize, th_queued = 0\<rparr>"

definition NewThrottleMiddleware ::
  "'w rwriter \<Rightarrow> int \<Rightarrow> nat \<Rightarrow> duration \<Rightarrow> (('w, 's) ThrottleConfig \<Rightarrow> ('w, 's) ThrottleConfig) list \<Rightarrow>
   ('w, 's) ThrottleConfig" where
  "NewThrottleMiddleware W maxConcurrent queueSize queueTimeout opts =
     throttle_config W maxConcurrent queueSize queueTimeout opts"

subsection \<open>The handler, piece by piece\<close>

text \<open>Where a request is: before the lock, before the select, in the next handler, in the queue,
  or done with what became of it.\<close>

datatype outcome = Served | Exceeded | Abandoned

datatype tpc = AtLock | AtSelect | Serving | Queued | Done outcome

definition throttle_acquire :: "('w, 's) ThrottleConfig \<Rightarrow> tpc \<times> ('w, 's) ThrottleConfig" where
  "throttle_acquire cfg =
     (if th_active cfg < th_maxConcurrent cfg
      then (Serving, cfg\<lparr>th_active := i64 (th_active cfg + 1)\<rparr>) else (AtSelect, cfg))"

definition throttle_release :: "('w, 's) ThrottleConfig \<Rightarrow> tpc \<times> ('w, 's) ThrottleConfig" where
  "throttle_release cfg = (Done Served, cfg\<lparr>th_active := i64 (th_active cfg - 1)\<rparr>)"

definition throttle_enqueue :: "('w, 's) ThrottleConfig \<Rightarrow> tpc \<times> ('w, 's) ThrottleConfig" where
  "throttle_enqueue cfg =
     (if th_queued cfg < th_queueSize cfg then (Queued, cfg\<lparr>th_queued := th_queued cfg + 1\<rparr>)
      else (Done Exceeded, cfg))"

text \<open>The timer, or the end of the request's context; \<open>None\<close> is a receive that blocks.\<close>

definition throttle_leave ::
  "outcome \<Rightarrow> ('w, 's) ThrottleConfig \<Rightarrow> (tpc \<times> ('w, 's) ThrottleConfig) option" where
  "throttle_leave res cfg =
     (if 0 < th_queued cfg then Some (Done res, cfg\<lparr>th_queued := th_queued cfg - 1\<rparr>) else None)"

inductive th_step ::
  "('w, 's) ThrottleConfig \<times> tpc list \<Rightarrow> ('w, 's) ThrottleConfig \<times> tpc list \<Rightarrow> bool" where
  acquire: "i < length ps \<Longrightarrow> ps ! i = AtLock \<Longrightarrow> throttle_acquire cfg = (pc, cfg') \<Longrightarrow>
    th_step (cfg, ps) (cfg', ps[i := pc])"
| enqueue: "i < length ps \<Longrightarrow> ps ! i = AtSelect \<Longrightarrow> throttle_enqueue cfg = (pc, cfg') \<Longrightarrow>
    th_step (cfg, ps) (cfg', ps[i := pc])"
| timeout: "i < length ps \<Longrightarrow> ps ! i = Queued \<Longrightarrow> throttle_leave Exceeded cfg = Some (pc, cfg') \<Longrightarrow>
    th_step (cfg, ps) (cfg', ps[i := pc])"
| cancel: "i < length ps \<Longrightarrow> ps ! i = Queued \<Longrightarrow> throttle_leave Abandoned cfg = Some (pc, cfg') \<Longrightarrow>
    th_step (cfg, ps) (cfg', ps[i := pc])"
| finish: "i < length ps \<Longrightarrow> ps ! i = Serving \<Longrightarrow> throttle_release cfg = (pc, cfg') \<Longrightarrow>
    th_step (cfg, ps) (cfg', ps[i := pc])"

inductive_cases th_stepE: "th_step (cfg, ps) q"

inductive th_steps ::
  "('w, 's) ThrottleConfig \<times> tpc list \<Rightarrow> ('w, 's) ThrottleConfig \<times> tpc list \<Rightarrow> bool" for p where
  th_refl: "th_steps p p"
| th_trans: "th_steps p q \<Longrightarrow> th_step q q' \<Longrightarrow> th_steps p q'"

text \<open>What the client of a request that is done has got: the response of the next handler, of the
  exceeded handler, or nothing of this middleware.\<close>

definition throttle_respond ::
  "('w, 's) ThrottleConfig \<Rightarrow> ('w, 's) handler \<Rightarrow> outcome \<Rightarrow> ('w, 's) handler" where
  "throttle_respond cfg next res r w s =
     (case res of Served \<Rightarrow> next r w s | Exceeded \<Rightarrow> th_exceededHandler cfg r w s
      | Abandoned \<Rightarrow> (r, w, s))"

lemma throttle_default_exceeded:
  assumes "cSent c = None"
  shows "conn_status (fst (snd (throttle_respond (NewThrottleMiddleware conn_rw m k d []) next Exceeded r c s)))
    = Some StatusServiceUnavailable"
  using assms server_rw.status_http_Error [of c StatusServiceUnavailable]
  by (simp add: throttle_respond_def NewThrottleMiddleware_def throttle_config_def
      defaultThrottleExceededHandler_def conn_status_def)

subsection \<open>Invariant\<close>

definition pcs :: "tpc \<Rightarrow> tpc list \<Rightarrow> nat" where
  "pcs pc ps = length (filter (\<lambda>x. x = pc) ps)"

lemma pcs_update:
  assumes "i < length ps"
  shows "pcs x (ps[i := pc]) + (if ps ! i = x then 1 else 0) = pcs x ps + (if pc = x then 1 else 0)"
proof -
  have "pcs x ps = pcs x (take i ps @ ps ! i # drop (Suc i) ps)"
    using id_take_nth_drop [OF assms] by simp
  moreover have "pcs x (ps[i := pc]) = pcs x (take i ps @ pc # drop (Suc i) ps)"
    using assms by (simp add: upd_conv_take_nth_drop)
  ultimately show ?thesis by (simp add: pcs_def)
qed

lemma pcs_pos: "i < length ps \<Longrightarrow> ps ! i = x \<Longrightarrow> 1 \<le> pcs x ps"
  by (auto simp: pcs_def Suc_le_eq filter_empty_conv in_set_conv_nth)

lemma pcs_le: "pcs x ps \<le> length ps"
  by (simp add: pcs_def)

definition th_inv :: "('w, 's) ThrottleConfig \<times> tpc list \<Rightarrow> bool" where
  "th_inv p \<longleftrightarrow> (case p of (cfg, ps) \<Rightarrow>
     th_active cfg = int (pcs Serving ps) \<and> th_active cfg \<le> max 0 (th_maxConcurrent cfg) \<and>
     th_queued cfg = pcs Queued ps \<and> th_queued cfg \<le> th_queueSize cfg \<and>
     int (length ps) < max_i64)"

lemma th_step_config:
  "th_step p q \<Longrightarrow> th_maxConcurrent (fst q) = th_maxConcurrent (fst p) \<and>
    th_queueSize (fst q) = th_queueSize (fst p) \<and> length (snd q) = length (snd p)"
  by (erule th_step.cases)
    (auto simp: throttle_acquire_def throttle_enqueue_def throttle_leave_def throttle_release_def
      split: if_splits)

lemma th_step_inv: "th_step p q \<Longrightarrow> th_inv p \<Longrightarrow> th_inv q"
proof (induction rule: th_step.induct)
  case (acquire i ps cfg pc cfg')
  have "int (pcs Serving ps) < max_i64"
    using acquire.prems pcs_le [of Serving ps] by (simp add: th_inv_def)
  then have "i64 (th_active cfg + 1) = th_active cfg + 1"
    using acquire.prems by (simp add: th_inv_def i64_id)
  with acquire show ?case
    using pcs_update [OF acquire.hyps(1), of Serving pc] pcs_update [OF acquire.hyps(1), of Queued pc]
    by (auto simp: th_inv_def throttle_acquire_def split: if_splits)
next
  case (enqueue i ps cfg pc cfg')
  then show ?case
    using pcs_update [OF enqueue.hyps(1), of Serving pc] pcs_update [OF enqueue.hyps(1), of Queued pc]
    by (auto simp: th_inv_def throttle_enqueue_def split: if_splits)
next
  case (timeout i ps cfg pc cfg')
  then show ?case
    using pcs_update [OF timeout.hyps(1), of Serving pc] pcs_update [OF timeout.hyps(1), of Queued pc]
    by (auto simp: th_inv_def throttle_leave_def split: if_splits)
next
  case (cancel i ps cfg pc cfg')
  then show ?case
    using pcs_update [OF cancel.hyps(1), of Serving pc] pcs_update [OF cancel.hyps(1), of Queued pc]
    by (auto simp: th_inv_def throttle_leave_def split: if_splits)
next
  case (finish i ps cfg pc cfg')
  have "1 \<le> pcs Serving ps" using finish.hyps by (intro pcs_pos)
  moreover have "int (pcs Serving ps) < max_i64"
    using finish.prems pcs_le [of Serving ps] by (simp add: th_inv_def)
  ultimately have "i64 (th_active cfg - 1) = th_active cfg - 1"
    using finish.prems by (simp add: th_inv_def i64_id)
  with finish show ?case
    using pcs_update [OF finish.hyps(1), of Serving pc] pcs_update [OF finish.hyps(1), of Queued pc]
    by (auto simp: th_inv_def throttle_release_def)
qed

lemma th_steps_inv: "th_steps p q \<Longrightarrow> th_inv p \<Longrightarrow> th_inv q"
  by (induction rule: th_steps.induct) (auto intro: th_step_inv)

text \<open>A request that is not done has a step, so nothing deadlocks.\<close>

lemma th_progress:
  assumes inv: "th_inv (cfg, ps)" and i: "i < length ps" "\<And>res. ps ! i \<noteq> Done res"
  shows "\<exists>cfg' pc. th_step (cfg, ps) (cfg', ps[i := pc])"
proof (cases "ps ! i")
  case AtLock
  obtain pc cfg' where "throttle_acquire cfg = (pc, cfg')" by force
  with i AtLock show ?thesis by (blast intro: th_step.acquire)
next
  case AtSelect
  obtain pc cfg' where "throttle_enqueue cfg = (pc, cfg')" by force
  with i AtSelect show ?thesis by (blast intro: th_step.enqueue)
next
  case Serving
  obtain pc cfg' where "throttle_release cfg = (pc, cfg')" by force
  with i Serving show ?thesis by (blast intro: th_step.finish)
next
  case Queued
  then have "0 < th_queued cfg" using inv pcs_pos [OF i(1) Queued] by (simp add: th_inv_def)
  then have "\<exists>pc cfg'. throttle_leave Exceeded cfg = Some (pc, cfg')" by (simp add: throttle_leave_def)
  with i Queued show ?thesis by (blast intro: th_step.timeout)
qed (use i in blast)

text \<open>What a step does to one request.\<close>

definition unserved :: "tpc \<Rightarrow> bool" where
  "unserved pc \<longleftrightarrow> pc \<in> {AtSelect, Queued, Done Exceeded, Done Abandoned}"

lemma th_step_unserved:
  "th_step p q \<Longrightarrow> i < length (snd p) \<Longrightarrow> unserved (snd p ! i) \<Longrightarrow> unserved (snd q ! i)"
  by (erule th_step.cases)
    (auto simp: nth_list_update unserved_def throttle_acquire_def throttle_enqueue_def
      throttle_leave_def throttle_release_def split: if_splits)

lemma th_steps_unserved:
  "th_steps p q \<Longrightarrow> i < length (snd p) \<Longrightarrow> unserved (snd p ! i) \<Longrightarrow>
   unserved (snd q ! i) \<and> i < length (snd q)"
  by (induction rule: th_steps.induct) (auto dest: th_step_unserved th_step_config)

lemma th_start_inv:
  "int n < max_i64 \<Longrightarrow> cfg = throttle_config W m k d [WithThrottleExceededHandler h] \<Longrightarrow>
   th_inv (cfg, replicate n AtLock)"
  by (cases h) (simp_all add: th_inv_def throttle_config_def WithThrottleExceededHandler_def pcs_def)

lemma th_steps_append: "th_steps q r \<Longrightarrow> th_steps p q \<Longrightarrow> th_steps p r"
  by (induction rule: th_steps.induct) (auto intro: th_trans)

text \<open>A request in the queue can always leave it, and one at the select is one step from it.\<close>

lemma th_queued_leaves:
  assumes "th_inv p" and "i < length (snd p)" and "snd p ! i = Queued"
  shows "\<exists>q. th_steps p q \<and> snd q ! i = Done Exceeded"
proof -
  obtain cfg ps where p: "p = (cfg, ps)" by force
  have "0 < th_queued cfg" using assms pcs_pos [of i ps Queued] by (simp add: th_inv_def p)
  then obtain cfg' where "throttle_leave Exceeded cfg = Some (Done Exceeded, cfg')"
    by (simp add: throttle_leave_def)
  with assms(2,3) have "th_step p (cfg', ps[i := Done Exceeded])" by (simp add: p th_step.timeout)
  moreover have "ps[i := Done Exceeded] ! i = Done Exceeded" using assms(2) by (simp add: p)
  ultimately show ?thesis by (metis th_trans th_refl snd_conv)
qed

lemma th_unserved_ends:
  assumes "th_inv p" and "i < length (snd p)" and "unserved (snd p ! i)"
  shows "\<exists>q. th_steps p q \<and> snd q ! i \<in> {Done Exceeded, Done Abandoned}"
proof (cases "snd p ! i = AtSelect")
  case True
  obtain cfg ps where p: "p = (cfg, ps)" by force
  obtain pc cfg' where enq: "throttle_enqueue cfg = (pc, cfg')" by force
  have one: "th_step p (cfg', ps[i := pc])" using assms(2) True enq by (simp add: p th_step.enqueue)
  have pc: "pc = Queued \<or> pc = Done Exceeded" using enq by (auto simp: throttle_enqueue_def split: if_splits)
  have at: "ps[i := pc] ! i = pc" using assms(2) by (simp add: p)
  show ?thesis
  proof (cases "pc = Queued")
    case True
    then obtain q where "th_steps (cfg', ps[i := pc]) q" "snd q ! i = Done Exceeded"
      using th_queued_leaves [OF th_step_inv [OF one assms(1)], of i] assms(2) at by (auto simp: p)
    then show ?thesis using th_steps_append [OF _ th_trans [OF th_refl one]] by blast
  qed (use pc at one in \<open>metis th_trans th_refl snd_conv insertCI\<close>)
next
  case False
  then consider "snd p ! i = Queued" | "snd p ! i \<in> {Done Exceeded, Done Abandoned}"
    using assms(3) by (auto simp: unserved_def)
  then show ?thesis
  proof cases
    case 1
    with th_queued_leaves [OF assms(1,2)] show ?thesis by blast
  next
    case 2
    then show ?thesis by (blast intro: th_refl)
  qed
qed

subsection \<open>Properties\<close>

text \<open>C25. In every interleaving of any number of requests the active count is the number of
  requests in the next handler and stays within the maximum, the channel holds one token per
  queued request and stays within its capacity, and no request that is not done is stuck.\<close>

theorem throttle_invariant:
  assumes "th_steps (throttle_config W m k d [WithThrottleExceededHandler h], replicate n AtLock) (cfg, ps)"
    and "int n < max_i64"
  shows "th_active cfg = int (pcs Serving ps) \<and> th_active cfg \<le> max 0 m \<and>
    th_queued cfg = pcs Queued ps \<and> th_queued cfg \<le> k \<and>
    (\<forall>i<length ps. (\<forall>res. ps ! i \<noteq> Done res) \<longrightarrow> (\<exists>q. th_step (cfg, ps) q))"
proof -
  let ?c = "throttle_config W m k d [WithThrottleExceededHandler h]"
  have inv: "th_inv (cfg, ps)" by (rule th_steps_inv [OF assms(1) th_start_inv [OF assms(2) refl]])
  have "th_maxConcurrent (fst q) = th_maxConcurrent (fst p) \<and> th_queueSize (fst q) = th_queueSize (fst p)"
    if "th_steps p q" for p q :: "('a, 'b) ThrottleConfig \<times> tpc list"
    using that by (induction rule: th_steps.induct) (auto dest: th_step_config)
  from this [OF assms(1)] have "th_maxConcurrent cfg = m" "th_queueSize cfg = k"
    by (cases h; simp add: throttle_config_def WithThrottleExceededHandler_def)+
  moreover have "\<exists>q. th_step (cfg, ps) q" if "i < length ps" "\<forall>res. ps ! i \<noteq> Done res" for i
    using th_progress [OF inv that(1)] that(2) by blast
  ultimately show ?thesis using inv by (simp add: th_inv_def)
qed

theorem throttle_invariant_witness:
  "\<exists>ps cfg. th_steps (throttle_config conn_rw 1 1 second [WithThrottleExceededHandler None], replicate 2 AtLock)
     (cfg :: (conn, unit) ThrottleConfig, ps) \<and> th_active cfg = int (pcs Serving ps) \<and> pcs Serving ps = 1"
proof -
  let ?c = "throttle_config conn_rw 1 1 second [WithThrottleExceededHandler None] :: (conn, unit) ThrottleConfig"
  have "throttle_acquire ?c = (Serving, ?c\<lparr>th_active := 1\<rparr>)"
    by (simp add: throttle_acquire_def throttle_config_def WithThrottleExceededHandler_def)
  then have "th_step (?c, replicate 2 AtLock) (?c\<lparr>th_active := 1\<rparr>, (replicate 2 AtLock)[0 := Serving])"
    by (intro th_step.acquire) simp_all
  then have run: "th_steps (?c, replicate 2 AtLock) (?c\<lparr>th_active := 1\<rparr>, (replicate 2 AtLock)[0 := Serving])"
    by (rule th_trans [OF th_refl])
  let ?ps = "(replicate 2 AtLock)[0 := Serving]"
  have one: "pcs Serving ?ps = 1" by (simp add: pcs_def numeral_2_eq_2)
  have active: "th_active (?c\<lparr>th_active := 1\<rparr>) = int (pcs Serving ?ps)"
    using throttle_invariant [OF run] by simp
  show ?thesis
    by (rule exI [of _ ?ps], rule exI [of _ "?c\<lparr>th_active := 1\<rparr>"]) (intro conjI run active one)
qed

text \<open>C26. In every interleaving from the start, a request that found no free slot is never handed
  to the next handler, however many slots become free while it waits: it has not been and will not be
  served, and it can always still end, refused or abandoned.\<close>

theorem throttle_queued_never_served:
  assumes "th_steps (throttle_config W m k d [WithThrottleExceededHandler h], replicate n AtLock) p"
    and "int n < max_i64" and "i < n" and "snd p ! i \<in> {AtSelect, Queued}" and "th_steps p q"
  shows "snd q ! i \<notin> {Serving, Done Served} \<and>
    (\<exists>q'. th_steps q q' \<and> snd q' ! i \<in> {Done Exceeded, Done Abandoned})"
proof -
  have inv: "th_inv p" by (rule th_steps_inv [OF assms(1) th_start_inv [OF assms(2) refl]])
  have "length (snd q) = length (snd p)" if "th_steps p q" for p q :: "('a, 'b) ThrottleConfig \<times> tpc list"
    using that by (induction rule: th_steps.induct) (auto dest: th_step_config)
  from this [OF assms(1)] have len: "i < length (snd p)" using assms(3) by simp
  have "unserved (snd p ! i)" using assms(4) by (auto simp: unserved_def)
  with th_steps_unserved [OF assms(5) len] have un: "unserved (snd q ! i)" "i < length (snd q)" by simp_all
  from th_unserved_ends [OF th_steps_inv [OF assms(5) inv] un(2,1)] un(1) show ?thesis
    by (auto simp: unserved_def)
qed

text \<open>One slot: a second request finds it taken and queues; the first is served and frees the slot, and the
  second still is not served.\<close>

theorem throttle_queued_never_served_witness:
  "\<exists>cfg cfg'. th_steps (throttle_config conn_rw 1 1 second [WithThrottleExceededHandler None], replicate 2 AtLock)
      (cfg :: (conn, unit) ThrottleConfig, [Serving, Queued]) \<and>
    th_steps (cfg, [Serving, Queued]) (cfg', [Done Served, Queued]) \<and> th_active cfg' < th_maxConcurrent cfg' \<and>
    (\<exists>q. th_steps (cfg', [Done Served, Queued]) q \<and> snd q ! 1 \<in> {Done Exceeded, Done Abandoned})"
proof -
  let ?c = "throttle_config conn_rw 1 1 second [WithThrottleExceededHandler None] :: (conn, unit) ThrottleConfig"
  let ?c1 = "?c\<lparr>th_active := 1\<rparr>"
  let ?c2 = "?c1\<lparr>th_queued := 1\<rparr>"
  let ?c3 = "?c2\<lparr>th_active := 0\<rparr>"
  have c: "th_active ?c = 0" "th_maxConcurrent ?c = 1" "th_queued ?c = 0" "th_queueSize ?c = 1"
    by (simp_all add: throttle_config_def WithThrottleExceededHandler_def)
  have 1: "th_step (?c, [AtLock, AtLock]) (?c1, [Serving, AtLock])"
    using th_step.acquire [of 0 "[AtLock, AtLock]" ?c Serving ?c1] c by (simp add: throttle_acquire_def i64_id)
  have 2: "th_step (?c1, [Serving, AtLock]) (?c1, [Serving, AtSelect])"
    using th_step.acquire [of 1 "[Serving, AtLock]" ?c1 AtSelect ?c1] c by (simp add: throttle_acquire_def)
  have 3: "th_step (?c1, [Serving, AtSelect]) (?c2, [Serving, Queued])"
    using th_step.enqueue [of 1 "[Serving, AtSelect]" ?c1 Queued ?c2] c by (simp add: throttle_enqueue_def)
  have 4: "th_step (?c2, [Serving, Queued]) (?c3, [Done Served, Queued])"
    using th_step.finish [of 0 "[Serving, Queued]" ?c2 "Done Served" ?c3] by (simp add: throttle_release_def i64_id)
  have two: "replicate 2 AtLock = [AtLock, AtLock]" by (simp add: numeral_2_eq_2)
  have p: "th_steps (?c, replicate 2 AtLock) (?c2, [Serving, Queued])"
    unfolding two by (rule th_trans [OF th_trans [OF th_trans [OF th_refl 1] 2] 3])
  have q: "th_steps (?c2, [Serving, Queued]) (?c3, [Done Served, Queued])" by (rule th_trans [OF th_refl 4])
  have "snd (?c3, [Done Served, Queued]) ! 1 \<notin> {Serving, Done Served} \<and>
      (\<exists>q. th_steps (?c3, [Done Served, Queued]) q \<and> snd q ! 1 \<in> {Done Exceeded, Done Abandoned})"
    by (rule throttle_queued_never_served [OF p _ _ _ q]) simp_all
  moreover have "th_active ?c3 < th_maxConcurrent ?c3" using c by simp
  ultimately show ?thesis using p q by blast
qed

end
