(* ===== verification/Pause.thy ===== *)
theory Pause
  imports Http
begin

section \<open>Pausing requests\<close>

text \<open>
  \<open>src/request_pause.go\<close>. The controller's mutex makes each method one step; a channel is a
  number, closed or not. A request that finds the controller paused takes the channel of the
  moment and waits for it, or for the hold time to pass. \<open>pause_step\<close> interleaves the calls
  of Pause and Resume with any number of requests.
\<close>

record PauseController =
  pp_paused :: bool
  pp_resume :: nat
  pp_maxHold :: duration
  pp_closed :: "nat list"
  pp_fresh :: nat

definition NewPauseController :: "duration \<Rightarrow> PauseController" where
  "NewPauseController maxHold =
     \<lparr>pp_paused = False, pp_resume = 0, pp_maxHold = (if maxHold \<le> 0 then 5 * second else maxHold),
      pp_closed = [], pp_fresh = 1\<rparr>"

definition PauseController_Pause :: "PauseController \<Rightarrow> PauseController" where
  "PauseController_Pause p =
     (if \<not> pp_paused p
      then p\<lparr>pp_paused := True, pp_resume := pp_fresh p, pp_fresh := pp_fresh p + 1\<rparr> else p)"

text \<open>\<open>None\<close> is the panic of closing a closed channel.\<close>

definition PauseController_Resume :: "PauseController \<Rightarrow> PauseController option" where
  "PauseController_Resume p =
     (if pp_paused p
      then (if pp_resume p \<in> set (pp_closed p) then None
            else Some (p\<lparr>pp_paused := False, pp_closed := pp_resume p # pp_closed p\<rparr>))
      else Some p)"

definition PauseController_IsPaused :: "PauseController \<Rightarrow> bool" where
  "PauseController_IsPaused p = pp_paused p"

text \<open>The first part of \<open>wait\<close>: nothing to wait for, or a channel; and its select, which can go
  on when the channel is closed or the time is over.\<close>

definition wait_begin :: "PauseController \<Rightarrow> nat option" where
  "wait_begin p = (if \<not> pp_paused p then None else Some (pp_resume p))"

definition wait_ready :: "PauseController \<Rightarrow> nat \<Rightarrow> gotime \<Rightarrow> gotime \<Rightarrow> bool" where
  "wait_ready p ch since now \<longleftrightarrow> ch \<in> set (pp_closed p) \<or> pp_maxHold p \<le> now - since"

definition WithRequestPause ::
  "('s \<Rightarrow> 's) \<Rightarrow> ('w, 's) handler \<Rightarrow> ('w, 's) handler" where
  "WithRequestPause wait next r w s = next r w (wait s)"

subsection \<open>Interleavings\<close>

datatype ppc = Arriving | Holding nat gotime | Passed

inductive pause_step :: "PauseController \<times> ppc list \<Rightarrow> PauseController \<times> ppc list \<Rightarrow> bool" where
  pause: "pause_step (p, ps) (PauseController_Pause p, ps)"
| resume: "PauseController_Resume p = Some p' \<Longrightarrow> pause_step (p, ps) (p', ps)"
| pass: "i < length ps \<Longrightarrow> ps ! i = Arriving \<Longrightarrow> wait_begin p = None \<Longrightarrow>
    pause_step (p, ps) (p, ps[i := Passed])"
| hold: "i < length ps \<Longrightarrow> ps ! i = Arriving \<Longrightarrow> wait_begin p = Some ch \<Longrightarrow>
    pause_step (p, ps) (p, ps[i := Holding ch now])"
| release: "i < length ps \<Longrightarrow> ps ! i = Holding ch since \<Longrightarrow> wait_ready p ch since now \<Longrightarrow>
    pause_step (p, ps) (p, ps[i := Passed])"

inductive pause_steps :: "PauseController \<times> ppc list \<Rightarrow> PauseController \<times> ppc list \<Rightarrow> bool" for a where
  pause_refl: "pause_steps a a"
| pause_trans: "pause_steps a b \<Longrightarrow> pause_step b c \<Longrightarrow> pause_steps a c"

text \<open>A channel someone waits for is closed, or is the current one of a paused controller; and
  that one is open.\<close>

definition pause_inv :: "PauseController \<times> ppc list \<Rightarrow> bool" where
  "pause_inv a \<longleftrightarrow> (case a of (p, ps) \<Rightarrow>
     (pp_paused p \<longrightarrow> pp_resume p \<notin> set (pp_closed p)) \<and>
     (\<forall>ch\<in>set (pp_closed p). ch < pp_fresh p) \<and> pp_resume p < pp_fresh p \<and>
     (\<forall>ch since. Holding ch since \<in> set ps \<longrightarrow>
        ch \<in> set (pp_closed p) \<or> (pp_paused p \<and> ch = pp_resume p)))"

lemma pause_step_inv: "pause_step a b \<Longrightarrow> pause_inv a \<Longrightarrow> pause_inv b"
proof (induction rule: pause_step.induct)
  case (pause p ps)
  then show ?case by (fastforce simp: pause_inv_def PauseController_Pause_def)
next
  case (resume p p' ps)
  then show ?case by (fastforce simp: pause_inv_def PauseController_Resume_def split: if_splits)
next
  case (pass i ps p)
  then show ?case by (fastforce simp: pause_inv_def dest: set_update_subset_insert [THEN subsetD])
next
  case (hold i ps p ch now)
  then show ?case
    by (fastforce simp: pause_inv_def wait_begin_def split: if_splits
        dest: set_update_subset_insert [THEN subsetD])
next
  case (release i ps ch since p now)
  then show ?case by (fastforce simp: pause_inv_def dest: set_update_subset_insert [THEN subsetD])
qed

lemma pause_steps_inv: "pause_steps a b \<Longrightarrow> pause_inv a \<Longrightarrow> pause_inv b"
  by (induction rule: pause_steps.induct) (auto intro: pause_step_inv)

lemma pause_start_inv: "pause_inv (NewPauseController maxHold, replicate n Arriving)"
  by (auto simp: pause_inv_def NewPauseController_def)

subsection \<open>Properties\<close>

text \<open>C27. In every interleaving of Pause, Resume and any number of requests, Resume never closes a
  channel twice, and once the controller is not paused every request that still waits can go
  on at once: no wake-up is lost, whichever pause it arrived in.\<close>

theorem pause_no_lost_wakeup:
  assumes "pause_steps (NewPauseController maxHold, replicate n Arriving) (p, ps)"
  shows "PauseController_Resume p \<noteq> None \<and>
    (\<forall>i ch since. i < length ps \<longrightarrow> ps ! i = Holding ch since \<longrightarrow> \<not> PauseController_IsPaused p \<longrightarrow>
       wait_ready p ch since now \<and> pause_step (p, ps) (p, ps[i := Passed]))"
proof -
  have inv: "pause_inv (p, ps)" by (rule pause_steps_inv [OF assms pause_start_inv])
  have "wait_ready p ch since now" if "i < length ps" "ps ! i = Holding ch since" "\<not> pp_paused p" for i ch since now
    using inv that nth_mem [OF that(1)] by (fastforce simp: pause_inv_def wait_ready_def)
  with inv show ?thesis
    by (auto simp: pause_inv_def PauseController_Resume_def PauseController_IsPaused_def
        intro: pause_step.release)
qed

theorem pause_no_lost_wakeup_witness:
  "PauseController_Resume (PauseController_Pause (NewPauseController second)) \<noteq> None"
proof -
  have "pause_steps (NewPauseController second, replicate 1 Arriving)
      (PauseController_Pause (NewPauseController second), replicate 1 Arriving)"
    by (rule pause_trans [OF pause_refl pause_step.pause])
  from pause_no_lost_wakeup [OF this] show ?thesis by blast
qed

text \<open>A request is held no longer than the hold time.\<close>

lemma hold_bounded: "pp_maxHold p \<le> now - since \<Longrightarrow> wait_ready p ch since now"
  by (simp add: wait_ready_def)

end
