(* ===== verification/Sha256.thy ===== *)
theory Sha256
  imports Text
begin

section \<open>SHA-256 and HMAC\<close>

text \<open>
  The part of \<open>crypto/sha256\<close>, \<open>crypto/hmac\<close> and \<open>encoding/hex\<close> the program calls, as FIPS
  180-4 and RFC 2104 define them, on byte strings and 32-bit words. Used by the fingerprints
  of \<open>src/request_dedup.go\<close> and \<open>src/request_fingerprint.go\<close> and the signatures of
  \<open>src/request_signing.go\<close>.
\<close>

unbundle bit_operations_syntax

definition sha_ch :: "32 word \<Rightarrow> 32 word \<Rightarrow> 32 word \<Rightarrow> 32 word" where
  "sha_ch x y z = (x AND y) XOR (NOT x AND z)"

definition sha_maj :: "32 word \<Rightarrow> 32 word \<Rightarrow> 32 word \<Rightarrow> 32 word" where
  "sha_maj x y z = (x AND y) XOR (x AND z) XOR (y AND z)"

definition sha_S0 :: "32 word \<Rightarrow> 32 word" where
  "sha_S0 x = word_rotr 2 x XOR word_rotr 13 x XOR word_rotr 22 x"

definition sha_S1 :: "32 word \<Rightarrow> 32 word" where
  "sha_S1 x = word_rotr 6 x XOR word_rotr 11 x XOR word_rotr 25 x"

definition sha_s0 :: "32 word \<Rightarrow> 32 word" where
  "sha_s0 x = word_rotr 7 x XOR word_rotr 18 x XOR drop_bit 3 x"

definition sha_s1 :: "32 word \<Rightarrow> 32 word" where
  "sha_s1 x = word_rotr 17 x XOR word_rotr 19 x XOR drop_bit 10 x"

text \<open>The constants are the first 32 bits of the fractions of roots of primes: cube roots of the first
  64 of them for the rounds, square roots of the first eight for the initial state. \<open>root_bits k b\<close>
  adds the low \<open>b\<close> bits of the integer \<open>k\<close>-th root of \<open>n\<close> to \<open>x\<close>.\<close>

definition small_primes :: "int \<Rightarrow> int list" where
  "small_primes n = filter (\<lambda>p. list_all (\<lambda>d. d = p \<or> p mod d \<noteq> 0) [2..17]) [2..n]"

fun root_bits :: "nat \<Rightarrow> nat \<Rightarrow> int \<Rightarrow> int \<Rightarrow> int" where
  "root_bits k 0 n x = x"
| "root_bits k (Suc b) n x = root_bits k b n (if (x + 2 ^ b) ^ k \<le> n then x + 2 ^ b else x)"

definition root_fraction :: "nat \<Rightarrow> int \<Rightarrow> 32 word" where
  "root_fraction k p = word_of_int (root_bits k 35 (p * 2 ^ (32 * k)) 0)"

definition sha_K :: "32 word list" where
  "sha_K = map (root_fraction 3) (small_primes 311)"

definition sha_init :: "32 word list" where
  "sha_init = map (root_fraction 2) (small_primes 19)"

lemma length_sha_init [simp]: "length sha_init = 8"
proof -
  have "length (small_primes 19) = 8" by code_simp
  then show ?thesis by (simp add: sha_init_def)
qed

subsection \<open>The compression function\<close>

text \<open>The message schedule, the words so far kept newest first.\<close>

fun sha_schedule :: "nat \<Rightarrow> 32 word list \<Rightarrow> 32 word list" where
  "sha_schedule 0 ws = rev ws"
| "sha_schedule (Suc n) ws =
     sha_schedule n ((sha_s1 (ws ! 1) + ws ! 6 + sha_s0 (ws ! 14) + ws ! 15) # ws)"

fun sha_round :: "32 word \<times> 32 word \<Rightarrow> 32 word list \<Rightarrow> 32 word list" where
  "sha_round (k, w) [a, b, c, d, e, f, g, h] =
     (let t1 = h + sha_S1 e + sha_ch e f g + k + w; t2 = sha_S0 a + sha_maj a b c
      in [t1 + t2, a, b, c, d + t1, e, f, g])"
| "sha_round _ st = st"

definition sha_block :: "32 word list \<Rightarrow> 32 word list \<Rightarrow> 32 word list" where
  "sha_block st ws =
     map2 (+) st (fold sha_round (zip sha_K (sha_schedule 48 (rev ws))) st)"

subsection \<open>Bytes, words and padding\<close>

fun be_words :: "string \<Rightarrow> 32 word list" where
  "be_words (a # b # c # d # cs) =
     word_of_int (((of_char a * 256 + of_char b) * 256 + of_char c) * 256 + of_char d) # be_words cs"
| "be_words _ = []"

fun be_bytes :: "nat \<Rightarrow> int \<Rightarrow> string" where
  "be_bytes 0 n = []"
| "be_bytes (Suc k) n = be_bytes k (n div 256) @ [char_of (n mod 256)]"

definition sha_pad :: "string \<Rightarrow> string" where
  "sha_pad m = m @ [char_of (128 :: nat)] @
     replicate (nat ((55 - int (length m)) mod 64)) (char_of (0 :: nat)) @ be_bytes 8 (8 * int (length m))"

function sha_blocks :: "32 word list \<Rightarrow> 32 word list \<Rightarrow> 32 word list" where
  "sha_blocks st ws = (if ws = [] then st else sha_blocks (sha_block st (take 16 ws)) (drop 16 ws))"
  by pat_completeness auto
termination
  by (relation "measure (\<lambda>(st, ws). length ws)") auto

declare sha_blocks.simps [simp del]

definition sha256 :: "string \<Rightarrow> string" where
  "sha256 m = concat (map (\<lambda>w. be_bytes 4 (uint w)) (sha_blocks sha_init (be_words (sha_pad m))))"

definition hex :: "string \<Rightarrow> string" where
  "hex s = concat (map (\<lambda>c. [hex_digit (of_char c div 16), hex_digit (of_char c mod 16)]) s)"

definition hmac_key :: "string \<Rightarrow> string" where
  "hmac_key k =
     (let k1 = if 64 < length k then sha256 k else k
      in k1 @ replicate (64 - length k1) (char_of (0 :: nat)))"

definition xor_byte :: "int \<Rightarrow> char \<Rightarrow> char" where
  "xor_byte n c = char_of (n XOR of_char c)"

definition hmac_sha256 :: "string \<Rightarrow> string \<Rightarrow> string" where
  "hmac_sha256 k m =
     sha256 (map (xor_byte 92) (hmac_key k) @ sha256 (map (xor_byte 54) (hmac_key k) @ m))"

subsection \<open>Lengths\<close>

lemma length_be_bytes [simp]: "length (be_bytes k n) = k"
  by (induction k arbitrary: n) simp_all

lemma length_sha_round [simp]: "length (sha_round kw st) = length st"
  by (induction kw st rule: sha_round.induct) (simp_all add: Let_def)

lemma length_fold_round [simp]: "length (fold sha_round kws st) = length st"
  by (induction kws arbitrary: st) simp_all

lemma length_sha_block [simp]: "length (sha_block st ws) = length st"
  unfolding sha_block_def length_map length_zip length_fold_round by simp

lemma length_sha_blocks [simp]: "length (sha_blocks st ws) = length st"
proof (induction st ws rule: sha_blocks.induct)
  case (1 st ws)
  show ?case
  proof (cases "ws = []")
    case True
    then show ?thesis by (simp add: sha_blocks.simps [of st "[]"])
  next
    case False
    from 1 [OF False] False show ?thesis by (simp only: sha_blocks.simps [of st ws] if_False length_sha_block)
  qed
qed

lemma length_sha256 [simp]: "length (sha256 m) = 32"
proof -
  have "length (concat (map (\<lambda>w. be_bytes 4 (uint w)) ws)) = 4 * length ws" for ws :: "32 word list"
    by (induction ws) simp_all
  then show ?thesis by (simp add: sha256_def)
qed

text \<open>The padded message is a whole number of 64-byte blocks, so that no input is dropped.\<close>

lemma length_sha_pad: "int (length (sha_pad m)) mod 64 = 0"
proof -
  have "int (length (sha_pad m)) = int (length m) + 9 + (55 - int (length m)) mod 64"
    by (simp add: sha_pad_def del: be_bytes.simps)
  moreover have "(n + 9 + (55 - n) mod 64) mod 64 = 0" for n :: int by (simp add: mod_simps)
  ultimately show ?thesis by simp
qed

lemma length_hmac_key [simp]: "length (hmac_key k) = 64"
  by (simp add: hmac_key_def Let_def)

lemma hex_Nil [simp]: "hex [] = []"
  and hex_Cons: "hex (c # s) = hex_digit (of_char c div 16) # hex_digit (of_char c mod 16) # hex s"
  by (simp_all add: hex_def)

lemma length_hex [simp]: "length (hex s) = 2 * length s"
  by (induction s) (simp_all add: hex_Cons)

subsection \<open>Hexadecimal text is injective\<close>

lemma of_hex_digit: "d < 16 \<Longrightarrow> (of_char (hex_digit d) :: nat) = (if d < 10 then 48 + d else 87 + d)"
  by (simp add: hex_digit_def)

lemma hex_digit_inject:
  assumes "d < 16" and "e < 16" and "hex_digit d = hex_digit e"
  shows "d = e"
proof -
  have "(if d < 10 then 48 + d else 87 + d) = (if e < 10 then 48 + e else 87 + e)"
    using of_hex_digit [OF assms(1)] of_hex_digit [OF assms(2)] unfolding assms(3) by (rule trans [OF sym])
  then show ?thesis using assms(1,2) by (cases "d < 10"; cases "e < 10"; simp)
qed

lemma of_char_div: "(of_char c :: nat) div 16 < 16"
proof -
  have "(of_char c :: nat) < 256" by simp
  then show ?thesis by linarith
qed

lemma hex_inject: "hex s = hex t \<Longrightarrow> s = t"
proof (induction s arbitrary: t)
  case Nil
  then show ?case by (cases t) (simp_all add: hex_Cons)
next
  case (Cons c s)
  then obtain d t' where t: "t = d # t'" by (cases t) (simp_all add: hex_Cons)
  have "(of_char c :: nat) div 16 = of_char d div 16" "(of_char c :: nat) mod 16 = of_char d mod 16"
    using Cons.prems t by (auto simp: hex_Cons intro: hex_digit_inject of_char_div)
  then have "(of_char c :: nat) = of_char d" by (metis div_mult_mod_eq)
  then have "c = d" by (simp only: of_char_eq_iff)
  moreover have "s = t'" using Cons t by (simp add: hex_Cons)
  ultimately show ?case using t by simp
qed

end
