(* ===== verification/Dedup.thy ===== *)
theory Dedup
  imports Http Sha256
begin

section \<open>Duplicate requests\<close>

text \<open>
  \<open>src/request_dedup.go\<close> and \<open>src/request_dedup_option.go\<close>. The store's mutex makes each method
  and each round of the evicting goroutine one step. \<open>IsDuplicate\<close> reads the clock when it
  looks a fingerprint up and again when it records it: \<open>now\<close> and \<open>stamp\<close>. The evicting goroutine
  reads it before it takes the lock, so its \<open>now\<close> may be older than readings of calls that got the
  lock before it.
\<close>

subsection \<open>The store\<close>

record DedupStore =
  dd_entries :: "string \<rightharpoonup> gotime"
  dd_ttl :: duration

text \<open>The evicting goroutine is started here; its ticker panics unless the interval is positive,
  and a panic in a goroutine ends the program: \<open>None\<close>.\<close>

definition NewDedupStore :: "duration \<Rightarrow> DedupStore option" where
  "NewDedupStore ttl =
     (if 0 < ttl then Some \<lparr>dd_entries = Map.empty, dd_ttl = ttl\<rparr> else None)"

definition DedupStore_IsDuplicate ::
  "string \<Rightarrow> gotime \<Rightarrow> gotime \<Rightarrow> DedupStore \<Rightarrow> bool \<times> DedupStore" where
  "DedupStore_IsDuplicate fp now stamp d =
     (if (case dd_entries d fp of Some exp \<Rightarrow> now < exp | None \<Rightarrow> False) then (True, d)
      else (False, d\<lparr>dd_entries := (dd_entries d)(fp \<mapsto> stamp + dd_ttl d)\<rparr>))"

text \<open>One tick of the evicting loop.\<close>

definition DedupStore_evict :: "gotime \<Rightarrow> DedupStore \<Rightarrow> DedupStore" where
  "DedupStore_evict now d =
     d\<lparr>dd_entries := (\<lambda>k. case dd_entries d k of
         Some exp \<Rightarrow> if exp < now then None else Some exp | None \<Rightarrow> None)\<rparr>"

lemma dd_ttl_kept [simp]:
  "dd_ttl (snd (DedupStore_IsDuplicate fp now stamp d)) = dd_ttl d"
  "dd_ttl (DedupStore_evict now d) = dd_ttl d"
  by (simp_all add: DedupStore_IsDuplicate_def DedupStore_evict_def)

subsection \<open>The middleware\<close>

definition defaultDedupKeyFunc :: "req \<Rightarrow> string" where
  "defaultDedupKeyFunc r =
     hex (sha256 (Method r @ '':'' @ URL_Path r @ '':'' @ RemoteAddr r))"

definition defaultDedupRejectedHandler :: "'w rwriter \<Rightarrow> ('w, 's) handler" where
  "defaultDedupRejectedHandler W r w s = (r, http_Error W ''duplicate request'' StatusConflict w, s)"

definition WithRequestDedup ::
  "'w rwriter \<Rightarrow> ('s \<Rightarrow> gotime) \<Rightarrow> ('s \<Rightarrow> gotime) \<Rightarrow> (req \<Rightarrow> string) option \<Rightarrow>
   ('w, DedupStore \<times> 's) handler \<Rightarrow> ('w, DedupStore \<times> 's) handler" where
  "WithRequestDedup W clk clk2 keyFunc next r w ds =
     (let key = (case keyFunc of None \<Rightarrow> defaultDedupKeyFunc | Some f \<Rightarrow> f);
          (d, s) = ds;
          (dup, d') = DedupStore_IsDuplicate (key r) (clk s) (clk2 s) d
      in if dup then defaultDedupRejectedHandler W r w (d', s) else next r w (d', s))"

subsection \<open>Options\<close>

record ('w, 's) DedupConfig =
  dc_ttl :: duration
  dc_keyFunc :: "req \<Rightarrow> string"
  dc_onDuplicate :: "('w, 's) handler"

definition WithDedupTTL :: "duration \<Rightarrow> ('w, 's) DedupConfig \<Rightarrow> ('w, 's) DedupConfig" where
  "WithDedupTTL ttl c = c\<lparr>dc_ttl := ttl\<rparr>"

definition WithDedupKeyFunc ::
  "(req \<Rightarrow> string) \<Rightarrow> ('w, 's) DedupConfig \<Rightarrow> ('w, 's) DedupConfig" where
  "WithDedupKeyFunc fn c = c\<lparr>dc_keyFunc := fn\<rparr>"

definition WithDedupHandler ::
  "('w, 's) handler \<Rightarrow> ('w, 's) DedupConfig \<Rightarrow> ('w, 's) DedupConfig" where
  "WithDedupHandler h c = c\<lparr>dc_onDuplicate := h\<rparr>"

definition dedup_config ::
  "'w rwriter \<Rightarrow> (('w, 's) DedupConfig \<Rightarrow> ('w, 's) DedupConfig) list \<Rightarrow> ('w, 's) DedupConfig" where
  "dedup_config W opts = fold (\<lambda>opt c. opt c) opts
     \<lparr>dc_ttl = 5 * second, dc_keyFunc = defaultDedupKeyFunc,
      dc_onDuplicate = defaultDedupRejectedHandler W\<rparr>"

text \<open>The store the constructor starts with, and the handler it returns.\<close>

definition NewDedupWithOptions ::
  "'w rwriter \<Rightarrow> ('s \<Rightarrow> gotime) \<Rightarrow> ('s \<Rightarrow> gotime) \<Rightarrow>
   (('w, DedupStore \<times> 's) DedupConfig \<Rightarrow> ('w, DedupStore \<times> 's) DedupConfig) list \<Rightarrow>
   DedupStore option \<times> (('w, DedupStore \<times> 's) handler \<Rightarrow> ('w, DedupStore \<times> 's) handler)" where
  "NewDedupWithOptions W clk clk2 opts =
     (let cfg = dedup_config W opts
      in (NewDedupStore (dc_ttl cfg),
          \<lambda>next r w (d, s).
            let (dup, d') = DedupStore_IsDuplicate (dc_keyFunc cfg r) (clk s) (clk2 s) d
            in if dup then dc_onDuplicate cfg r w (d', s) else next r w (d', s)))"

text \<open>Without options it is \<open>WithRequestDedup\<close> over a store of five seconds.\<close>

lemma NewDedup_default:
  "NewDedupWithOptions W clk clk2 [] =
     (NewDedupStore (5 * second), WithRequestDedup W clk clk2 None)"
  by (simp add: NewDedupWithOptions_def dedup_config_def WithRequestDedup_def fun_eq_iff Let_def
      split: prod.split)

lemma dedup_ttl_zero_panics:
  "ttl \<le> 0 \<Longrightarrow> fst (NewDedupWithOptions W clk clk2 [WithDedupTTL ttl]) = None"
  by (simp add: NewDedupWithOptions_def dedup_config_def WithDedupTTL_def NewDedupStore_def)

text \<open>A duplicate is answered 409 and does not reach \<open>next\<close>.\<close>

lemma dedup_duplicate_409:
  assumes "dd_entries d (defaultDedupKeyFunc r) = Some exp" and "clk s < exp" and "cSent c = None"
  shows "\<exists>c'. WithRequestDedup conn_rw clk clk2 None next r c (d, s) = (r, c', d, s) \<and>
    conn_status c' = Some StatusConflict"
  using assms server_rw.status_http_Error [of c StatusConflict]
  by (simp add: WithRequestDedup_def DedupStore_IsDuplicate_def defaultDedupRejectedHandler_def conn_status_def)

text \<open>The fingerprint has the address with its port: the texts hashed for two connections of one
  client differ.\<close>

lemma dedup_text_has_port:
  "Method r @ '':'' @ URL_Path r @ '':'' @ h @ '':'' @ p = Method r @ '':'' @ URL_Path r @ '':'' @ h @ '':'' @ q \<longleftrightarrow> p = q"
  by simp

subsection \<open>Histories\<close>

text \<open>Calls of \<open>IsDuplicate\<close> and rounds of eviction in any order, with the clock readings each
  took; \<open>dd_run\<close> gives the answers.\<close>

datatype dd_event = Check string gotime gotime | Evict gotime

fun dd_run :: "dd_event list \<Rightarrow> DedupStore \<Rightarrow> bool list" where
  "dd_run [] d = []"
| "dd_run (Check fp now stamp # evs) d =
     (let (dup, d') = DedupStore_IsDuplicate fp now stamp d in dup # dd_run evs d')"
| "dd_run (Evict now # evs) d = dd_run evs (DedupStore_evict now d)"

text \<open>The clock does not go back: a reading is not before the readings of the calls that held the
  lock earlier. A round of eviction may have read the clock long before its turn, so its reading is only not after
  those that follow.\<close>

fun ev_reads :: "dd_event \<Rightarrow> gotime list" where
  "ev_reads (Check fp now stamp) = [now, stamp]"
| "ev_reads (Evict now) = []"

definition dd_reads :: "dd_event list \<Rightarrow> gotime list" where
  "dd_reads evs = concat (map ev_reads evs)"

lemma dd_reads_simps [simp]:
  "dd_reads [] = []" "dd_reads (ev # evs) = ev_reads ev @ dd_reads evs"
  by (simp_all add: dd_reads_def)

fun dd_ordered :: "dd_event list \<Rightarrow> bool" where
  "dd_ordered [] \<longleftrightarrow> True"
| "dd_ordered (Check fp now stamp # evs) \<longleftrightarrow> now \<le> stamp \<and> (\<forall>t\<in>set (dd_reads evs). stamp \<le> t) \<and> dd_ordered evs"
| "dd_ordered (Evict now # evs) \<longleftrightarrow> (\<forall>t\<in>set (dd_reads evs). now \<le> t) \<and> dd_ordered evs"

text \<open>What the store promises: a fingerprint is a duplicate for \<open>ttl\<close> after it was last
  accepted. Nothing is ever evicted here.\<close>

fun dd_spec :: "duration \<Rightarrow> (string \<rightharpoonup> gotime) \<Rightarrow> dd_event list \<Rightarrow> bool list" where
  "dd_spec ttl acc [] = []"
| "dd_spec ttl acc (Check fp now stamp # evs) =
     (if (case acc fp of Some t \<Rightarrow> now < t + ttl | None \<Rightarrow> False) then True # dd_spec ttl acc evs
      else False # dd_spec ttl (acc(fp \<mapsto> stamp)) evs)"
| "dd_spec ttl acc (Evict now # evs) = dd_spec ttl acc evs"

text \<open>An entry is the end of its fingerprint's time, or gone once that has passed.\<close>

definition dd_rel :: "(string \<rightharpoonup> gotime) \<Rightarrow> gotime \<Rightarrow> DedupStore \<Rightarrow> bool" where
  "dd_rel acc now d \<longleftrightarrow> (\<forall>fp. dd_entries d fp = map_option (\<lambda>t. t + dd_ttl d) (acc fp) \<or>
     (dd_entries d fp = None \<and> (\<exists>t. acc fp = Some t \<and> t + dd_ttl d \<le> now)))"

lemma dd_rel_later: "dd_rel acc now d \<Longrightarrow> now \<le> now' \<Longrightarrow> dd_rel acc now' d"
  unfolding dd_rel_def by (meson order_trans)

lemma dd_rel_evict: "dd_rel acc now d \<Longrightarrow> now \<le> t \<Longrightarrow> u \<le> t \<Longrightarrow> dd_rel acc t (DedupStore_evict u d)"
  unfolding dd_rel_def
proof
  fix fp
  assume "\<forall>fp. dd_entries d fp = map_option (\<lambda>t. t + dd_ttl d) (acc fp) \<or>
     (dd_entries d fp = None \<and> (\<exists>t. acc fp = Some t \<and> t + dd_ttl d \<le> now))" and "now \<le> t" "u \<le> t"
  then have "dd_entries d fp = map_option (\<lambda>t. t + dd_ttl d) (acc fp) \<or>
     (dd_entries d fp = None \<and> (\<exists>t. acc fp = Some t \<and> t + dd_ttl d \<le> now))" by blast
  with \<open>now \<le> t\<close> \<open>u \<le> t\<close>
  show "dd_entries (DedupStore_evict u d) fp = map_option (\<lambda>t. t + dd_ttl (DedupStore_evict u d)) (acc fp) \<or>
     (dd_entries (DedupStore_evict u d) fp = None \<and>
      (\<exists>v. acc fp = Some v \<and> v + dd_ttl (DedupStore_evict u d) \<le> t))"
    by (cases "acc fp") (auto simp: DedupStore_evict_def split: if_splits)
qed

lemma dd_rel_check:
  assumes "dd_rel acc t d" and "t \<le> now" and "now \<le> stamp"
    and "DedupStore_IsDuplicate fp now stamp d = (dup, d')"
  shows "dup \<longleftrightarrow> (case acc fp of Some t \<Rightarrow> now < t + dd_ttl d | None \<Rightarrow> False)"
    and "dd_rel (if dup then acc else acc(fp \<mapsto> stamp)) stamp d'"
proof -
  have fp: "dd_entries d fp = map_option (\<lambda>t. t + dd_ttl d) (acc fp) \<or>
     (dd_entries d fp = None \<and> (\<exists>u. acc fp = Some u \<and> u + dd_ttl d \<le> t))"
    using assms(1) by (simp add: dd_rel_def)
  then have dup: "(case dd_entries d fp of Some exp \<Rightarrow> now < exp | None \<Rightarrow> False) \<longleftrightarrow>
      (case acc fp of Some t \<Rightarrow> now < t + dd_ttl d | None \<Rightarrow> False)"
    using assms(2) by (auto split: option.splits)
  with assms(4) show "dup \<longleftrightarrow> (case acc fp of Some t \<Rightarrow> now < t + dd_ttl d | None \<Rightarrow> False)"
    by (auto simp: DedupStore_IsDuplicate_def split: if_splits)
  have "dd_rel acc stamp d" using dd_rel_later [OF assms(1)] assms(2,3) by simp
  with assms(4) show "dd_rel (if dup then acc else acc(fp \<mapsto> stamp)) stamp d'"
    by (auto simp: DedupStore_IsDuplicate_def dd_rel_def split: if_splits)
qed

lemma dd_run_spec:
  "dd_rel acc t d \<Longrightarrow> \<forall>u\<in>set (dd_reads evs). t \<le> u \<Longrightarrow> dd_ordered evs \<Longrightarrow>
   dd_run evs d = dd_spec (dd_ttl d) acc evs"
proof (induction evs arbitrary: acc t d)
  case (Cons ev evs)
  show ?case
  proof (cases ev)
    case (Check fp now stamp)
    obtain dup d' where d': "DedupStore_IsDuplicate fp now stamp d = (dup, d')" by force
    have le: "t \<le> now" "now \<le> stamp" and srt: "\<forall>u\<in>set (dd_reads evs). stamp \<le> u" "dd_ordered evs"
      using Cons.prems(2,3) Check by simp_all
    note step = dd_rel_check [OF Cons.prems(1) le d']
    have "dd_ttl d' = dd_ttl d" using dd_ttl_kept(1) [of fp now stamp d] d' by simp
    with Cons.IH [OF step(2) srt] step(1) d' Check show ?thesis
      by (cases dup) (simp_all del: fun_upd_apply)
  next
    case (Evict now)
    have "dd_rel acc (max t now) (DedupStore_evict now d)" by (rule dd_rel_evict [OF Cons.prems(1)]) simp_all
    from Cons.IH [OF this] Cons.prems(2,3) Evict show ?thesis by simp
  qed
qed simp

text \<open>The fingerprints accepted, with their two clock readings.\<close>

fun dd_accepted :: "dd_event list \<Rightarrow> bool list \<Rightarrow> (string \<times> gotime \<times> gotime) list" where
  "dd_accepted (Check fp now stamp # evs) (dup # as) =
     (if dup then dd_accepted evs as else (fp, now, stamp) # dd_accepted evs as)"
| "dd_accepted (Evict now # evs) as = dd_accepted evs as"
| "dd_accepted _ _ = []"

lemma dd_spec_apart:
  "0 \<le> ttl \<Longrightarrow> dd_ordered evs \<Longrightarrow>
   sorted_wrt (\<lambda>(fp, _, stamp) (fp', now, _). fp = fp' \<longrightarrow> stamp + ttl \<le> now)
     (dd_accepted evs (dd_spec ttl acc evs)) \<and>
   (\<forall>(fp, now, stamp)\<in>set (dd_accepted evs (dd_spec ttl acc evs)).
      \<forall>t. acc fp = Some t \<longrightarrow> t + ttl \<le> now)"
proof (induction evs arbitrary: acc)
  case (Cons ev evs)
  show ?case
  proof (cases ev)
    case (Check fp now stamp)
    have srt: "dd_ordered evs" using Cons.prems(2) Check by simp
    note hyp = Cons.IH [OF Cons.prems(1) srt]
    show ?thesis
    proof (cases "case acc fp of Some t \<Rightarrow> now < t + ttl | None \<Rightarrow> False")
      case True
      then show ?thesis using hyp [of acc] Check by simp
    next
      case False
      then have old: "t + ttl \<le> now" if "acc fp = Some t" for t using that by simp
      let ?rest = "dd_accepted evs (dd_spec ttl (acc(fp \<mapsto> stamp)) evs)"
      have "stamp + ttl \<le> n" if "(fp, n, m) \<in> set ?rest" for n m
        using hyp [of "acc(fp \<mapsto> stamp)"] that by fastforce
      moreover have "now \<le> stamp" using Cons.prems(2) Check by simp
      moreover have "t + ttl \<le> n" if "(f, n, m) \<in> set ?rest" "acc f = Some t" for f n m t
      proof (cases "f = fp")
        case True
        with that calculation(1) [of n m] old \<open>now \<le> stamp\<close> Cons.prems(1) show ?thesis by fastforce
      next
        case False
        with that hyp [of "acc(fp \<mapsto> stamp)"] show ?thesis by fastforce
      qed
      ultimately show ?thesis
        using hyp [of "acc(fp \<mapsto> stamp)"] False old Check by (auto simp: case_prod_beta simp del: fun_upd_apply)
    qed
  next
    case (Evict now)
    with Cons show ?thesis by simp
  qed
qed simp

subsection \<open>Properties\<close>

text \<open>C28. However calls and rounds of eviction interleave, as long as the clock does not go back
  (a round of eviction may have read it before it waited for the lock), the store answers as its
  specification: a fingerprint is a duplicate exactly for ttl after it was last accepted, so that
  evictions are invisible; and accepted requests with one fingerprint are at least ttl apart.\<close>

theorem dedup_meets_spec:
  assumes "NewDedupStore ttl = Some d" and "dd_ordered evs"
  shows "dd_run evs d = dd_spec ttl Map.empty evs \<and>
    sorted_wrt (\<lambda>(fp, _, stamp) (fp', now, _). fp = fp' \<longrightarrow> stamp + ttl \<le> now)
      (dd_accepted evs (dd_run evs d))"
proof -
  have d: "0 < ttl" "dd_ttl d = ttl" "\<And>t. dd_rel Map.empty t d"
    using assms(1) by (auto simp: NewDedupStore_def dd_rel_def split: if_splits)
  have "\<exists>t. \<forall>u\<in>set (dd_reads evs). t \<le> u"
    by (intro exI [of _ "Min (insert 0 (set (dd_reads evs)))"]) simp
  then obtain t where "\<forall>u\<in>set (dd_reads evs). t \<le> u" ..
  from dd_run_spec [OF d(3) this assms(2)] d(2) have "dd_run evs d = dd_spec ttl Map.empty evs" by simp
  with dd_spec_apart [of ttl evs Map.empty] d(1) assms(2) show ?thesis by simp
qed

theorem dedup_meets_spec_witness:
  "\<exists>d. NewDedupStore 10 = Some d \<and>
     dd_run [Check ''a'' 0 1, Check ''a'' 5 5, Evict 4, Evict 20, Check ''a'' 21 22] d = [False, True, False]"
proof -
  obtain d where d: "NewDedupStore 10 = Some d" by (simp add: NewDedupStore_def)
  have "dd_ordered [Check ''a'' 0 1, Check ''a'' 5 5, Evict 4, Evict 20, Check ''a'' 21 22]" by simp
  from dedup_meets_spec [OF d this] d show ?thesis by auto
qed

end
