(* ===== verification/Signing.thy ===== *)
theory Signing
  imports KeyFunc Sha256
begin

section \<open>Signed requests\<close>

text \<open>
  \<open>src/request_signing.go\<close> and \<open>src/request_signing_option.go\<close>: the configuration and its
  options, the payload functions, and the middleware. \<open>hmac.Equal\<close> is equality; its constant
  time is outside the model.
\<close>

record ('w, 's) SigningConfig =
  sg_secret :: string
  sg_headerName :: string
  sg_keyFunc :: "req \<Rightarrow> string"
  sg_onInvalid :: "('w, 's) handler"

definition WithSigningSecret :: "string \<Rightarrow> ('w, 's) SigningConfig \<Rightarrow> ('w, 's) SigningConfig" where
  "WithSigningSecret secret c = c\<lparr>sg_secret := secret\<rparr>"

definition WithSigningHeader :: "string \<Rightarrow> ('w, 's) SigningConfig \<Rightarrow> ('w, 's) SigningConfig" where
  "WithSigningHeader hdr c = c\<lparr>sg_headerName := hdr\<rparr>"

definition WithSigningKeyFunc ::
  "(req \<Rightarrow> string) \<Rightarrow> ('w, 's) SigningConfig \<Rightarrow> ('w, 's) SigningConfig" where
  "WithSigningKeyFunc fn c = c\<lparr>sg_keyFunc := fn\<rparr>"

definition WithSigningInvalidHandler ::
  "('w, 's) handler \<Rightarrow> ('w, 's) SigningConfig \<Rightarrow> ('w, 's) SigningConfig" where
  "WithSigningInvalidHandler h c = c\<lparr>sg_onInvalid := h\<rparr>"

definition defaultSigningKeyFunc :: "req \<Rightarrow> string" where
  "defaultSigningKeyFunc r = Method r @ '':'' @ URL_RequestURI r"

definition SigningByBodyHash :: "string \<Rightarrow> req \<Rightarrow> string" where
  "SigningByBodyHash bodyHashHeader r =
     Method r @ '':'' @ URL_RequestURI r @ '':'' @ req_hget r bodyHashHeader"

definition SigningByAPIKey :: "string \<Rightarrow> req \<Rightarrow> string" where
  "SigningByAPIKey apiKeyHeader r =
     Method r @ '':'' @ URL_RequestURI r @ '':'' @ req_hget r apiKeyHeader"

definition defaultSigningInvalidHandler :: "'w rwriter \<Rightarrow> ('w, 's) handler" where
  "defaultSigningInvalidHandler W r w s =
     (r, http_Error W ''Forbidden: invalid or missing request signature'' StatusForbidden w, s)"

definition ComputeSignature :: "string \<Rightarrow> string \<Rightarrow> string" where
  "ComputeSignature secret payload = hex (hmac_sha256 secret payload)"

definition signing_config ::
  "'w rwriter \<Rightarrow> (('w, 's) SigningConfig \<Rightarrow> ('w, 's) SigningConfig) list \<Rightarrow> ('w, 's) SigningConfig" where
  "signing_config W opts = fold (\<lambda>opt c. opt c) opts
     \<lparr>sg_secret = [], sg_headerName = ''X-Signature'', sg_keyFunc = defaultSigningKeyFunc,
      sg_onInvalid = defaultSigningInvalidHandler W\<rparr>"

definition WithRequestSigning ::
  "'w rwriter \<Rightarrow> (('w, 's) SigningConfig \<Rightarrow> ('w, 's) SigningConfig) list \<Rightarrow>
   ('w, 's) handler \<Rightarrow> ('w, 's) handler" where
  "WithRequestSigning W opts next r w s =
     (let cfg = signing_config W opts;
          sig = TrimSpace (req_hget r (sg_headerName cfg))
      in if sig = [] then sg_onInvalid cfg r w s
         else let payload = sg_keyFunc cfg r;
                  expected = ComputeSignature (sg_secret cfg) payload
              in if sig \<noteq> expected then sg_onInvalid cfg r w s else next r w s)"

definition NewRequestSigningConfig ::
  "'w rwriter \<Rightarrow> (('w, 's) SigningConfig \<Rightarrow> ('w, 's) SigningConfig) list \<Rightarrow>
   ('w, 's) handler \<Rightarrow> ('w, 's) handler" where
  "NewRequestSigningConfig W opts = WithRequestSigning W opts"

subsection \<open>Signatures\<close>

lemma length_signature: "length (ComputeSignature secret payload) = 64"
  by (simp add: ComputeSignature_def hmac_sha256_def)

lemma hex_no_space: "list_all (\<lambda>c. \<not> is_space c) (hex s)"
proof -
  have "\<not> is_space (hex_digit d)" if "d < 16" for d
    using of_hex_digit [OF that] that by (auto simp: is_space_def Let_def split: if_splits)
  then show ?thesis by (induction s) (simp_all add: hex_Cons of_char_div)
qed

lemma TrimSpace_id:
  assumes "list_all (\<lambda>c. \<not> is_space c) s"
  shows "TrimSpace s = s"
proof -
  have "dropWhile is_space t = t" if "list_all (\<lambda>c. \<not> is_space c) t" for t
    using that by (cases t) simp_all
  with assms show ?thesis by (simp add: TrimSpace_def)
qed

lemma TrimSpace_signature [simp]:
  "TrimSpace (ComputeSignature secret payload) = ComputeSignature secret payload"
  by (simp add: ComputeSignature_def TrimSpace_id hex_no_space)

text \<open>One comparison decides: the empty signature is never the expected one.\<close>

lemma signing_decides:
  "WithRequestSigning W opts next r w s =
     (let cfg = signing_config W opts
      in if TrimSpace (req_hget r (sg_headerName cfg)) = ComputeSignature (sg_secret cfg) (sg_keyFunc cfg r)
         then next r w s else sg_onInvalid cfg r w s)"
  using length_signature [of "sg_secret (signing_config W opts)" "sg_keyFunc (signing_config W opts) r"]
  by (auto simp: WithRequestSigning_def Let_def)

text \<open>The body is not part of any payload function of the package: a request is accepted with
  whatever body it is sent, also under \<open>SigningByBodyHash\<close>, which signs the hash the sender
  claims.\<close>

lemma signing_ignores_body:
  assumes "key = defaultSigningKeyFunc \<or> key = SigningByBodyHash h \<or> key = SigningByAPIKey h"
  shows "key (r\<lparr>Body := b\<rparr>) = key r"
  using assms by (auto simp: defaultSigningKeyFunc_def SigningByBodyHash_def SigningByAPIKey_def req_hget_def)

text \<open>The parts are joined by a colon, which a request URI may contain: a signature for one URI
  and API key is a signature for another.\<close>

lemma signing_apikey_ambiguous:
  assumes "Method r' = Method r" and "URL_RequestURI r = u" and "req_hget r h = v @ '':'' @ k"
    and "URL_RequestURI r' = u @ '':'' @ v" and "req_hget r' h = k"
  shows "ComputeSignature secret (SigningByAPIKey h r') = ComputeSignature secret (SigningByAPIKey h r)"
  using assms by (simp add: SigningByAPIKey_def)

text \<open>Without \<open>WithSigningSecret\<close> the secret is empty, so that anyone can sign.\<close>

lemma signing_default_secret: "sg_secret (signing_config W []) = []"
  by (simp add: signing_config_def)

subsection \<open>Properties\<close>

text \<open>C38. A request that carries the signature a client computes with the same secret over its
  method and URI reaches next, whatever its body and its other headers are; any other request is
  answered 403 and next is not run.\<close>

theorem signing_accepts_iff_signed:
  assumes "cSent c = None"
  shows "WithRequestSigning conn_rw [WithSigningSecret secret] next
      (req_hset ''X-Signature'' (ComputeSignature secret (Method r @ '':'' @ URL_RequestURI r)) r) c s =
      next (req_hset ''X-Signature'' (ComputeSignature secret (Method r @ '':'' @ URL_RequestURI r)) r) c s \<and>
    (TrimSpace (req_hget r ''X-Signature'') \<noteq> ComputeSignature secret (Method r @ '':'' @ URL_RequestURI r) \<longrightarrow>
      (\<exists>c'. WithRequestSigning conn_rw [WithSigningSecret secret] next r c s = (r, c', s) \<and>
         conn_status c' = Some StatusForbidden))"
  using assms server_rw.status_http_Error [of c StatusForbidden]
  by (simp add: signing_decides signing_config_def WithSigningSecret_def defaultSigningKeyFunc_def
      defaultSigningInvalidHandler_def hdr_simps conn_status_def)

theorem signing_accepts_iff_signed_witness:
  "\<exists>c'. WithRequestSigning conn_rw [WithSigningSecret ''k''] (\<lambda>r c s. (r, c, s))
       (sample_req ''1.2.3.4:5'' ''/'' [(''X-Signature'', [''beef''])]) new_conn () =
     (sample_req ''1.2.3.4:5'' ''/'' [(''X-Signature'', [''beef''])], c', ()) \<and>
     conn_status c' = Some 403"
proof -
  let ?r = "sample_req ''1.2.3.4:5'' ''/'' [(''X-Signature'', [''beef''])]"
  have "req_hget ?r ''X-Signature'' = ''beef''" by code_simp
  moreover have "TrimSpace ''beef'' = ''beef''" by code_simp
  moreover have "''beef'' \<noteq> ComputeSignature ''k'' p" for p
  proof
    assume "''beef'' = ComputeSignature ''k'' p"
    then have "length ''beef'' = (64 :: nat)" by (simp only: length_signature)
    then show False by simp
  qed
  ultimately have
    "TrimSpace (req_hget ?r ''X-Signature'') \<noteq> ComputeSignature ''k'' (Method ?r @ '':'' @ URL_RequestURI ?r)"
    by (simp only: not_False_eq_True)
  moreover have "cSent new_conn = None" by (simp add: new_conn_def)
  ultimately show ?thesis
    using signing_accepts_iff_signed [of new_conn "''k''" "\<lambda>r c s. (r, c, s)" ?r "()"] by blast
qed

end
