(* ===== verification/Fingerprint.thy ===== *)
theory Fingerprint
  imports Http Sha256
begin

section \<open>Request fingerprints\<close>

text \<open>
  \<open>src/request_fingerprint.go\<close> and \<open>src/request_fingerprint_option.go\<close>: the configuration,
  its options and presets, the key function and the middleware. The field \<open>keyFunc\<close> of the
  struct is never used.
\<close>

record FingerprintConfig =
  fc_headers :: "string list"
  fc_includeIP :: bool
  fc_includePath :: bool

definition WithFingerprintHeaders :: "string list \<Rightarrow> FingerprintConfig \<Rightarrow> FingerprintConfig" where
  "WithFingerprintHeaders hs c = c\<lparr>fc_headers := fc_headers c @ hs\<rparr>"

definition WithFingerprintIP :: "bool \<Rightarrow> FingerprintConfig \<Rightarrow> FingerprintConfig" where
  "WithFingerprintIP b c = c\<lparr>fc_includeIP := b\<rparr>"

definition WithFingerprintPath :: "bool \<Rightarrow> FingerprintConfig \<Rightarrow> FingerprintConfig" where
  "WithFingerprintPath b c = c\<lparr>fc_includePath := b\<rparr>"

definition NewFingerprintConfig :: "(FingerprintConfig \<Rightarrow> FingerprintConfig) list \<Rightarrow> FingerprintConfig" where
  "NewFingerprintConfig opts = fold (\<lambda>opt c. opt c) opts
     \<lparr>fc_headers = [], fc_includeIP = True, fc_includePath = True\<rparr>"

definition fingerprint_ip :: "string \<Rightarrow> string" where
  "fingerprint_ip addr = (case before_last (CHR '':'') addr of None \<Rightarrow> addr | Some ip \<Rightarrow> ip)"

definition fingerprint_parts :: "FingerprintConfig \<Rightarrow> req \<Rightarrow> string list" where
  "fingerprint_parts c r =
     (if fc_includeIP c then [''ip:'' @ fingerprint_ip (RemoteAddr r)] else []) @
     (if fc_includePath c then [''path:'' @ URL_Path r] else []) @
     map (\<lambda>h. h @ '':'' @ req_hget r h) (fc_headers c)"

definition FingerprintConfig_KeyFunc :: "FingerprintConfig \<Rightarrow> req \<Rightarrow> string" where
  "FingerprintConfig_KeyFunc c r = hex (take 8 (sha256 (Join (fingerprint_parts c r) ''|'')))"

definition WithRequestFingerprint ::
  "'w rwriter \<Rightarrow> FingerprintConfig \<Rightarrow> ('w, 's) handler \<Rightarrow> ('w, 's) handler" where
  "WithRequestFingerprint W cfg next r w s =
     (let fp = FingerprintConfig_KeyFunc cfg r;
          r1 = req_hset ''X-Request-Fingerprint'' fp r;
          w1 = rw_set W ''X-Request-Fingerprint'' fp w
      in next r1 w1 s)"

definition DefaultFingerprintConfig :: FingerprintConfig where
  "DefaultFingerprintConfig = NewFingerprintConfig [WithFingerprintIP True, WithFingerprintPath True]"

definition FingerprintByUserAgent :: FingerprintConfig where
  "FingerprintByUserAgent =
     NewFingerprintConfig [WithFingerprintIP True, WithFingerprintPath True, WithFingerprintHeaders [''User-Agent'']]"

definition FingerprintByToken :: FingerprintConfig where
  "FingerprintByToken =
     NewFingerprintConfig [WithFingerprintIP False, WithFingerprintPath False, WithFingerprintHeaders [''Authorization'']]"

lemmas fingerprint_defs = NewFingerprintConfig_def WithFingerprintIP_def WithFingerprintPath_def
  WithFingerprintHeaders_def DefaultFingerprintConfig_def FingerprintByUserAgent_def FingerprintByToken_def

subsection \<open>What a fingerprint depends on\<close>

lemma length_fingerprint: "length (FingerprintConfig_KeyFunc c r) = 16"
  by (simp add: FingerprintConfig_KeyFunc_def)

text \<open>Neither the port nor a header that is not listed is part of it.\<close>

lemma fingerprint_ignores_port:
  assumes "RemoteAddr r = h @ '':'' @ p" and "RemoteAddr r' = h @ '':'' @ q"
    and "CHR '':'' \<notin> set p" and "CHR '':'' \<notin> set q"
    and "URL_Path r' = URL_Path r" and "\<And>k. k \<in> set (fc_headers c) \<Longrightarrow> req_hget r' k = req_hget r k"
  shows "FingerprintConfig_KeyFunc c r' = FingerprintConfig_KeyFunc c r"
proof -
  have "fingerprint_ip (RemoteAddr r') = fingerprint_ip (RemoteAddr r)"
    using assms(1-4) by (simp add: fingerprint_ip_def before_last_append)
  then have "fingerprint_parts c r' = fingerprint_parts c r"
    using assms(5,6) by (simp add: fingerprint_parts_def)
  then show ?thesis by (simp add: FingerprintConfig_KeyFunc_def)
qed

lemma fingerprint_token_only:
  "req_hget r' ''Authorization'' = req_hget r ''Authorization'' \<Longrightarrow>
   FingerprintConfig_KeyFunc FingerprintByToken r' = FingerprintConfig_KeyFunc FingerprintByToken r"
  by (simp add: FingerprintConfig_KeyFunc_def fingerprint_parts_def fingerprint_defs)

text \<open>The parts are joined without escaping: with two headers a client chooses, the separator in
  one value reads as the start of the next.\<close>

lemma fingerprint_parts_ambiguous:
  fixes r r' :: req
  defines "c \<equiv> NewFingerprintConfig
    [WithFingerprintIP False, WithFingerprintPath False, WithFingerprintHeaders [''A'', ''B'']]"
  assumes "req_hget r ''A'' = u" and "req_hget r ''B'' = v @ ''|B:'' @ x"
    and "req_hget r' ''A'' = u @ ''|B:'' @ v" and "req_hget r' ''B'' = x"
  shows "FingerprintConfig_KeyFunc c r' = FingerprintConfig_KeyFunc c r"
  using assms(2-) by (simp add: c_def FingerprintConfig_KeyFunc_def fingerprint_parts_def fingerprint_defs)

text \<open>Request and response carry the same fingerprint, computed before either is changed.\<close>

lemma fingerprint_on_both:
  assumes "response_writer W status"
  shows "\<exists>r1 w1. WithRequestFingerprint W cfg next r w s = next r1 w1 s \<and>
    req_hget r1 ''X-Request-Fingerprint'' = FingerprintConfig_KeyFunc cfg r \<and>
    hget (HeaderOf W w1) ''X-Request-Fingerprint'' = FingerprintConfig_KeyFunc cfg r"
  by (intro exI conjI, unfold WithRequestFingerprint_def Let_def, rule refl)
    (simp_all add: hdr_simps response_writer.header_rw_set [OF assms])

end
