(* ===== verification/RequestId.thy ===== *)
theory RequestId
  imports KeyFunc Sha256
begin

section \<open>Request IDs, correlation IDs and tags\<close>

text \<open>
  \<open>src/request_id.go\<close>, \<open>src/request_id_option.go\<close>, \<open>src/request_correlation.go\<close> and
  \<open>src/request_tagging.go\<close>. A generator reads what it needs (a random source, a counter) from the
  world \<open>'s\<close> and leaves it changed; \<open>rnd n\<close> is \<open>crypto/rand.Read\<close> on a buffer of \<open>n\<close> bytes.
\<close>

subsection \<open>Request ID\<close>

record 's RequestIDConfig =
  ri_header :: string
  ri_generator :: "'s \<Rightarrow> string \<times> 's"
  ri_overwrite :: bool

definition DefaultRequestIDHeader :: string where
  "DefaultRequestIDHeader = ''X-Request-ID''"

definition DefaultRequestIDLength :: nat where
  "DefaultRequestIDLength = 16"

definition WithRequestIDHeader :: "string \<Rightarrow> 's RequestIDConfig \<Rightarrow> 's RequestIDConfig" where
  "WithRequestIDHeader hdr c = c\<lparr>ri_header := hdr\<rparr>"

definition WithRequestIDGenerator :: "('s \<Rightarrow> string \<times> 's) \<Rightarrow> 's RequestIDConfig \<Rightarrow> 's RequestIDConfig" where
  "WithRequestIDGenerator gen c = c\<lparr>ri_generator := gen\<rparr>"

definition WithRequestIDOverwrite :: "bool \<Rightarrow> 's RequestIDConfig \<Rightarrow> 's RequestIDConfig" where
  "WithRequestIDOverwrite b c = c\<lparr>ri_overwrite := b\<rparr>"

definition defaultRequestIDGenerator :: "(nat \<Rightarrow> 's \<Rightarrow> string \<times> 's) \<Rightarrow> 's \<Rightarrow> string \<times> 's" where
  "defaultRequestIDGenerator rnd s = (let (b, s') = rnd DefaultRequestIDLength s in (hex b, s'))"

definition NewRequestIDConfig ::
  "(nat \<Rightarrow> 's \<Rightarrow> string \<times> 's) \<Rightarrow> ('s RequestIDConfig \<Rightarrow> 's RequestIDConfig) list \<Rightarrow> 's RequestIDConfig" where
  "NewRequestIDConfig rnd opts = fold (\<lambda>opt c. opt c) opts
     \<lparr>ri_header = DefaultRequestIDHeader, ri_generator = defaultRequestIDGenerator rnd, ri_overwrite = False\<rparr>"

definition RequestIDConfig_Header :: "'s RequestIDConfig \<Rightarrow> string" where
  "RequestIDConfig_Header c = ri_header c"

definition RequestIDConfig_Overwrite :: "'s RequestIDConfig \<Rightarrow> bool" where
  "RequestIDConfig_Overwrite c = ri_overwrite c"

text \<open>The configuration of \<open>WithRequestID\<close> is built by the same loop over the options.\<close>

definition WithRequestID ::
  "'w rwriter \<Rightarrow> (nat \<Rightarrow> 's \<Rightarrow> string \<times> 's) \<Rightarrow> ('s RequestIDConfig \<Rightarrow> 's RequestIDConfig) list \<Rightarrow>
   ('w, 's) handler \<Rightarrow> ('w, 's) handler" where
  "WithRequestID W rnd opts next r w s =
     (let cfg = NewRequestIDConfig rnd opts;
          rid = req_hget r (ri_header cfg);
          (rid, r, s) =
            (if rid = [] \<or> ri_overwrite cfg
             then let (rid, s) = ri_generator cfg s in (rid, req_hset (ri_header cfg) rid r, s)
             else (rid, r, s))
      in next r (rw_set W (ri_header cfg) rid w) s)"

subsection \<open>Correlation ID\<close>

record 's CorrelationConfig =
  co_IncomingHeader :: string
  co_OutgoingHeader :: string
  co_Generator :: "'s \<Rightarrow> string \<times> 's"
  co_Overwrite :: bool

definition WithCorrelationIncomingHeader :: "string \<Rightarrow> 's CorrelationConfig \<Rightarrow> 's CorrelationConfig" where
  "WithCorrelationIncomingHeader h c = c\<lparr>co_IncomingHeader := h\<rparr>"

definition WithCorrelationOutgoingHeader :: "string \<Rightarrow> 's CorrelationConfig \<Rightarrow> 's CorrelationConfig" where
  "WithCorrelationOutgoingHeader h c = c\<lparr>co_OutgoingHeader := h\<rparr>"

definition WithCorrelationGenerator ::
  "('s \<Rightarrow> string \<times> 's) \<Rightarrow> 's CorrelationConfig \<Rightarrow> 's CorrelationConfig" where
  "WithCorrelationGenerator fn c = c\<lparr>co_Generator := fn\<rparr>"

definition WithCorrelationOverwrite :: "'s CorrelationConfig \<Rightarrow> 's CorrelationConfig" where
  "WithCorrelationOverwrite c = c\<lparr>co_Overwrite := True\<rparr>"

definition NewCorrelationConfig ::
  "(nat \<Rightarrow> 's \<Rightarrow> string \<times> 's) \<Rightarrow> ('s CorrelationConfig \<Rightarrow> 's CorrelationConfig) list \<Rightarrow> 's CorrelationConfig" where
  "NewCorrelationConfig rnd opts =
     (let c = fold (\<lambda>opt c. opt c) opts
        \<lparr>co_IncomingHeader = ''X-Correlation-ID'', co_OutgoingHeader = ''X-Correlation-ID'',
         co_Generator = defaultRequestIDGenerator rnd, co_Overwrite = False\<rparr>
      in if co_OutgoingHeader c = [] then c\<lparr>co_OutgoingHeader := co_IncomingHeader c\<rparr> else c)"

text \<open>\<open>r.Clone\<close> copies the header, and shares the body with the request it was made from: that
  one keeps its header and sees the body as the handler left it.\<close>

definition WithRequestCorrelation ::
  "'w rwriter \<Rightarrow> (nat \<Rightarrow> 's \<Rightarrow> string \<times> 's) \<Rightarrow> 's CorrelationConfig option \<Rightarrow>
   ('w, 's) handler \<Rightarrow> ('w, 's) handler" where
  "WithRequestCorrelation W rnd cfg next r w s =
     (let cfg = (case cfg of None \<Rightarrow> NewCorrelationConfig rnd [] | Some c \<Rightarrow> c);
          cid = TrimSpace (req_hget r (co_IncomingHeader cfg))
      in if cid = [] \<or> co_Overwrite cfg
         then let (cid, s1) = co_Generator cfg s;
                  r1 = req_hset (co_IncomingHeader cfg) cid r;
                  (r2, w2, s2) = next r1 (rw_set W (co_OutgoingHeader cfg) cid w) s1
              in (r\<lparr>Body := Body r2\<rparr>, w2, s2)
         else next r (rw_set W (co_OutgoingHeader cfg) cid w) s)"

subsection \<open>Tags\<close>

record TagConfig =
  tc_keyFunc :: "req \<Rightarrow> string"
  tc_headerName :: string
  tc_prefix :: string

definition WithTagHeader :: "string \<Rightarrow> TagConfig \<Rightarrow> TagConfig" where
  "WithTagHeader name c = c\<lparr>tc_headerName := name\<rparr>"

definition WithTagPrefix :: "string \<Rightarrow> TagConfig \<Rightarrow> TagConfig" where
  "WithTagPrefix prefix c = c\<lparr>tc_prefix := prefix\<rparr>"

definition WithTagKeyFunc :: "(req \<Rightarrow> string) \<Rightarrow> TagConfig \<Rightarrow> TagConfig" where
  "WithTagKeyFunc fn c = c\<lparr>tc_keyFunc := fn\<rparr>"

definition defaultTagKeyFunc :: "req \<Rightarrow> string" where
  "defaultTagKeyFunc r = req_hget r ''X-Request-Tag''"

definition NewTagConfig :: "(TagConfig \<Rightarrow> TagConfig) list \<Rightarrow> TagConfig" where
  "NewTagConfig opts = fold (\<lambda>opt c. opt c) opts
     \<lparr>tc_keyFunc = defaultTagKeyFunc, tc_headerName = ''X-Tag'', tc_prefix = []\<rparr>"

definition tag_value :: "TagConfig \<Rightarrow> string \<Rightarrow> string" where
  "tag_value cfg tag =
     (if tc_prefix cfg \<noteq> [] then TrimRight (tc_prefix cfg) (CHR ''-'') @ ''-'' @ tag else tag)"

definition WithRequestTagging :: "'w rwriter \<Rightarrow> TagConfig \<Rightarrow> ('w, 's) handler \<Rightarrow> ('w, 's) handler" where
  "WithRequestTagging W cfg next r w s =
     (let tag = tc_keyFunc cfg r
      in next r (if tag \<noteq> [] then rw_set W (tc_headerName cfg) (tag_value cfg tag) w else w) s)"

subsection \<open>Lemmas\<close>

lemma default_id_length:
  "length (fst (rnd 16 s)) = 16 \<Longrightarrow> length (fst (defaultRequestIDGenerator rnd s)) = 32"
  by (simp add: defaultRequestIDGenerator_def DefaultRequestIDLength_def case_prod_beta Let_def)

text \<open>The next handler gets the ID in the request and in the response header, the same in both.\<close>

lemma request_id_on_both:
  assumes "response_writer W status"
  shows "\<exists>r1 w1 s1. WithRequestID W rnd opts next r w s = next r1 w1 s1 \<and>
    (let h = ri_header (NewRequestIDConfig rnd opts) in
      hget (HeaderOf W w1) h = req_hget r1 h \<and>
      (req_hget r h \<noteq> [] \<longrightarrow> \<not> ri_overwrite (NewRequestIDConfig rnd opts) \<longrightarrow> r1 = r \<and> s1 = s))"
proof -
  let ?c = "NewRequestIDConfig rnd opts"
  let ?h = "ri_header ?c"
  obtain g s1 where g: "ri_generator ?c s = (g, s1)" by force
  show ?thesis
  proof (cases "req_hget r ?h = [] \<or> ri_overwrite ?c")
    case True
    with g have eq: "WithRequestID W rnd opts next r w s = next (req_hset ?h g r) (rw_set W ?h g w) s1"
      by (simp add: WithRequestID_def Let_def)
    show ?thesis
      by (intro exI conjI, rule eq) (use True in \<open>auto simp: hdr_simps response_writer.header_rw_set [OF assms] Let_def\<close>)
  next
    case False
    then have eq: "WithRequestID W rnd opts next r w s = next r (rw_set W ?h (req_hget r ?h) w) s"
      by (simp add: WithRequestID_def Let_def)
    show ?thesis
      by (intro exI conjI, rule eq) (simp add: hdr_simps response_writer.header_rw_set [OF assms])
  qed
qed

text \<open>Correlation leaves the caller's header alone, unlike \<open>WithRequestID\<close>, and echoes an incoming
  ID without the spaces around it.\<close>

lemma correlation_keeps_caller_header:
  assumes "\<And>r w s. ReqHeader (fst (next r w s)) = ReqHeader r"
  shows "ReqHeader (fst (WithRequestCorrelation W rnd cfg next r w s)) = ReqHeader r"
  using assms by (simp add: WithRequestCorrelation_def Let_def case_prod_beta)

lemma correlation_outgoing_nonempty:
  "c = NewCorrelationConfig rnd opts \<Longrightarrow> co_IncomingHeader c \<noteq> [] \<Longrightarrow> co_OutgoingHeader c \<noteq> []"
  by (auto simp: NewCorrelationConfig_def Let_def)

text \<open>Dashes at the end of the prefix are not doubled; a prefix of dashes alone still gives one.\<close>

lemma tag_value_dashes:
  "tc_prefix cfg = p @ replicate n (CHR ''-'') \<Longrightarrow> p \<noteq> [] \<Longrightarrow> last p \<noteq> CHR ''-'' \<Longrightarrow>
   tag_value cfg tag = p @ ''-'' @ tag"
proof -
  assume p: "tc_prefix cfg = p @ replicate n (CHR ''-'')" "p \<noteq> []" "last p \<noteq> CHR ''-''"
  have "dropWhile (\<lambda>x. x = CHR ''-'') (replicate n (CHR ''-'') @ rev p) = rev p"
    using p(2,3) by (induction n) (simp_all add: hd_rev dropWhile_eq_self_iff)
  with p show ?thesis by (simp add: tag_value_def TrimRight_def)
qed

subsection \<open>Properties\<close>

lemma AList_update_twice: "AList.update k v (AList.update k v xs) = AList.update k v xs"
  by (induction xs) auto

lemma conn_rw_set_twice: "rw_set conn_rw k v (rw_set conn_rw k v c) = rw_set conn_rw k v c"
  by (simp add: rw_set_def rw_simps hset_def AList_update_twice)

text \<open>The middleware can be installed twice: on the server's writer, with a generator that
  never gives the empty string and without overwriting, the inner instance finds the ID of the
  outer one and the two behave as one.\<close>

theorem request_id_idempotent:
  assumes "\<And>s. fst (ri_generator (NewRequestIDConfig rnd opts) s) \<noteq> []"
    and "\<not> ri_overwrite (NewRequestIDConfig rnd opts)"
  shows "WithRequestID conn_rw rnd opts (WithRequestID conn_rw rnd opts next) = WithRequestID conn_rw rnd opts next"
proof (intro ext)
  fix r c s
  let ?c = "NewRequestIDConfig rnd opts"
  obtain g s1 where g: "ri_generator ?c s = (g, s1)" by force
  with assms(1) [of s] have "g \<noteq> []" by simp
  with g assms(2) show "WithRequestID conn_rw rnd opts (WithRequestID conn_rw rnd opts next) r c s =
      WithRequestID conn_rw rnd opts next r c s"
    by (cases "req_hget r (ri_header ?c) = []")
      (simp_all add: WithRequestID_def Let_def hdr_simps conn_rw_set_twice)
qed

theorem request_id_idempotent_witness:
  "WithRequestID conn_rw (\<lambda>n s. ([], s)) [WithRequestIDGenerator (\<lambda>s. (''id'', s))]
     (WithRequestID conn_rw (\<lambda>n s. ([], s)) [WithRequestIDGenerator (\<lambda>s. (''id'', s))] (writes conn_rw [SendBody ''ok''])) =
   (WithRequestID conn_rw (\<lambda>n s. ([], s)) [WithRequestIDGenerator (\<lambda>s. (''id'', s))]
     (writes conn_rw [SendBody ''ok'']) :: (conn, unit) handler)"
  by (rule request_id_idempotent) (simp_all add: NewRequestIDConfig_def WithRequestIDGenerator_def)

end
