(* ===== verification/Tracing.thy ===== *)
theory Tracing
  imports KeyFunc Sha256
begin

section \<open>Tracing and enrichment\<close>

text \<open>
  \<open>src/request_tracing.go\<close>, \<open>src/request_tracing_middleware.go\<close>, \<open>src/request_tracing_option.go\<close>
  and \<open>src/request_enrichment.go\<close>: the two middlewares that put times into headers. The clock is
  read from the world before and after the next handler has run; \<open>clk s\<close> is \<open>time.Now()\<close>.
\<close>

subsection \<open>Tracing\<close>

record 's TracingConfig =
  tr_traceIDHeader :: string
  tr_spanIDHeader :: string
  tr_latencyHeader :: string
  tr_generator :: "'s \<Rightarrow> string \<times> 's"
  tr_onTrace :: "(req \<Rightarrow> string \<Rightarrow> string \<Rightarrow> duration \<Rightarrow> 's \<Rightarrow> 's) option"

definition WithTracingTraceIDHeader :: "string \<Rightarrow> 's TracingConfig \<Rightarrow> 's TracingConfig" where
  "WithTracingTraceIDHeader h c = c\<lparr>tr_traceIDHeader := h\<rparr>"

definition WithTracingSpanIDHeader :: "string \<Rightarrow> 's TracingConfig \<Rightarrow> 's TracingConfig" where
  "WithTracingSpanIDHeader h c = c\<lparr>tr_spanIDHeader := h\<rparr>"

definition WithTracingLatencyHeader :: "string \<Rightarrow> 's TracingConfig \<Rightarrow> 's TracingConfig" where
  "WithTracingLatencyHeader h c = c\<lparr>tr_latencyHeader := h\<rparr>"

definition WithTracingGenerator :: "('s \<Rightarrow> string \<times> 's) \<Rightarrow> 's TracingConfig \<Rightarrow> 's TracingConfig" where
  "WithTracingGenerator g c = c\<lparr>tr_generator := g\<rparr>"

definition WithTracingOnTrace ::
  "(req \<Rightarrow> string \<Rightarrow> string \<Rightarrow> duration \<Rightarrow> 's \<Rightarrow> 's) option \<Rightarrow> 's TracingConfig \<Rightarrow> 's TracingConfig" where
  "WithTracingOnTrace fn c = c\<lparr>tr_onTrace := fn\<rparr>"

text \<open>\<open>%016x\<close> of a non-negative number: sixteen digits at least. \<open>int63\<close> is \<open>rand.Int63\<close>.\<close>

fun hex_pad :: "nat \<Rightarrow> int \<Rightarrow> string" where
  "hex_pad 0 n = []"
| "hex_pad (Suc k) n = hex_pad k (n div 16) @ [hex_digit (nat (n mod 16))]"

definition defaultTracingIDGenerator :: "('s \<Rightarrow> int \<times> 's) \<Rightarrow> 's \<Rightarrow> string \<times> 's" where
  "defaultTracingIDGenerator int63 s = (let (n, s') = int63 s in (hex_pad 16 n, s'))"

definition NewTracingConfig ::
  "('s \<Rightarrow> int \<times> 's) \<Rightarrow> ('s TracingConfig \<Rightarrow> 's TracingConfig) list \<Rightarrow> 's TracingConfig" where
  "NewTracingConfig int63 opts = fold (\<lambda>opt c. opt c) opts
     \<lparr>tr_traceIDHeader = ''X-Trace-ID'', tr_spanIDHeader = ''X-Span-ID'',
      tr_latencyHeader = ''X-Trace-Latency-Ms'', tr_generator = defaultTracingIDGenerator int63,
      tr_onTrace = None\<rparr>"

definition WithRequestTracing ::
  "'w rwriter \<Rightarrow> ('s \<Rightarrow> gotime) \<Rightarrow> ('s \<Rightarrow> int \<times> 's) \<Rightarrow> 's TracingConfig option \<Rightarrow>
   ('w, 's) handler \<Rightarrow> ('w, 's) handler" where
  "WithRequestTracing W clk int63 cfg next r w s =
     (let cfg = (case cfg of None \<Rightarrow> NewTracingConfig int63 [] | Some c \<Rightarrow> c);
          start = clk s;
          traceID = req_hget r (tr_traceIDHeader cfg);
          (traceID, s) = (if traceID = [] then tr_generator cfg s else (traceID, s));
          (spanID, s) = tr_generator cfg s;
          r = req_hset (tr_traceIDHeader cfg) traceID r;
          r = req_hset (tr_spanIDHeader cfg) spanID r;
          w = rw_set W (tr_traceIDHeader cfg) traceID w;
          w = rw_set W (tr_spanIDHeader cfg) spanID w;
          (r, w, s) = next r w s;
          latency = Time_Sub (clk s) start;
          w = rw_set W (tr_latencyHeader cfg) (Itoa (Duration_Milliseconds latency)) w
      in (r, w, case tr_onTrace cfg of None \<Rightarrow> s | Some f \<Rightarrow> f r traceID spanID latency s))"

definition DefaultTracingConfig :: "('s \<Rightarrow> int \<times> 's) \<Rightarrow> 's TracingConfig" where
  "DefaultTracingConfig int63 = NewTracingConfig int63 []"

definition TracingWithB3Headers :: "('s \<Rightarrow> int \<times> 's) \<Rightarrow> 's TracingConfig" where
  "TracingWithB3Headers int63 = NewTracingConfig int63
     [WithTracingTraceIDHeader ''X-B3-TraceId'', WithTracingSpanIDHeader ''X-B3-SpanId'',
      WithTracingLatencyHeader ''X-B3-Latency-Ms'']"

definition TracingWithW3CHeaders :: "('s \<Rightarrow> int \<times> 's) \<Rightarrow> 's TracingConfig" where
  "TracingWithW3CHeaders int63 = NewTracingConfig int63
     [WithTracingTraceIDHeader ''Traceparent'', WithTracingSpanIDHeader ''Tracestate'',
      WithTracingLatencyHeader ''X-Trace-Latency-Ms'']"

lemma length_hex_pad: "length (hex_pad k n) = k"
  by (induction k arbitrary: n) simp_all

lemma tracing_id_length: "length (fst (defaultTracingIDGenerator int63 s)) = 16"
  by (simp add: defaultTracingIDGenerator_def case_prod_beta length_hex_pad Let_def)

text \<open>What next sees, and what becomes of the response, for the presets' distinct headers.\<close>

lemma tracing_runs_next:
  assumes "req_hget r (tr_traceIDHeader cfg) = t" and "t \<noteq> []" and "tr_generator cfg s = (sp, s1)"
    and "next (req_hset (tr_spanIDHeader cfg) sp (req_hset (tr_traceIDHeader cfg) t r))
      (rw_set W (tr_spanIDHeader cfg) sp (rw_set W (tr_traceIDHeader cfg) t w)) s1 = (r2, w2, s2)"
  shows "WithRequestTracing W clk int63 (Some cfg) next r w s =
    (r2, rw_set W (tr_latencyHeader cfg) (Itoa (Duration_Milliseconds (Time_Sub (clk s2) (clk s)))) w2,
     case tr_onTrace cfg of None \<Rightarrow> s2 | Some f \<Rightarrow> f r2 t sp (Time_Sub (clk s2) (clk s)) s2)"
  using assms by (simp add: WithRequestTracing_def Let_def)

lemma conn_rw_set_sent: "cSent (rw_set conn_rw k v c) = cSent c"
  "cBody (rw_set conn_rw k v c) = cBody c"
  by (simp_all add: rw_set_def rw_simps)

text \<open>Once next has sent a status line, the header of the latency is too late: what the client
  receives does not depend on it, and in particular it is not there unless next put it there. The
  comment of the header option says response header.\<close>

theorem tracing_latency_never_sent:
  assumes "req_hget r (tr_traceIDHeader cfg) \<noteq> []" and "tr_generator cfg s = (sp, s1)"
    and "next = writes conn_rw (SendHeader code # ops)" and "200 \<le> code" and "code \<le> 999"
    and "cSent c = None" and "cHeader c = []" and "canon (tr_latencyHeader cfg) \<noteq> canon (tr_traceIDHeader cfg)"
    and "canon (tr_latencyHeader cfg) \<noteq> canon (tr_spanIDHeader cfg)"
    and "list_all good_wop ops"
  shows "let (r', c', s') = WithRequestTracing conn_rw clk int63 (Some cfg) next r c s
    in resp_code c' = code \<and> hget (resp_header c') (tr_latencyHeader cfg) = [] \<and>
       hget (cHeader c') (tr_latencyHeader cfg) \<noteq> [] \<and>
       hget (resp_header c') (tr_spanIDHeader cfg) = sp"
proof -
  let ?t = "req_hget r (tr_traceIDHeader cfg)"
  let ?c1 = "rw_set conn_rw (tr_spanIDHeader cfg) sp (rw_set conn_rw (tr_traceIDHeader cfg) ?t c)"
  have kept: "cSent (do_wops conn_rw ops d) = cSent d" if "cSent d = Some (code, h)" for d h
    using that
  proof (induction ops arbitrary: d)
    case (Cons op ops)
    have "cSent (do_wop conn_rw op d) = cSent d"
      using Cons.prems \<open>200 \<le> code\<close> \<open>code \<le> 999\<close>
      by (cases op) (simp_all add: rw_simps conn_rw_set_sent)
    with Cons show ?case by simp
  qed simp
  obtain r2 w2 s2 where nxt: "next (req_hset (tr_spanIDHeader cfg) sp (req_hset (tr_traceIDHeader cfg) ?t r)) ?c1 s1 = (r2, w2, s2)"
    by (metis surj_pair)
  have sent: "cSent w2 = Some (code, cHeader ?c1)"
    using nxt assms(3-6) kept [of "conn_WriteHeader code ?c1" "cHeader ?c1"]
    by (auto simp: writes_def rw_simps conn_rw_set_sent)
  have hdr: "cHeader ?c1 = hset (tr_spanIDHeader cfg) sp (hset (tr_traceIDHeader cfg) ?t [])"
    using assms(7) by (simp add: rw_set_def rw_simps)
  have run: "WithRequestTracing conn_rw clk int63 (Some cfg) next r c s =
    (r2, rw_set conn_rw (tr_latencyHeader cfg) (Itoa (Duration_Milliseconds (Time_Sub (clk s2) (clk s)))) w2,
     case tr_onTrace cfg of None \<Rightarrow> s2 | Some f \<Rightarrow> f r2 ?t sp (Time_Sub (clk s2) (clk s)) s2)"
    by (rule tracing_runs_next [OF refl assms(1,2)]) (rule nxt)
  show ?thesis
    using sent assms(8,9)
    by (simp add: run resp_code_def resp_header_def conn_rw_set_sent hdr hdr_simps)
      (simp add: rw_set_def rw_simps hdr_simps)
qed

theorem tracing_latency_never_sent_witness:
  "let r = sample_req ''1.2.3.4:5'' ''/'' [(''X-Trace-Id'', [''t''])];
      cfg = NewTracingConfig (\<lambda>s. (7, s)) [];
      (r', c', s') = WithRequestTracing conn_rw (\<lambda>s. 0) (\<lambda>s. (7, s)) (Some cfg)
        (writes conn_rw (SendHeader 200 # [])) r new_conn ()
    in resp_code c' = 200 \<and> hget (resp_header c') (tr_latencyHeader cfg) = [] \<and>
       hget (cHeader c') (tr_latencyHeader cfg) \<noteq> [] \<and>
       hget (resp_header c') (tr_spanIDHeader cfg) = hex_pad 16 7"
proof -
  let ?r = "sample_req ''1.2.3.4:5'' ''/'' [(''X-Trace-Id'', [''t''])]"
  let ?cfg = "NewTracingConfig (\<lambda>s :: unit. (7, s)) []"
  have "req_hget ?r (tr_traceIDHeader ?cfg) \<noteq> []" by code_simp
  moreover have "tr_generator ?cfg () = (hex_pad 16 7, ())"
    by (simp add: NewTracingConfig_def defaultTracingIDGenerator_def)
  moreover have "canon (tr_latencyHeader ?cfg) \<noteq> canon (tr_traceIDHeader ?cfg)"
    "canon (tr_latencyHeader ?cfg) \<noteq> canon (tr_spanIDHeader ?cfg)" by code_simp+
  ultimately show ?thesis
    unfolding Let_def
    using tracing_latency_never_sent [of ?r ?cfg "()" "hex_pad 16 7" "()" "writes conn_rw (SendHeader 200 # [])" 200 "[]" new_conn "\<lambda>s. 0" "\<lambda>s. (7, s)"]
    by (simp add: new_conn_def Let_def)
qed

end
