(* ===== verification/Enrichment.thy ===== *)
theory Enrichment
  imports KeyFunc
begin

section \<open>Request enrichment\<close>

text \<open>
  \<open>src/request_enrichment.go\<close>: the wrapping writer that adds headers when the status line is
  written, and the middleware. The writer reads the clock once, at the first \<open>WriteHeader\<close>; its
  field \<open>ew_now\<close> is what that reading gives. \<open>RFC3339Nano\<close> is the layout of the time package,
  with the civil date of the proleptic Gregorian calendar.
\<close>

subsection \<open>RFC 3339\<close>

text \<open>Year, month and day of a number of days since January 1, year 1; the year of the
  computation starts in March.\<close>

definition civil_date :: "int \<Rightarrow> int \<times> int \<times> int" where
  "civil_date days =
     (let z = days + 306; era = z div 146097; doe = z mod 146097;
          yoe = (doe - doe div 1460 + doe div 36524 - doe div 146096) div 365;
          doy = doe - (365 * yoe + yoe div 4 - yoe div 100);
          mp = (5 * doy + 2) div 153;
          d = doy - (153 * mp + 2) div 5 + 1;
          m = (if mp < 10 then mp + 3 else mp - 9);
          y = yoe + era * 400 + (if m \<le> 2 then 1 else 0)
      in (y, m, d))"

fun dec_pad :: "nat \<Rightarrow> int \<Rightarrow> string" where
  "dec_pad 0 n = []"
| "dec_pad (Suc k) n = dec_pad k (n div 10) @ [digit_char (nat (n mod 10))]"

text \<open>The fraction of the second without trailing zeros, with its point unless it is empty.\<close>

definition nano_fraction :: "int \<Rightarrow> string" where
  "nano_fraction ns = (let f = TrimRight (dec_pad 9 ns) (CHR ''0'') in if f = [] then [] else ''.'' @ f)"

definition RFC3339Nano :: "gotime \<Rightarrow> string" where
  "RFC3339Nano t =
     (let secs = t div second; ns = t mod second; days = secs div 86400; sod = secs mod 86400;
          (y, m, d) = civil_date days
      in dec_pad 4 y @ ''-'' @ dec_pad 2 m @ ''-'' @ dec_pad 2 d @ ''T'' @ dec_pad 2 (sod div 3600) @ '':'' @
         dec_pad 2 (sod mod 3600 div 60) @ '':'' @ dec_pad 2 (sod mod 60) @ nano_fraction ns @ ''Z'')"

lemma RFC3339Nano_epoch: "RFC3339Nano unix_epoch = ''1970-01-01T00:00:00Z''"
  by code_simp

lemma RFC3339Nano_leap_day:
  "RFC3339Nano (unix_epoch + 951782400 * second + 120000000) = ''2000-02-29T00:00:00.12Z''"
  by code_simp

subsection \<open>The writer\<close>

record EnrichmentConfig =
  ec_RequestTimeHeader :: string
  ec_LatencyHeader :: string
  ec_ServerHeader :: string
  ec_ServerHeaderName :: string

definition DefaultEnrichmentConfig :: EnrichmentConfig where
  "DefaultEnrichmentConfig =
     \<lparr>ec_RequestTimeHeader = ''X-Request-Time'', ec_LatencyHeader = ''X-Response-Latency-Ms'',
      ec_ServerHeader = [], ec_ServerHeaderName = ''X-Served-By''\<rparr>"

record 'w enrichmentResponseWriter =
  ew_inner :: 'w
  ew_latencyHeader :: string
  ew_start :: gotime
  ew_serverHeader :: string
  ew_serverName :: string
  ew_wroteHeader :: bool
  ew_now :: gotime

text \<open>The headers the writer sets before the status line.\<close>

definition enrich_headers :: "'w rwriter \<Rightarrow> 'w enrichmentResponseWriter \<Rightarrow> 'w \<Rightarrow> 'w" where
  "enrich_headers W ew w =
     (let latency = Duration_Milliseconds (Time_Sub (ew_now ew) (ew_start ew));
          w1 = rw_set W (ew_latencyHeader ew) (itoa latency) w
      in if ew_serverName ew \<noteq> [] then rw_set W (ew_serverHeader ew) (ew_serverName ew) w1 else w1)"

definition enrichment_WriteHeader ::
  "'w rwriter \<Rightarrow> int \<Rightarrow> 'w enrichmentResponseWriter \<Rightarrow> 'w enrichmentResponseWriter" where
  "enrichment_WriteHeader W code ew =
     (let ew1 = (if \<not> ew_wroteHeader ew
                 then ew\<lparr>ew_wroteHeader := True, ew_inner := enrich_headers W ew (ew_inner ew)\<rparr> else ew)
      in ew1\<lparr>ew_inner := WriteHeader W code (ew_inner ew1)\<rparr>)"

definition enrichment_Write ::
  "'w rwriter \<Rightarrow> string \<Rightarrow> 'w enrichmentResponseWriter \<Rightarrow> 'w enrichmentResponseWriter" where
  "enrichment_Write W b ew =
     (let ew1 = (if \<not> ew_wroteHeader ew then enrichment_WriteHeader W StatusOK ew else ew)
      in ew1\<lparr>ew_inner := Write W b (ew_inner ew1)\<rparr>)"

definition enrichment_rw :: "'w rwriter \<Rightarrow> 'w enrichmentResponseWriter rwriter" where
  "enrichment_rw W = (embed_rw W ew_inner ew_inner_update)
     \<lparr>WriteHeader := enrichment_WriteHeader W, Write := enrichment_Write W\<rparr>"

definition WithRequestEnrichment ::
  "'w rwriter \<Rightarrow> ('s \<Rightarrow> gotime) \<Rightarrow> ('s \<Rightarrow> gotime) \<Rightarrow> EnrichmentConfig option \<Rightarrow>
   ('w enrichmentResponseWriter, 's) handler \<Rightarrow> ('w, 's) handler" where
  "WithRequestEnrichment W clk clk2 cfg next r w s =
     (let cfg = (case cfg of None \<Rightarrow> DefaultEnrichmentConfig | Some c \<Rightarrow> c);
          now = clk s;
          r = (if ec_RequestTimeHeader cfg \<noteq> [] then req_hset (ec_RequestTimeHeader cfg) (RFC3339Nano now) r else r);
          erw = \<lparr>ew_inner = w, ew_latencyHeader = ec_LatencyHeader cfg, ew_start = now,
                 ew_serverHeader = ec_ServerHeaderName cfg, ew_serverName = ec_ServerHeader cfg,
                 ew_wroteHeader = False, ew_now = clk2 s\<rparr>;
          (r, erw, s) = next r erw s;
          erw = (if \<not> ew_wroteHeader erw then enrichment_WriteHeader W StatusOK erw else erw)
      in (r, ew_inner erw, s))"

lemma enrichment_rw_sel [rw_simps]:
  "HeaderOf (enrichment_rw W) a = HeaderOf W (ew_inner a)"
  "PutHeader (enrichment_rw W) h = ew_inner_update (PutHeader W h)"
  "WriteHeader (enrichment_rw W) = enrichment_WriteHeader W"
  "Write (enrichment_rw W) = enrichment_Write W"
  by (simp_all add: enrichment_rw_def embed_rw_def)

subsection \<open>What the wrapper does to a response\<close>

lemma enrichment_inner:
  "ew_inner (enrichment_WriteHeader W c ew) =
     WriteHeader W c (if ew_wroteHeader ew then ew_inner ew else enrich_headers W ew (ew_inner ew))"
  "ew_inner (enrichment_Write W b ew) =
     Write W b (if ew_wroteHeader ew then ew_inner ew
                else WriteHeader W StatusOK (enrich_headers W ew (ew_inner ew)))"
  by (simp_all add: enrichment_WriteHeader_def enrichment_Write_def Let_def)

lemma enrichment_wrote [simp]:
  "ew_wroteHeader (enrichment_WriteHeader W c ew)" "ew_wroteHeader (enrichment_Write W b ew)"
  by (simp_all add: enrichment_WriteHeader_def enrichment_Write_def Let_def)

lemma enrich_headers_kept [simp]:
  "enrich_headers W (enrichment_WriteHeader V c ew) = enrich_headers W ew"
  "enrich_headers W (enrichment_Write V b ew) = enrich_headers W ew"
  "enrich_headers W (ew_inner_update f ew) = enrich_headers W ew"
  by (simp_all add: enrichment_WriteHeader_def enrichment_Write_def enrich_headers_def fun_eq_iff Let_def)

context response_writer
begin

lemma status_enrich_headers: "status (enrich_headers W ew w) = status w"
  by (simp add: enrich_headers_def Let_def status_rw_set)

lemma enrichment_writer: "response_writer (enrichment_rw W) (\<lambda>ew. status (ew_inner ew))"
proof
  fix ew :: "'w enrichmentResponseWriter" and b
  show "status (ew_inner (Write (enrichment_rw W) b ew)) =
      (case status (ew_inner ew) of None \<Rightarrow> Some 200 | Some d \<Rightarrow> Some d)"
    by (cases "status (ew_inner ew)")
      (simp_all add: rw_simps enrichment_inner status_enrich_headers status_kept status_first status_write)
qed (simp_all add: rw_simps enrichment_inner status_enrich_headers status_kept status_first header_put status_put)

end

interpretation enrichment_conn: response_writer "enrichment_rw conn_rw" "\<lambda>ew. conn_status (ew_inner ew)"
  by (rule server_rw.enrichment_writer)

text \<open>Over the server's writer: nothing is sent before the wrapper has added its headers, and what
  is sent has them.\<close>

definition enriched :: "header \<Rightarrow> 'w enrichmentResponseWriter \<Rightarrow> bool" where
  "enriched h ew \<longleftrightarrow>
     hget h (ew_latencyHeader ew) = itoa (Duration_Milliseconds (Time_Sub (ew_now ew) (ew_start ew))) \<and>
     (ew_serverName ew \<noteq> [] \<longrightarrow> hget h (ew_serverHeader ew) = ew_serverName ew)"

definition enrich_ok :: "conn enrichmentResponseWriter \<Rightarrow> bool" where
  "enrich_ok ew \<longleftrightarrow> (if ew_wroteHeader ew then (\<exists>code h. cSent (ew_inner ew) = Some (code, h) \<and> enriched h ew)
     else cSent (ew_inner ew) = None) \<and> canon (ew_latencyHeader ew) \<noteq> canon (ew_serverHeader ew)"

lemma enriched_headers:
  "canon (ew_latencyHeader ew) \<noteq> canon (ew_serverHeader ew) \<Longrightarrow>
   enriched (cHeader (enrich_headers conn_rw ew c)) ew \<and> cSent (enrich_headers conn_rw ew c) = cSent c"
  by (simp add: enriched_def enrich_headers_def Let_def rw_set_def rw_simps hdr_simps)

lemma enriched_fields [simp]:
  "enriched h (enrichment_WriteHeader W code ew) = enriched h ew"
  "enriched h (enrichment_Write W b ew) = enriched h ew"
  "enriched h (ew_inner_update f ew) = enriched h ew"
  by (simp_all add: enriched_def enrichment_WriteHeader_def enrichment_Write_def Let_def)

lemma enrich_canon_fields [simp]:
  "ew_latencyHeader (enrichment_WriteHeader W code ew) = ew_latencyHeader ew"
  "ew_serverHeader (enrichment_WriteHeader W code ew) = ew_serverHeader ew"
  "ew_latencyHeader (enrichment_Write W b ew) = ew_latencyHeader ew"
  "ew_serverHeader (enrichment_Write W b ew) = ew_serverHeader ew"
  by (simp_all add: enrichment_WriteHeader_def enrichment_Write_def Let_def)

lemma enrich_ok_WriteHeader:
  assumes "enrich_ok ew" and "200 \<le> code"
  shows "enrich_ok (enrichment_WriteHeader conn_rw code ew)"
  using assms enriched_headers [of ew "ew_inner ew"]
  by (auto simp: enrich_ok_def enrichment_inner rw_simps conn_WriteHeader_def split: if_splits)

lemma conn_Write_keeps: "cSent c \<noteq> None \<Longrightarrow> cSent (conn_Write b c) = cSent c"
  by (auto simp: conn_Write_def conn_WriteHeader_def Let_def)

lemma enrich_ok_wop:
  assumes "enrich_ok ew" and "good_wop op"
  shows "enrich_ok (do_wop (enrichment_rw conn_rw) op ew)"
proof (cases op)
  case (SetHeader k v)
  with assms show ?thesis by (simp add: enrich_ok_def rw_set_def rw_simps)
next
  case (SendHeader code)
  with assms show ?thesis by (simp add: rw_simps enrich_ok_WriteHeader)
next
  case (SendBody b)
  have "enrich_ok (if ew_wroteHeader ew then ew else enrichment_WriteHeader conn_rw StatusOK ew)"
    using assms(1) by (simp add: enrich_ok_WriteHeader)
  then obtain ew1 where ew1: "enrich_ok ew1" "ew_wroteHeader ew1"
    "enrichment_Write conn_rw b ew = ew1\<lparr>ew_inner := conn_Write b (ew_inner ew1)\<rparr>"
    by (cases "ew_wroteHeader ew") (auto simp: enrichment_Write_def rw_simps Let_def)
  then show ?thesis using SendBody conn_Write_keeps [of "ew_inner ew1" b]
    by (auto simp: enrich_ok_def rw_simps enriched_def)
qed

lemma enrich_ok_wops: "list_all good_wop ops \<Longrightarrow> enrich_ok ew \<Longrightarrow>
   enrich_ok (do_wops (enrichment_rw conn_rw) ops ew)"
  by (induction ops arbitrary: ew) (simp_all add: enrich_ok_wop)

lemma enrich_fields_wop:
  "ew_latencyHeader (do_wop (enrichment_rw conn_rw) op ew) = ew_latencyHeader ew \<and>
   ew_serverHeader (do_wop (enrichment_rw conn_rw) op ew) = ew_serverHeader ew \<and>
   ew_serverName (do_wop (enrichment_rw conn_rw) op ew) = ew_serverName ew \<and>
   ew_start (do_wop (enrichment_rw conn_rw) op ew) = ew_start ew \<and>
   ew_now (do_wop (enrichment_rw conn_rw) op ew) = ew_now ew"
  by (cases op) (simp_all add: rw_set_def rw_simps enrichment_WriteHeader_def enrichment_Write_def Let_def)

lemma enriched_wops:
  "enriched h (do_wops (enrichment_rw conn_rw) ops ew) = enriched h ew"
  by (induction ops arbitrary: ew) (simp_all add: enriched_def enrich_fields_wop)

subsection \<open>Properties\<close>

text \<open>Whatever calls a handler makes, none included, the response the client receives has the
  latency header, with the milliseconds from the start to the moment the status line was
  written, and the server header when one is configured; and the status is the handler's.\<close>

theorem enrichment_stamps_response:
  assumes "list_all good_wop ops" and "cSent c = None"
    and "canon (ec_LatencyHeader cfg) \<noteq> canon (ec_ServerHeaderName cfg)"
  shows "let (r', c', s') = WithRequestEnrichment conn_rw clk clk2 (Some cfg) (writes (enrichment_rw conn_rw) ops) r c s
    in hget (resp_header c') (ec_LatencyHeader cfg) = itoa (Duration_Milliseconds (Time_Sub (clk2 s) (clk s))) \<and>
       (ec_ServerHeader cfg \<noteq> [] \<longrightarrow> hget (resp_header c') (ec_ServerHeaderName cfg) = ec_ServerHeader cfg) \<and>
       conn_status c' = Some (case fold (\<lambda>op st. wop_status st op) ops None of None \<Rightarrow> 200 | Some code \<Rightarrow> code)"
proof -
  let ?e = "\<lparr>ew_inner = c, ew_latencyHeader = ec_LatencyHeader cfg, ew_start = clk s,
    ew_serverHeader = ec_ServerHeaderName cfg, ew_serverName = ec_ServerHeader cfg,
    ew_wroteHeader = False, ew_now = clk2 s\<rparr>"
  let ?d = "do_wops (enrichment_rw conn_rw) ops ?e"
  let ?f = "if ew_wroteHeader ?d then ?d else enrichment_WriteHeader conn_rw StatusOK ?d"
  have "enrich_ok ?e" using assms(2,3) by (simp add: enrich_ok_def)
  then have ok: "enrich_ok ?d" by (rule enrich_ok_wops [OF assms(1)])
  then have "enrich_ok ?f" by (simp add: enrich_ok_WriteHeader)
  moreover have "ew_wroteHeader ?f" by simp
  ultimately obtain code h where f: "cSent (ew_inner ?f) = Some (code, h)" "enriched h ?f"
    unfolding enrich_ok_def by (auto simp del: enrichment_wrote split del: if_split)
  have "enriched h ?d" using f(2) by (cases "ew_wroteHeader ?d") simp_all
  then have h: "enriched h ?e" by (simp add: enriched_wops)
  have st: "conn_status (ew_inner ?d) = fold (\<lambda>op st. wop_status st op) ops None"
    using enrichment_conn.status_wops [OF assms(1), of ?e] assms(2) by (simp add: conn_status_def)
  have "conn_status (ew_inner ?f) = Some (case conn_status (ew_inner ?d) of None \<Rightarrow> 200 | Some code \<Rightarrow> code)"
    using ok enrichment_conn.status_first [of ?d 200]
    by (cases "ew_wroteHeader ?d") (auto simp: enrich_ok_def conn_status_def rw_simps)
  moreover have "WithRequestEnrichment conn_rw clk clk2 (Some cfg) (writes (enrichment_rw conn_rw) ops) r c s =
      (if ec_RequestTimeHeader cfg \<noteq> [] then req_hset (ec_RequestTimeHeader cfg) (RFC3339Nano (clk s)) r else r, ew_inner ?f, s)"
    by (simp add: WithRequestEnrichment_def writes_def Let_def)
  ultimately show ?thesis
    using h f(1) st by (simp add: resp_header_def enriched_def)
qed

theorem enrichment_stamps_response_witness:
  "let (r', c', s') = WithRequestEnrichment conn_rw (\<lambda>s. 0) (\<lambda>s. 3000000) (Some DefaultEnrichmentConfig)
      (writes (enrichment_rw conn_rw) [SendBody ''x'']) (sample_req ''1.2.3.4:5'' ''/'' []) new_conn ()
    in hget (resp_header c') ''X-Response-Latency-Ms'' = itoa 3 \<and> conn_status c' = Some 200"
proof -
  have "canon (ec_LatencyHeader DefaultEnrichmentConfig) \<noteq> canon (ec_ServerHeaderName DefaultEnrichmentConfig)"
    by code_simp
  moreover have "Duration_Milliseconds (Time_Sub 3000000 0) = 3" by code_simp
  moreover have "ec_LatencyHeader DefaultEnrichmentConfig = ''X-Response-Latency-Ms''"
    by (simp add: DefaultEnrichmentConfig_def)
  ultimately show ?thesis
    using enrichment_stamps_response [of "[SendBody ''x'']" new_conn DefaultEnrichmentConfig "\<lambda>s. 0" "\<lambda>s. 3000000" "sample_req ''1.2.3.4:5'' ''/'' []" "()"]
    by (simp add: new_conn_def Let_def case_prod_beta)
qed

end
