(* ===== verification/Recorder.thy ===== *)
theory Recorder
  imports Http
begin

section \<open>The recorder of net/http/httptest\<close>

text \<open>
  \<open>httptest.ResponseRecorder\<close>, which \<open>src/response_cache.go\<close> and \<open>src/request_shadow.go\<close> give to
  handlers as a writer. The header map is live; the first status line (also an informational
  one) and a copy of the header are kept. A first \<open>Write\<close> without a content type adds the one
  \<open>http.DetectContentType\<close> finds, which is the parameter \<open>sniff\<close>.
\<close>

record recorder =
  rc_code :: int
  rc_header :: header
  rc_body :: string
  rc_snap :: "header option"
  rc_wrote :: bool

definition NewRecorder :: recorder where
  "NewRecorder = \<lparr>rc_code = StatusOK, rc_header = [], rc_body = [], rc_snap = None, rc_wrote = False\<rparr>"

definition recorder_WriteHeader :: "int \<Rightarrow> recorder \<Rightarrow> recorder" where
  "recorder_WriteHeader code rec =
     (if rc_wrote rec then rec
      else rec\<lparr>rc_code := code, rc_wrote := True, rc_snap := Some (rc_header rec)\<rparr>)"

definition recorder_Write :: "(string \<Rightarrow> string) \<Rightarrow> string \<Rightarrow> recorder \<Rightarrow> recorder" where
  "recorder_Write sniff b rec =
     (let rec1 = (if rc_wrote rec then rec
                  else recorder_WriteHeader StatusOK
                    (if map_of (rc_header rec) ''Content-Type'' = None \<and> hget (rc_header rec) ''Transfer-Encoding'' = []
                     then rec\<lparr>rc_header := hset ''Content-Type'' (sniff (take 512 b)) (rc_header rec)\<rparr> else rec))
      in rec1\<lparr>rc_body := rc_body rec1 @ b\<rparr>)"

definition recorder_rw :: "(string \<Rightarrow> string) \<Rightarrow> recorder rwriter" where
  "recorder_rw sniff =
     \<lparr>HeaderOf = rc_header, PutHeader = (\<lambda>h rec. rec\<lparr>rc_header := h\<rparr>),
      WriteHeader = recorder_WriteHeader, Write = recorder_Write sniff\<rparr>"

text \<open>\<open>Result()\<close>: the code and the header as sent; the header as it is if nothing was.\<close>

definition result_code :: "recorder \<Rightarrow> int" where
  "result_code rec = (if rc_code rec = 0 then StatusOK else rc_code rec)"

definition result_header :: "recorder \<Rightarrow> header" where
  "result_header rec = (case rc_snap rec of Some h \<Rightarrow> h | None \<Rightarrow> rc_header rec)"

definition recorder_status :: "recorder \<Rightarrow> int option" where
  "recorder_status rec = (if rc_wrote rec then Some (rc_code rec) else None)"

lemma recorder_rw_sel [rw_simps]:
  "HeaderOf (recorder_rw sniff) = rc_header" "PutHeader (recorder_rw sniff) h rec = rec\<lparr>rc_header := h\<rparr>"
  "WriteHeader (recorder_rw sniff) = recorder_WriteHeader" "Write (recorder_rw sniff) = recorder_Write sniff"
  by (simp_all add: recorder_rw_def)

interpretation recorder: response_writer "recorder_rw sniff" recorder_status for sniff
  by unfold_locales
    (auto simp: rw_simps recorder_status_def recorder_WriteHeader_def recorder_Write_def Let_def)

subsection \<open>Well-formed headers\<close>

text \<open>Headers filled through the methods have each canonical key once.\<close>

definition header_wf :: "header \<Rightarrow> bool" where
  "header_wf h \<longleftrightarrow> distinct (map fst h) \<and> list_all (\<lambda>(k, _). canon k = k) h"

lemma lower_upper_char [simp]:
  "upper_char (lower_char c) = upper_char c" "lower_char (upper_char c) = lower_char c"
  "lower_char (lower_char c) = lower_char c"
  by (auto simp: upper_char_def lower_char_def Let_def)

lemma dash_char [simp]:
  "upper_char c = CHR ''-'' \<longleftrightarrow> c = CHR ''-''" "lower_char c = CHR ''-'' \<longleftrightarrow> c = CHR ''-''"
proof -
  have dash: "c = CHR ''-'' \<longleftrightarrow> (of_char c :: nat) = 45" for c
  proof -
    have "(of_char (CHR ''-'') :: nat) = 45" by simp
    then show ?thesis using of_char_eq_iff [where ?'a = nat, of c "CHR ''-''"] by (simp only:)
  qed
  show "upper_char c = CHR ''-'' \<longleftrightarrow> c = CHR ''-''" "lower_char c = CHR ''-'' \<longleftrightarrow> c = CHR ''-''"
    unfolding dash by (auto simp: upper_char_def lower_char_def Let_def)
qed

lemma canon_loop_idem: "canon_loop up (canon_loop up s) = canon_loop up s"
  by (induction up s rule: canon_loop.induct) simp_all

lemma letter_token: "65 \<le> (of_char c :: nat) \<and> (of_char c :: nat) \<le> 90 \<or> 97 \<le> (of_char c :: nat) \<and> (of_char c :: nat) \<le> 122 \<Longrightarrow> is_token c"
  unfolding is_token_def Let_def by blast

lemma is_token_case:
  assumes "is_token c"
  shows "is_token (upper_char c)" and "is_token (lower_char c)"
proof -
  show "is_token (upper_char c)"
  proof (cases "97 \<le> (of_char c :: nat) \<and> (of_char c :: nat) \<le> 122")
    case True
    then have "(of_char (upper_char c) :: nat) = of_char c - 32"
      by (simp add: upper_char_def) (rule mod_less, linarith)
    with True show ?thesis by (intro letter_token) linarith
  next
    case False
    then have "upper_char c = c" unfolding upper_char_def Let_def by (rule if_not_P)
    with assms show ?thesis by simp
  qed
  show "is_token (lower_char c)"
  proof (cases "65 \<le> (of_char c :: nat) \<and> (of_char c :: nat) \<le> 90")
    case True
    then have "(of_char (lower_char c) :: nat) = of_char c + 32"
      by (simp add: lower_char_def)
    with True show ?thesis by (intro letter_token) simp
  next
    case False
    then have "lower_char c = c" unfolding lower_char_def Let_def by (rule if_not_P)
    with assms show ?thesis by simp
  qed
qed

lemma canon_loop_token: "list_all is_token s \<Longrightarrow> list_all is_token (canon_loop up s)"
  by (induction up s rule: canon_loop.induct) (simp_all add: is_token_case)

lemma canon_idem [simp]: "canon (canon k) = canon k"
  by (simp add: canon_def canon_loop_token canon_loop_idem)

lemma header_wf_Nil [simp]: "header_wf []"
  by (simp add: header_wf_def)

lemma header_wf_update: "header_wf h \<Longrightarrow> header_wf (AList.update (canon k) vs h)"
proof (induction h)
  case (Cons p h)
  have "map fst (AList.update (canon k) vs h) = map fst h @ (if canon k \<in> set (map fst h) then [] else [canon k])"
    by (simp add: dom_update update_keys)
  with Cons show ?case by (cases p) (auto simp: header_wf_def)
qed (simp add: header_wf_def)

lemma header_wf_hset [simp]: "header_wf h \<Longrightarrow> header_wf (hset k v h)"
  and header_wf_hadd [simp]: "header_wf h \<Longrightarrow> header_wf (hadd k v h)"
  by (simp_all add: hset_def hadd_def header_wf_update)

subsection \<open>Copying headers\<close>

text \<open>\<open>for k, vals := range h { for _, v := range vals { w.Header().Add(k, v) } }\<close>; the order of the
  keys does not matter when they are distinct.\<close>

definition add_headers :: "'w rwriter \<Rightarrow> header \<Rightarrow> 'w \<Rightarrow> 'w" where
  "add_headers W h w = fold (\<lambda>(k, vals) w. fold (rw_add W k) vals w) h w"

lemma conn_add_values:
  "fold (rw_add conn_rw k) vals c =
     c\<lparr>cHeader := fold (hadd k) vals (cHeader c)\<rparr>"
  by (induction vals arbitrary: c) (simp_all add: rw_add_def rw_simps)

lemma hvalues_canon: "canon k = canon k' \<Longrightarrow> hvalues h k = hvalues h k'"
  by (simp add: hvalues_def)

lemma hvalues_add_values:
  "hvalues (fold (hadd k) vals h) k' = (if canon k = canon k' then hvalues h k' @ vals else hvalues h k')"
  using hvalues_canon [of k k'] by (induction vals arbitrary: h) (auto simp: hdr_simps)

lemma hvalues_Nil [hdr_simps]: "hvalues [] k = []"
  by (simp add: hvalues_def)

lemma conn_add_headers:
  "header_wf h \<Longrightarrow> \<exists>h'. add_headers conn_rw h c = c\<lparr>cHeader := h'\<rparr> \<and>
     (\<forall>k. hvalues h' k = hvalues (cHeader c) k @ hvalues h k)"
proof (induction h arbitrary: c)
  case Nil
  show ?case by (rule exI [of _ "cHeader c"]) (simp add: add_headers_def hdr_simps)
next
  case (Cons p h)
  obtain k vals where p: "p = (k, vals)" by force
  have wf: "header_wf h" "canon k = k" "k \<notin> fst ` set h"
    using Cons.prems p by (simp_all add: header_wf_def)
  let ?c = "c\<lparr>cHeader := fold (hadd k) vals (cHeader c)\<rparr>"
  obtain h' where h': "add_headers conn_rw h ?c = ?c\<lparr>cHeader := h'\<rparr>"
    "\<And>k'. hvalues h' k' = hvalues (cHeader ?c) k' @ hvalues h k'"
    using Cons.IH [OF wf(1), of ?c] by auto
  have "add_headers conn_rw (p # h) c = c\<lparr>cHeader := h'\<rparr>"
    using h'(1) p by (simp add: add_headers_def conn_add_values)
  moreover have "hvalues h' k' = hvalues (cHeader c) k' @ hvalues (p # h) k'" for k'
  proof (cases "canon k' = k")
    case True
    moreover have "map_of h k = None" using wf(3) by (simp add: map_of_eq_None_iff)
    ultimately show ?thesis using h'(2) [of k'] p wf(2)
      by (simp add: hvalues_add_values) (simp add: hvalues_def)
  next
    case False
    then show ?thesis using h'(2) [of k'] p wf(2)
      by (simp add: hvalues_add_values) (simp add: hvalues_def)
  qed
  ultimately show ?case by blast
qed

end
