(* ===== verification/ResponseCache.thy ===== *)
theory ResponseCache
  imports Recorder KeyFunc
begin

section \<open>Response cache\<close>

text \<open>
  \<open>src/response_cache.go\<close> and \<open>src/response_cache_option.go\<close>. An entry is written once and
  never changed afterwards, so the pointer to it is its value; the mutex makes each method one
  step. \<open>clk\<close> is the clock a lookup reads, and after the handler has run the one an insertion
  reads. The one handler below is called with two kinds of writer, so it is two arguments:
  \<open>next_w\<close> on the client's writer, \<open>next_rec\<close> on a recorder.
\<close>

record CacheEntry =
  ce_StatusCode :: int
  ce_Header :: header
  ce_Body :: string
  ce_ExpiresAt :: gotime

record ResponseCache =
  rch_entries :: "string \<rightharpoonup> CacheEntry"
  rch_ttl :: duration

definition NewResponseCache :: "duration \<Rightarrow> ResponseCache" where
  "NewResponseCache ttl = \<lparr>rch_entries = Map.empty, rch_ttl = ttl\<rparr>"

definition ResponseCache_Get :: "gotime \<Rightarrow> string \<Rightarrow> ResponseCache \<Rightarrow> CacheEntry option" where
  "ResponseCache_Get now key c =
     (case rch_entries c key of None \<Rightarrow> None
      | Some entry \<Rightarrow> if ce_ExpiresAt entry < now then None else Some entry)"

definition ResponseCache_Set :: "gotime \<Rightarrow> string \<Rightarrow> CacheEntry \<Rightarrow> ResponseCache \<Rightarrow> ResponseCache" where
  "ResponseCache_Set now key entry c =
     c\<lparr>rch_entries := (rch_entries c)(key \<mapsto> entry\<lparr>ce_ExpiresAt := now + rch_ttl c\<rparr>)\<rparr>"

definition ResponseCache_Delete :: "string \<Rightarrow> ResponseCache \<Rightarrow> ResponseCache" where
  "ResponseCache_Delete key c = c\<lparr>rch_entries := (rch_entries c)(key := None)\<rparr>"

definition defaultCacheKeyFunc :: "req \<Rightarrow> string" where
  "defaultCacheKeyFunc r = Method r @ '':'' @ URL_String r"

text \<open>What is written to the client from an entry, and from a recorded response.\<close>

definition cache_hit :: "'w rwriter \<Rightarrow> CacheEntry \<Rightarrow> 'w \<Rightarrow> 'w" where
  "cache_hit W entry w =
     (let w = add_headers W (ce_Header entry) w;
          w = rw_set W ''X-Cache'' ''HIT'' w;
          w = WriteHeader W (ce_StatusCode entry) w
      in Write W (ce_Body entry) w)"

definition cache_miss :: "'w rwriter \<Rightarrow> recorder \<Rightarrow> 'w \<Rightarrow> 'w" where
  "cache_miss W rec w =
     (let w = rw_set W ''X-Cache'' ''MISS'' w;
          w = add_headers W (rc_header rec) w;
          w = WriteHeader W (result_code rec) w
      in Write W (rc_body rec) w)"

definition WithResponseCache ::
  "'w rwriter \<Rightarrow> ('s \<Rightarrow> gotime) \<Rightarrow> (req \<Rightarrow> string) option \<Rightarrow>
   ('w, ResponseCache \<times> 's) handler \<Rightarrow> (recorder, ResponseCache \<times> 's) handler \<Rightarrow>
   ('w, ResponseCache \<times> 's) handler" where
  "WithResponseCache W clk keyFunc next_w next_rec r w cs =
     (let keyFunc = (case keyFunc of None \<Rightarrow> defaultCacheKeyFunc | Some f \<Rightarrow> f)
      in if Method r \<noteq> ''GET'' then next_w r w cs
         else let key = keyFunc r
              in case ResponseCache_Get (clk (snd cs)) key (fst cs) of
                   Some entry \<Rightarrow> (r, cache_hit W entry w, cs)
                 | None \<Rightarrow>
                     (let (r, rec, c, s) = next_rec r NewRecorder cs;
                          c = (if result_code rec = StatusOK
                               then ResponseCache_Set (clk s) key
                                      \<lparr>ce_StatusCode = result_code rec, ce_Header = result_header rec,
                                       ce_Body = rc_body rec, ce_ExpiresAt = 0\<rparr> c
                               else c)
                      in (r, cache_miss W rec w, c, s)))"

record ResponseCacheConfig =
  rcc_ttl :: duration
  rcc_keyFunc :: "req \<Rightarrow> string"

definition WithCacheTTL :: "duration \<Rightarrow> ResponseCacheConfig \<Rightarrow> ResponseCacheConfig" where
  "WithCacheTTL ttl c = c\<lparr>rcc_ttl := ttl\<rparr>"

definition WithCacheKeyFunc :: "(req \<Rightarrow> string) \<Rightarrow> ResponseCacheConfig \<Rightarrow> ResponseCacheConfig" where
  "WithCacheKeyFunc fn c = c\<lparr>rcc_keyFunc := fn\<rparr>"

definition NewResponseCacheWithOptions ::
  "(ResponseCacheConfig \<Rightarrow> ResponseCacheConfig) list \<Rightarrow> ResponseCache \<times> (req \<Rightarrow> string)" where
  "NewResponseCacheWithOptions opts =
     (let cfg = fold (\<lambda>opt c. opt c) opts \<lparr>rcc_ttl = 30 * second, rcc_keyFunc = defaultCacheKeyFunc\<rparr>
      in (NewResponseCache (rcc_ttl cfg), rcc_keyFunc cfg))"

subsection \<open>The store\<close>

lemma cache_get_set:
  "ResponseCache_Get now' key' (ResponseCache_Set now key e c) =
     (if key' = key then (if now + rch_ttl c < now' then None else Some (e\<lparr>ce_ExpiresAt := now + rch_ttl c\<rparr>))
      else ResponseCache_Get now' key' c)"
  by (simp add: ResponseCache_Get_def ResponseCache_Set_def)

lemma cache_get_delete:
  "ResponseCache_Get now key' (ResponseCache_Delete key c) =
     (if key' = key then None else ResponseCache_Get now key' c)"
  by (simp add: ResponseCache_Get_def ResponseCache_Delete_def)

text \<open>Only answers 200 to GET requests are stored; the key has nothing of the client in it.\<close>

lemma cache_only_get: "Method r \<noteq> ''GET'' \<Longrightarrow> WithResponseCache W clk k next_w next_rec r w cs = next_w r w cs"
  by (simp add: WithResponseCache_def)

lemma cache_only_200:
  assumes "Method r = ''GET''" and "ResponseCache_Get (clk s) (defaultCacheKeyFunc r) c = None"
    and "next_rec r NewRecorder (c, s) = (r', rec, c', s')" and "result_code rec \<noteq> 200"
  shows "WithResponseCache W clk None next_w next_rec r w (c, s) = (r', cache_miss W rec w, c', s')"
  using assms by (simp add: WithResponseCache_def)

lemma cache_key_shared:
  "Method r = Method r' \<Longrightarrow> URL_String r = URL_String r' \<Longrightarrow> defaultCacheKeyFunc r = defaultCacheKeyFunc r'"
  by (simp add: defaultCacheKeyFunc_def)

subsection \<open>What the client gets\<close>

lemma conn_commit:
  assumes "cSent c = None" and "200 \<le> code" and "code \<le> 999"
  shows "conn_Write b (conn_WriteHeader code c) = c\<lparr>cSent := Some (code, cHeader c), cBody := cBody c @ b\<rparr>"
  using assms by (simp add: rw_simps)

lemma cache_hit_sends:
  assumes "cSent c = None" and "header_wf (ce_Header e)" and "200 \<le> ce_StatusCode e" "ce_StatusCode e \<le> 999"
  shows "resp_code (cache_hit conn_rw e c) = ce_StatusCode e \<and>
    cBody (cache_hit conn_rw e c) = cBody c @ ce_Body e \<and>
    (\<forall>k. hvalues (resp_header (cache_hit conn_rw e c)) k =
      (if canon k = ''X-Cache'' then [''HIT''] else hvalues (cHeader c) k @ hvalues (ce_Header e) k))"
proof -
  obtain h where h: "add_headers conn_rw (ce_Header e) c = c\<lparr>cHeader := h\<rparr>"
    "\<And>k. hvalues h k = hvalues (cHeader c) k @ hvalues (ce_Header e) k"
    using conn_add_headers [OF assms(2), of c] by auto
  have "canon ''X-Cache'' = ''X-Cache''" by code_simp
  then show ?thesis
    using assms(1,3,4) h by (auto simp: cache_hit_def rw_set_def rw_simps Let_def resp_code_def resp_header_def hdr_simps)
qed

lemma cache_miss_sends:
  assumes "cSent c = None" and "header_wf (rc_header rec)" and "200 \<le> result_code rec" "result_code rec \<le> 999"
  shows "resp_code (cache_miss conn_rw rec c) = result_code rec \<and>
    cBody (cache_miss conn_rw rec c) = cBody c @ rc_body rec \<and>
    (\<forall>k. hvalues (resp_header (cache_miss conn_rw rec c)) k =
      (if canon k = ''X-Cache'' then [''MISS''] else hvalues (cHeader c) k) @ hvalues (rc_header rec) k)"
proof -
  let ?c = "rw_set conn_rw ''X-Cache'' ''MISS'' c"
  obtain h where h: "add_headers conn_rw (rc_header rec) ?c = ?c\<lparr>cHeader := h\<rparr>"
    "\<And>k. hvalues h k = hvalues (cHeader ?c) k @ hvalues (rc_header rec) k"
    using conn_add_headers [OF assms(2), of ?c] by auto
  have "canon ''X-Cache'' = ''X-Cache''" by code_simp
  then show ?thesis
    using assms(1,3,4) h by (auto simp: cache_miss_def rw_set_def rw_simps Let_def resp_code_def resp_header_def hdr_simps)
qed

lemma result_code_200: "rc_code rec = 200 \<Longrightarrow> result_code rec = 200"
  by (simp add: result_code_def)

text \<open>A handler that changes the header after the status line: the first client gets the change,
  the later ones do not.\<close>

lemma cache_replays_snapshot:
  assumes "rc_snap rec = Some h"
  shows "result_header rec = h"
  using assms by (simp add: result_header_def)

subsection \<open>Properties\<close>

text \<open>C33. When no entry is live for the key of a GET request and its handler answers 200 and
  leaves its header alone after the status line, the answer is stored: until the time of the entry is
  over a GET request with the same URL, whoever sends it, gets the same status, body and headers,
  X-Cache apart, and the handler is not run. Here for the default key function; a handler that changes
  its header later is the lemma above.\<close>

theorem cache_hit_replays_miss:
  fixes s :: 's
  assumes "Method r = ''GET''" and "ResponseCache_Get (clk s) (defaultCacheKeyFunc r) c = None"
    and "next_rec r NewRecorder (c, s) = (r', rec, c', s')"
    and "rc_code rec = 200" and "result_header rec = rc_header rec" and "header_wf (rc_header rec)"
    and "Method r2 = ''GET''" and "URL_String r2 = URL_String r" and "clk s2 \<le> clk s' + rch_ttl c'"
  shows "\<exists>c1 d1 d2. WithResponseCache conn_rw clk None next_w next_rec r new_conn (c, s) = (r', d1, c1, s') \<and>
    WithResponseCache conn_rw clk None next_w next_rec r2 new_conn (c1, s2) = (r2, d2, c1, s2) \<and>
    resp_code d1 = 200 \<and> resp_code d2 = 200 \<and> cBody d2 = cBody d1 \<and>
    (\<forall>k. canon k \<noteq> ''X-Cache'' \<longrightarrow> hvalues (resp_header d2) k = hvalues (resp_header d1) k) \<and>
    hget (resp_header d1) ''X-Cache'' = ''MISS'' \<and> hget (resp_header d2) ''X-Cache'' = ''HIT''"
proof -
  let ?e = "\<lparr>ce_StatusCode = 200, ce_Header = rc_header rec, ce_Body = rc_body rec, ce_ExpiresAt = clk s' + rch_ttl c'\<rparr>"
  let ?c1 = "ResponseCache_Set (clk s') (defaultCacheKeyFunc r)
    \<lparr>ce_StatusCode = 200, ce_Header = rc_header rec, ce_Body = rc_body rec, ce_ExpiresAt = 0\<rparr> c'"
  let ?d1 = "cache_miss conn_rw rec new_conn" and ?d2 = "cache_hit conn_rw ?e new_conn"
  have code: "result_code rec = 200" using assms(4) by (rule result_code_200)
  have run1: "WithResponseCache conn_rw clk None next_w next_rec r new_conn (c, s) = (r', ?d1, ?c1, s')"
    using assms(1-3,5) code by (simp add: WithResponseCache_def)
  have key: "defaultCacheKeyFunc r2 = defaultCacheKeyFunc r"
    using assms(1,7,8) by (intro cache_key_shared) simp_all
  have "ResponseCache_Get (clk s2) (defaultCacheKeyFunc r2) ?c1 = Some ?e"
    using assms(9) by (simp add: cache_get_set key)
  then have run2: "WithResponseCache conn_rw clk None next_w next_rec r2 new_conn (?c1, s2) = (r2, ?d2, ?c1, s2)"
    using assms(7) by (simp add: WithResponseCache_def)
  have new: "cSent new_conn = None" "cHeader new_conn = []" "cBody new_conn = []"
    by (simp_all add: new_conn_def)
  note m = cache_miss_sends [OF new(1) assms(6), unfolded code] and h = cache_hit_sends [OF new(1), of ?e]
  have x: "canon ''X-Cache'' = ''X-Cache''" by code_simp
  show ?thesis
    by (intro exI conjI, rule run1, rule run2)
      (use m h assms(6) new x in \<open>simp_all add: hget_hvalues hdr_simps\<close>)
qed

theorem cache_hit_replays_miss_witness:
  "\<exists>c1 d1 d2. WithResponseCache conn_rw (\<lambda>s. s) None (writes conn_rw []) (writes (recorder_rw (\<lambda>b. ''text/plain'')) [SendBody ''hi''])
      (sample_req ''1.1.1.1:1'' ''/'' []) new_conn (NewResponseCache 10, 0) = (sample_req ''1.1.1.1:1'' ''/'' [], d1, c1, 0) \<and>
    WithResponseCache conn_rw (\<lambda>s. s) None (writes conn_rw []) (writes (recorder_rw (\<lambda>b. ''text/plain'')) [SendBody ''hi''])
      (sample_req ''2.2.2.2:2'' ''/'' []) new_conn (c1, 10) = (sample_req ''2.2.2.2:2'' ''/'' [], d2, c1, 10) \<and>
    cBody d2 = cBody d1"
proof -
  let ?rec = "do_wops (recorder_rw (\<lambda>b. ''text/plain'')) [SendBody ''hi''] NewRecorder"
  have rec: "rc_code ?rec = 200" "result_header ?rec = rc_header ?rec" "header_wf (rc_header ?rec)"
    by (simp_all add: rw_simps NewRecorder_def recorder_Write_def recorder_WriteHeader_def result_header_def hdr_simps)
  have run: "writes (recorder_rw (\<lambda>b. ''text/plain'')) [SendBody ''hi''] (sample_req ''1.1.1.1:1'' ''/'' []) NewRecorder
      (NewResponseCache 10, 0 :: int) = (sample_req ''1.1.1.1:1'' ''/'' [], ?rec, NewResponseCache 10, 0)"
    by (simp add: writes_def)
  have empty: "ResponseCache_Get ((\<lambda>s. s) (0 :: int)) (defaultCacheKeyFunc (sample_req ''1.1.1.1:1'' ''/'' [])) (NewResponseCache 10) = None"
    by (simp add: ResponseCache_Get_def NewResponseCache_def)
  have "\<exists>c1 d1 d2. WithResponseCache conn_rw (\<lambda>s. s) None (writes conn_rw []) (writes (recorder_rw (\<lambda>b. ''text/plain'')) [SendBody ''hi''])
      (sample_req ''1.1.1.1:1'' ''/'' []) new_conn (NewResponseCache 10, 0) = (sample_req ''1.1.1.1:1'' ''/'' [], d1, c1, 0) \<and>
    WithResponseCache conn_rw (\<lambda>s. s) None (writes conn_rw []) (writes (recorder_rw (\<lambda>b. ''text/plain'')) [SendBody ''hi''])
      (sample_req ''2.2.2.2:2'' ''/'' []) new_conn (c1, 10) = (sample_req ''2.2.2.2:2'' ''/'' [], d2, c1, 10) \<and>
    resp_code d1 = 200 \<and> resp_code d2 = 200 \<and> cBody d2 = cBody d1 \<and>
    (\<forall>k. canon k \<noteq> ''X-Cache'' \<longrightarrow> hvalues (resp_header d2) k = hvalues (resp_header d1) k) \<and>
    hget (resp_header d1) ''X-Cache'' = ''MISS'' \<and> hget (resp_header d2) ''X-Cache'' = ''HIT''"
    by (rule cache_hit_replays_miss [where rec = ?rec and c' = "NewResponseCache 10"])
      (use empty run rec in \<open>simp_all add: sample_req_def NewResponseCache_def\<close>)
  then show ?thesis by blast
qed

end
