(* ===== verification/HeaderRewrite.thy ===== *)
theory HeaderRewrite
  imports Recorder KeyFunc
begin

section \<open>Rewriting rate limit headers\<close>

text \<open>
  \<open>src/header_rewrite.go\<close> and \<open>src/header_rewrite_option.go\<close>. The handler below writes to a
  \<open>headerCapture\<close>, whose every method is its own: nothing reaches the client before
  \<open>ServeHTTP\<close> has rewritten the headers. Go runs through the map of the four names in any
  order: \<open>ord\<close> is the order of one run.
\<close>

record HeaderRewriteConfig =
  hr_LimitHeader :: string
  hr_RemainingHeader :: string
  hr_ResetHeader :: string
  hr_RetryAfterHeader :: string

definition DefaultHeaderRewriteConfig :: HeaderRewriteConfig where
  "DefaultHeaderRewriteConfig =
     \<lparr>hr_LimitHeader = ''X-RateLimit-Limit'', hr_RemainingHeader = ''X-RateLimit-Remaining'',
      hr_ResetHeader = ''X-RateLimit-Reset'', hr_RetryAfterHeader = ''Retry-After''\<rparr>"

definition WithLimitHeader :: "string \<Rightarrow> HeaderRewriteConfig \<Rightarrow> HeaderRewriteConfig" where
  "WithLimitHeader name c = c\<lparr>hr_LimitHeader := name\<rparr>"

definition WithRemainingHeader :: "string \<Rightarrow> HeaderRewriteConfig \<Rightarrow> HeaderRewriteConfig" where
  "WithRemainingHeader name c = c\<lparr>hr_RemainingHeader := name\<rparr>"

definition WithResetHeader :: "string \<Rightarrow> HeaderRewriteConfig \<Rightarrow> HeaderRewriteConfig" where
  "WithResetHeader name c = c\<lparr>hr_ResetHeader := name\<rparr>"

definition WithRetryAfterHeader :: "string \<Rightarrow> HeaderRewriteConfig \<Rightarrow> HeaderRewriteConfig" where
  "WithRetryAfterHeader name c = c\<lparr>hr_RetryAfterHeader := name\<rparr>"

definition NewHeaderRewriteConfig ::
  "(HeaderRewriteConfig \<Rightarrow> HeaderRewriteConfig) list \<Rightarrow> HeaderRewriteConfig" where
  "NewHeaderRewriteConfig opts = fold (\<lambda>opt c. opt c) opts DefaultHeaderRewriteConfig"

definition setRateLimitHeaders :: "'w rwriter \<Rightarrow> int \<Rightarrow> int \<Rightarrow> int \<Rightarrow> 'w \<Rightarrow> 'w" where
  "setRateLimitHeaders W limit remaining resetAt w =
     rw_set W ''X-RateLimit-Reset'' (Itoa resetAt)
       (rw_set W ''X-RateLimit-Remaining'' (Itoa remaining)
         (rw_set W ''X-RateLimit-Limit'' (Itoa limit) w))"

subsection \<open>The capturing writer\<close>

text \<open>\<open>hc_body = None\<close> is the nil slice: no \<open>Write\<close> has appended anything.\<close>

record headerCapture =
  hc_headers :: header
  hc_status :: int
  hc_body :: "string option"

definition headerCapture_WriteHeader :: "int \<Rightarrow> headerCapture \<Rightarrow> headerCapture" where
  "headerCapture_WriteHeader code c = c\<lparr>hc_status := code\<rparr>"

definition headerCapture_Write :: "string \<Rightarrow> headerCapture \<Rightarrow> headerCapture" where
  "headerCapture_Write b c =
     c\<lparr>hc_body := (case hc_body c of None \<Rightarrow> if b = [] then None else Some b | Some b0 \<Rightarrow> Some (b0 @ b))\<rparr>"

definition capture_rw :: "headerCapture rwriter" where
  "capture_rw = \<lparr>HeaderOf = hc_headers, PutHeader = (\<lambda>h c. c\<lparr>hc_headers := h\<rparr>),
     WriteHeader = headerCapture_WriteHeader, Write = headerCapture_Write\<rparr>"

definition new_capture :: headerCapture where
  "new_capture = \<lparr>hc_headers = [], hc_status = 0, hc_body = None\<rparr>"

definition rewrite_map :: "HeaderRewriteConfig \<Rightarrow> (string \<times> string) list" where
  "rewrite_map cfg =
     [(''X-RateLimit-Limit'', hr_LimitHeader cfg), (''X-RateLimit-Remaining'', hr_RemainingHeader cfg),
      (''X-RateLimit-Reset'', hr_ResetHeader cfg), (''Retry-After'', hr_RetryAfterHeader cfg)]"

text \<open>One round of the first loop, and of the second.\<close>

definition rename_one :: "'w rwriter \<Rightarrow> header \<Rightarrow> string \<times> string \<Rightarrow> 'w \<Rightarrow> 'w" where
  "rename_one W captured p w =
     (case p of (orig, mapped) \<Rightarrow>
        let v = hget captured orig
        in if v \<noteq> [] \<and> mapped \<noteq> [] \<and> mapped \<noteq> orig then rw_set W mapped v (rw_del W orig w) else w)"

definition copy_one :: "'w rwriter \<Rightarrow> string \<times> string list \<Rightarrow> 'w \<Rightarrow> 'w" where
  "copy_one W p w =
     (case p of (k, vs) \<Rightarrow> if hget (HeaderOf W w) k = [] then fold (rw_set W k) vs w else w)"

definition headerRewriter_ServeHTTP ::
  "'w rwriter \<Rightarrow> (string \<times> string) list \<Rightarrow> (headerCapture, 's) handler \<Rightarrow> ('w, 's) handler" where
  "headerRewriter_ServeHTTP W ord next r w s =
     (let (r, rw, s) = next r new_capture s;
          w = fold (rename_one W (hc_headers rw)) ord w;
          w = fold (copy_one W) (hc_headers rw) w;
          w = WriteHeader W (hc_status rw) w;
          w = (case hc_body rw of None \<Rightarrow> w | Some b \<Rightarrow> Write W b w)
      in (r, w, s))"

text \<open>\<open>ord\<close> has to be an order of the map's entries.\<close>

definition rewrite_order :: "HeaderRewriteConfig \<Rightarrow> (string \<times> string) list \<Rightarrow> bool" where
  "rewrite_order cfg ord \<longleftrightarrow> length ord = 4 \<and> set ord = set (rewrite_map cfg)"

text \<open>The middleware, for some order of the map.\<close>

definition WithHeaderRewrite ::
  "'w rwriter \<Rightarrow> HeaderRewriteConfig \<Rightarrow> (headerCapture, 's) handler \<Rightarrow> req \<Rightarrow> 'w \<Rightarrow> 's \<Rightarrow> req \<times> 'w \<times> 's \<Rightarrow> bool" where
  "WithHeaderRewrite W cfg next r w s out \<longleftrightarrow>
     (\<exists>ord. rewrite_order cfg ord \<and> out = headerRewriter_ServeHTTP W ord next r w s)"

lemma capture_rw_sel [rw_simps]:
  "HeaderOf capture_rw = hc_headers" "PutHeader capture_rw h c = c\<lparr>hc_headers := h\<rparr>"
  "WriteHeader capture_rw = headerCapture_WriteHeader" "Write capture_rw = headerCapture_Write"
  by (simp_all add: capture_rw_def)

subsection \<open>The loops, over the server's writer\<close>

lemma fold_hset_values: "vs \<noteq> [] \<Longrightarrow>
  fold (rw_set conn_rw k) vs c = c\<lparr>cHeader := fold (hset k) vs (cHeader c)\<rparr> \<and>
  hget (fold (hset k) vs h) k' = (if canon k = canon k' then last vs else hget h k')"
proof (induction vs arbitrary: c h)
  case (Cons v vs)
  show ?case
  proof (cases vs)
    case Nil
    then show ?thesis by (simp add: rw_set_def rw_simps hdr_simps)
  next
    case (Cons u us)
    then show ?thesis
      using Cons.IH [of "rw_set conn_rw k v c" "hset k v h"] by (simp add: rw_set_def rw_simps hdr_simps)
  qed
qed simp

lemma rename_one_conn:
  "\<exists>h. rename_one conn_rw captured p c = c\<lparr>cHeader := h\<rparr> \<and>
     (\<forall>k. hget h k =
       (case p of (orig, mapped) \<Rightarrow>
          if hget captured orig \<noteq> [] \<and> mapped \<noteq> [] \<and> mapped \<noteq> orig
          then if canon mapped = canon k then hget captured orig
               else if canon orig = canon k then [] else hget (cHeader c) k
          else hget (cHeader c) k))"
proof (cases p)
  case (Pair orig mapped)
  show ?thesis
  proof (cases "hget captured orig \<noteq> [] \<and> mapped \<noteq> [] \<and> mapped \<noteq> orig")
    case True
    then show ?thesis
      by (intro exI [of _ "hset mapped (hget captured orig) (hdel orig (cHeader c))"])
        (simp add: Pair rename_one_def rw_set_def rw_del_def rw_simps hdr_simps Let_def)
  next
    case False
    then have "rename_one conn_rw captured p c = c" by (auto simp: Pair rename_one_def)
    with False Pair show ?thesis by (intro exI [of _ "cHeader c"]) auto
  qed
qed

text \<open>A name that no entry maps to has no header after the first loop.\<close>

lemma renames_conn:
  "\<exists>h. fold (rename_one conn_rw captured) ord c = c\<lparr>cHeader := h\<rparr> \<and>
     (\<forall>k. (\<forall>(orig, mapped)\<in>set ord. canon mapped \<noteq> canon k) \<longrightarrow> hget (cHeader c) k = [] \<longrightarrow> hget h k = [])"
proof (induction ord arbitrary: c)
  case Nil
  show ?case by (intro exI [of _ "cHeader c"]) simp
next
  case (Cons p ord)
  obtain h1 where h1: "rename_one conn_rw captured p c = c\<lparr>cHeader := h1\<rparr>"
    "\<And>k. hget h1 k = (case p of (orig, mapped) \<Rightarrow>
          if hget captured orig \<noteq> [] \<and> mapped \<noteq> [] \<and> mapped \<noteq> orig
          then if canon mapped = canon k then hget captured orig
               else if canon orig = canon k then [] else hget (cHeader c) k
          else hget (cHeader c) k)"
    using rename_one_conn [of captured p c] by blast
  obtain h2 where h2: "fold (rename_one conn_rw captured) ord (c\<lparr>cHeader := h1\<rparr>) = c\<lparr>cHeader := h2\<rparr>"
    "\<And>k. (\<forall>(orig, mapped)\<in>set ord. canon mapped \<noteq> canon k) \<Longrightarrow> hget h1 k = [] \<Longrightarrow> hget h2 k = []"
    using Cons.IH [of "c\<lparr>cHeader := h1\<rparr>"] by auto
  have "hget h2 k = []" if "\<forall>(orig, mapped)\<in>set (p # ord). canon mapped \<noteq> canon k" "hget (cHeader c) k = []" for k
  proof (rule h2(2))
    show "hget h1 k = []" using that h1(2) [of k] by (cases p) simp
  qed (use that in simp)
  then show ?case
    using h1(1) h2(1) by (intro exI [of _ h2]) simp
qed

text \<open>The target of an entry has its value, if no other entry has the same target and no later
  round deletes it.\<close>

lemma renames_conn_mapped:
  assumes "(orig, mapped) \<in> set ord" and "hget captured orig \<noteq> []" and "mapped \<noteq> []" and "mapped \<noteq> orig"
    and "\<And>o' m'. (o', m') \<in> set ord \<Longrightarrow> canon m' = canon mapped \<Longrightarrow> o' = orig"
    and "\<And>o' m'. (o', m') \<in> set ord \<Longrightarrow> canon o' \<noteq> canon mapped"
  shows "hget (cHeader (fold (rename_one conn_rw captured) ord c)) mapped = hget captured orig"
proof -
  have step: "hget (cHeader (rename_one conn_rw captured p d)) mapped =
      (if fst p = orig \<and> canon (snd p) = canon mapped \<and> snd p \<noteq> [] \<and> snd p \<noteq> orig then hget captured orig
       else hget (cHeader d) mapped)" if "p \<in> set ord" for p d
  proof -
    obtain o' m' where p: "p = (o', m')" by force
    obtain h where h: "rename_one conn_rw captured p d = d\<lparr>cHeader := h\<rparr>"
      "hget h mapped = (if hget captured o' \<noteq> [] \<and> m' \<noteq> [] \<and> m' \<noteq> o'
          then if canon m' = canon mapped then hget captured o'
               else if canon o' = canon mapped then [] else hget (cHeader d) mapped
          else hget (cHeader d) mapped)"
      using rename_one_conn [of captured p d] p by auto
    have "o' = orig" if "canon m' = canon mapped" using assms(5) \<open>p \<in> set ord\<close> p that by blast
    moreover have "canon o' \<noteq> canon mapped" using assms(6) \<open>p \<in> set ord\<close> p by blast
    ultimately show ?thesis using h p assms(2) by auto
  qed
  have "hget (cHeader (fold (rename_one conn_rw captured) ps d)) mapped = hget captured orig"
    if "set ps \<subseteq> set ord" "hget (cHeader d) mapped = hget captured orig \<or> (orig, mapped) \<in> set ps" for ps d
    using that
  proof (induction ps arbitrary: d)
    case (Cons p ps)
    have "p \<in> set ord" "set ps \<subseteq> set ord" using Cons.prems(1) by auto
    show ?case
      unfolding fold.simps o_apply
      by (rule Cons.IH) (use \<open>set ps \<subseteq> set ord\<close> Cons.prems(2) step [OF \<open>p \<in> set ord\<close>] assms(3,4) in auto)
  qed simp
  with assms(1) show ?thesis by blast
qed

lemma copies_conn:
  "header_wf hs \<Longrightarrow> list_all (\<lambda>(k, vs). vs \<noteq> []) hs \<Longrightarrow>
   \<exists>h. fold (copy_one conn_rw) hs c = c\<lparr>cHeader := h\<rparr> \<and>
     (\<forall>k. hget h k = (if hget (cHeader c) k = [] \<and> hvalues hs k \<noteq> [] then last (hvalues hs k)
                      else hget (cHeader c) k))"
proof (induction hs arbitrary: c)
  case Nil
  show ?case by (intro exI [of _ "cHeader c"]) (simp add: hdr_simps)
next
  case (Cons p hs)
  obtain k vs where p: "p = (k, vs)" by force
  have wf: "header_wf hs" "canon k = k" "k \<notin> fst ` set hs" "vs \<noteq> []" "list_all (\<lambda>(k, vs). vs \<noteq> []) hs"
    using Cons.prems p by (simp_all add: header_wf_def)
  obtain h1 where h1: "copy_one conn_rw p c = c\<lparr>cHeader := h1\<rparr>"
    "\<And>k'. hget h1 k' = (if canon k' = k \<and> hget (cHeader c) k = [] then last vs else hget (cHeader c) k')"
    using fold_hset_values [OF wf(4), of k c] p wf(2)
    by (cases "hget (cHeader c) k = []")
      (force simp: copy_one_def rw_simps intro: that [of "cHeader c"] that [of "fold (hset k) vs (cHeader c)"])+
  obtain h2 where h2: "fold (copy_one conn_rw) hs (c\<lparr>cHeader := h1\<rparr>) = c\<lparr>cHeader := h2\<rparr>"
    "\<And>k'. hget h2 k' = (if hget h1 k' = [] \<and> hvalues hs k' \<noteq> [] then last (hvalues hs k') else hget h1 k')"
    using Cons.IH [OF wf(1,5), of "c\<lparr>cHeader := h1\<rparr>"] by auto
  have "hget h2 k' = (if hget (cHeader c) k' = [] \<and> hvalues (p # hs) k' \<noteq> [] then last (hvalues (p # hs) k')
      else hget (cHeader c) k')" for k'
  proof (cases "canon k' = k")
    case True
    have "hvalues hs k' = []" using wf(3) True by (simp add: hvalues_def map_of_eq_None_iff [THEN iffD2])
    moreover have "hvalues (p # hs) k' = vs" using True p by (simp add: hvalues_def)
    moreover have "hget (cHeader c) k' = hget (cHeader c) k" using True wf(2) by (simp add: hget_def)
    ultimately show ?thesis using True h1(2) [of k'] h2(2) [of k'] wf(4) by auto
  next
    case False
    then have "hvalues (p # hs) k' = hvalues hs k'" using p by (simp add: hvalues_def)
    with False show ?thesis using h1(2) [of k'] h2(2) [of k'] by simp
  qed
  moreover have "fold (copy_one conn_rw) (p # hs) c = c\<lparr>cHeader := h2\<rparr>" using h1(1) h2(1) by simp
  ultimately show ?case by blast
qed

text \<open>What is sent once the headers are done.\<close>

lemma serve_conn:
  assumes "nxt r new_capture s = (r', rw, s')" and "header_wf (hc_headers rw)"
    and "list_all (\<lambda>(k, vs). vs \<noteq> []) (hc_headers rw)" and "cSent c = None"
    and "200 \<le> hc_status rw" and "hc_status rw \<le> 999"
  shows "\<exists>h. headerRewriter_ServeHTTP conn_rw ord nxt r c s =
      (r', c\<lparr>cHeader := h, cSent := Some (hc_status rw, h),
             cBody := cBody c @ (case hc_body rw of None \<Rightarrow> [] | Some b \<Rightarrow> b)\<rparr>, s') \<and>
    (\<forall>k. hget h k =
      (let v = hget (cHeader (fold (rename_one conn_rw (hc_headers rw)) ord c)) k
       in if v = [] \<and> hvalues (hc_headers rw) k \<noteq> [] then last (hvalues (hc_headers rw) k) else v))"
proof -
  obtain h1 where h1: "fold (rename_one conn_rw (hc_headers rw)) ord c = c\<lparr>cHeader := h1\<rparr>"
    using renames_conn [of "hc_headers rw" ord c] by blast
  obtain h2 where h2: "fold (copy_one conn_rw) (hc_headers rw) (c\<lparr>cHeader := h1\<rparr>) = c\<lparr>cHeader := h2\<rparr>"
    "\<And>k. hget h2 k = (if hget h1 k = [] \<and> hvalues (hc_headers rw) k \<noteq> [] then last (hvalues (hc_headers rw) k)
                      else hget h1 k)"
    using copies_conn [OF assms(2,3), of "c\<lparr>cHeader := h1\<rparr>"] by auto
  have "headerRewriter_ServeHTTP conn_rw ord nxt r c s =
      (r', c\<lparr>cHeader := h2, cSent := Some (hc_status rw, h2),
             cBody := cBody c @ (case hc_body rw of None \<Rightarrow> [] | Some b \<Rightarrow> b)\<rparr>, s')"
    using assms(4-6) by (simp add: headerRewriter_ServeHTTP_def assms(1) h1 h2(1) rw_simps split: option.split)
  with h1 h2(2) show ?thesis by (intro exI [of _ h2]) (simp add: Let_def)
qed

text \<open>Without a call of \<open>WriteHeader\<close> the captured status stays 0.\<close>

definition no_status :: "wop \<Rightarrow> bool" where
  "no_status op \<longleftrightarrow> (case op of SendHeader _ \<Rightarrow> False | _ \<Rightarrow> True)"

lemma capture_no_status:
  "list_all no_status ops \<Longrightarrow> hc_status (do_wops capture_rw ops c) = hc_status c"
proof (induction ops arbitrary: c)
  case (Cons op ops)
  then show ?case
    by (cases op) (simp_all add: no_status_def rw_set_def rw_simps headerCapture_Write_def)
qed simp

lemma zero_status_panics:
  "cSent c = None \<Longrightarrow>
   conn_panicked (case body of None \<Rightarrow> conn_WriteHeader 0 c | Some b \<Rightarrow> conn_Write b (conn_WriteHeader 0 c))"
  by (simp add: conn_WriteHeader_def conn_Write_def conn_panicked_def split: option.split)

subsection \<open>Properties\<close>

text \<open>A captured header that is renamed reaches the client under its new name and, since the
  second loop copies every captured header the client's map lacks, under its old name too; so the
  client gets both, in whatever order Go runs through the map.\<close>

theorem header_rewrite_keeps_original:
  assumes "rewrite_order cfg ord" and "nxt r new_capture s = (r', rw, s')" and "header_wf (hc_headers rw)"
    and "list_all (\<lambda>(k, vs). vs \<noteq> []) (hc_headers rw)" and "200 \<le> hc_status rw" and "hc_status rw \<le> 999"
    and "(orig, mapped) \<in> set (rewrite_map cfg)" and "hvalues (hc_headers rw) orig = [v]" and "v \<noteq> []"
    and "mapped \<noteq> []" and "mapped \<noteq> orig"
    and "\<And>o' m'. (o', m') \<in> set (rewrite_map cfg) \<Longrightarrow>
      canon m' \<noteq> canon orig \<and> canon o' \<noteq> canon mapped \<and> (canon m' = canon mapped \<longrightarrow> o' = orig)"
  shows "let (r2, c2, s2) = headerRewriter_ServeHTTP conn_rw ord nxt r new_conn s
    in resp_code c2 = hc_status rw \<and> cBody c2 = (case hc_body rw of None \<Rightarrow> [] | Some b \<Rightarrow> b) \<and>
       hget (resp_header c2) mapped = v \<and> hget (resp_header c2) orig = v"
proof -
  have new: "cSent new_conn = None" "cHeader new_conn = []" "cBody new_conn = []"
    by (simp_all add: new_conn_def)
  have ord: "set ord = set (rewrite_map cfg)" using assms(1) by (simp add: rewrite_order_def)
  obtain h where h: "headerRewriter_ServeHTTP conn_rw ord nxt r new_conn s =
      (r', new_conn\<lparr>cHeader := h, cSent := Some (hc_status rw, h),
             cBody := cBody new_conn @ (case hc_body rw of None \<Rightarrow> [] | Some b \<Rightarrow> b)\<rparr>, s')"
    "\<And>k. hget h k =
      (let v = hget (cHeader (fold (rename_one conn_rw (hc_headers rw)) ord new_conn)) k
       in if v = [] \<and> hvalues (hc_headers rw) k \<noteq> [] then last (hvalues (hc_headers rw) k) else v)"
    using serve_conn [where nxt = nxt and ord = ord, OF assms(2-4) new(1) assms(5,6)] by blast
  have v: "hget (hc_headers rw) orig = v" using assms(8) by (simp add: hget_hvalues)
  have "hget (cHeader (fold (rename_one conn_rw (hc_headers rw)) ord new_conn)) mapped = hget (hc_headers rw) orig"
  proof (rule renames_conn_mapped)
    show "(orig, mapped) \<in> set ord" using assms(7) ord by simp
    show "hget (hc_headers rw) orig \<noteq> []" using v assms(9) by simp
    show "o' = orig" if "(o', m') \<in> set ord" "canon m' = canon mapped" for o' m'
      using assms(12) [of o' m'] that ord by simp
    show "canon o' \<noteq> canon mapped" if "(o', m') \<in> set ord" for o' m'
      using assms(12) [of o' m'] that ord by simp
  qed (rule assms(10,11))+
  then have "hget h mapped = v" using h(2) [of mapped] assms(9) v by simp
  moreover have "hget (cHeader (fold (rename_one conn_rw (hc_headers rw)) ord new_conn)) orig = []"
  proof -
    have "\<forall>(o', m')\<in>set ord. canon m' \<noteq> canon orig" using assms(12) ord by blast
    moreover have "hget (cHeader new_conn) orig = []" using new(2) by (simp add: hdr_simps)
    ultimately show ?thesis using renames_conn [of "hc_headers rw" ord new_conn] by auto
  qed
  then have "hget h orig = v" using h(2) [of orig] assms(8) by simp
  ultimately show ?thesis using h(1) new by (simp add: resp_code_def resp_header_def)
qed

theorem header_rewrite_keeps_original_witness:
  "let (r2, c2, s2) = headerRewriter_ServeHTTP conn_rw (rewrite_map (NewHeaderRewriteConfig [WithLimitHeader ''RateLimit-Limit'']))
      (writes capture_rw [SetHeader ''X-RateLimit-Limit'' ''100'', SendHeader 200, SendBody ''ok''])
      (sample_req ''1.2.3.4:5'' ''/'' []) new_conn ()
    in resp_code c2 = 200 \<and> cBody c2 = ''ok'' \<and> hget (resp_header c2) ''RateLimit-Limit'' = ''100'' \<and>
       hget (resp_header c2) ''X-RateLimit-Limit'' = ''100''"
proof -
  let ?cfg = "NewHeaderRewriteConfig [WithLimitHeader ''RateLimit-Limit'']"
  let ?r = "sample_req ''1.2.3.4:5'' ''/'' []"
  let ?next = "writes capture_rw [SetHeader ''X-RateLimit-Limit'' ''100'', SendHeader 200, SendBody ''ok'']"
  let ?rw = "\<lparr>hc_headers = [(''X-Ratelimit-Limit'', [''100''])], hc_status = 200, hc_body = Some ''ok''\<rparr>"
  have map: "rewrite_map ?cfg =
      [(''X-RateLimit-Limit'', ''RateLimit-Limit''), (''X-RateLimit-Remaining'', ''X-RateLimit-Remaining''),
       (''X-RateLimit-Reset'', ''X-RateLimit-Reset''), (''Retry-After'', ''Retry-After'')]"
    by (simp add: rewrite_map_def NewHeaderRewriteConfig_def WithLimitHeader_def DefaultHeaderRewriteConfig_def)
  have canon: "canon ''X-RateLimit-Limit'' = ''X-Ratelimit-Limit''" "canon ''RateLimit-Limit'' = ''Ratelimit-Limit''"
    "canon ''X-RateLimit-Remaining'' = ''X-Ratelimit-Remaining''" "canon ''X-RateLimit-Reset'' = ''X-Ratelimit-Reset''"
    "canon ''Retry-After'' = ''Retry-After''" "canon ''X-Ratelimit-Limit'' = ''X-Ratelimit-Limit''"
    by code_simp+
  have run: "?next ?r new_capture () = (?r, ?rw, ())"
    by (simp add: writes_def rw_set_def rw_simps new_capture_def hset_def canon headerCapture_WriteHeader_def headerCapture_Write_def)
  have order: "rewrite_order ?cfg (rewrite_map ?cfg)" by (simp add: rewrite_order_def map)
  have wf: "header_wf (hc_headers ?rw)" "list_all (\<lambda>(k, vs). vs \<noteq> []) (hc_headers ?rw)"
    by (simp_all add: header_wf_def canon)
  have pair: "(''X-RateLimit-Limit'', ''RateLimit-Limit'') \<in> set (rewrite_map ?cfg)" by (simp add: map)
  have single: "hvalues (hc_headers ?rw) ''X-RateLimit-Limit'' = [''100'']" by (simp add: hvalues_def canon)
  have apart: "canon m' \<noteq> canon ''X-RateLimit-Limit'' \<and> canon o' \<noteq> canon ''RateLimit-Limit'' \<and>
      (canon m' = canon ''RateLimit-Limit'' \<longrightarrow> o' = ''X-RateLimit-Limit'')"
    if "(o', m') \<in> set (rewrite_map ?cfg)" for o' m'
  proof -
    have "(o', m') = (''X-RateLimit-Limit'', ''RateLimit-Limit'') \<or>
        (o', m') = (''X-RateLimit-Remaining'', ''X-RateLimit-Remaining'') \<or>
        (o', m') = (''X-RateLimit-Reset'', ''X-RateLimit-Reset'') \<or> (o', m') = (''Retry-After'', ''Retry-After'')"
      using that by (simp only: map list.set insert_iff empty_iff simp_thms)
    then show ?thesis unfolding prod.inject by (elim disjE conjE; hypsubst; simp only: canon; simp)
  qed
  have "let (r2, c2, s2) = headerRewriter_ServeHTTP conn_rw (rewrite_map ?cfg) ?next ?r new_conn ()
    in resp_code c2 = hc_status ?rw \<and> cBody c2 = (case hc_body ?rw of None \<Rightarrow> [] | Some b \<Rightarrow> b) \<and>
       hget (resp_header c2) ''RateLimit-Limit'' = ''100'' \<and> hget (resp_header c2) ''X-RateLimit-Limit'' = ''100''"
    by (rule header_rewrite_keeps_original [where nxt = ?next, OF order run wf _ _ pair single _ _ _ apart]) simp_all
  then show ?thesis by simp
qed

text \<open>A handler that never calls WriteHeader, which net/http answers with 200, leaves the
  captured status at 0, and WriteHeader(0) panics.\<close>

theorem header_rewrite_implicit_status_panics:
  assumes "list_all no_status ops" and "cSent c = None"
  shows "conn_panicked (fst (snd (headerRewriter_ServeHTTP conn_rw ord (writes capture_rw ops) r c s)))"
proof -
  let ?rw = "do_wops capture_rw ops new_capture"
  have status: "hc_status ?rw = 0" using capture_no_status [OF assms(1)] by (simp add: new_capture_def)
  obtain h1 where h1: "fold (rename_one conn_rw (hc_headers ?rw)) ord c = c\<lparr>cHeader := h1\<rparr>"
    using renames_conn [of "hc_headers ?rw" ord c] by blast
  have "cSent (fold (copy_one conn_rw) hs d) = cSent d" for hs d
  proof (induction hs arbitrary: d)
    case (Cons p hs)
    have "cSent (fold (rw_set conn_rw k) vs d) = cSent d" for k vs d
      by (induction vs arbitrary: d) (simp_all add: rw_set_def rw_simps)
    with Cons show ?case by (simp add: copy_one_def split: prod.split)
  qed simp
  then have "cSent (fold (copy_one conn_rw) (hc_headers ?rw) (c\<lparr>cHeader := h1\<rparr>)) = None"
    using assms(2) by simp
  then show ?thesis
    using zero_status_panics [where body = "hc_body ?rw"]
    by (cases "hc_body ?rw") (simp_all add: headerRewriter_ServeHTTP_def writes_def h1 status rw_simps Let_def)
qed

theorem header_rewrite_implicit_status_panics_witness:
  "conn_panicked (fst (snd (headerRewriter_ServeHTTP conn_rw (rewrite_map DefaultHeaderRewriteConfig)
     (writes capture_rw [SendBody ''ok'']) (sample_req ''1.2.3.4:5'' ''/'' []) new_conn ())))"
  by (rule header_rewrite_implicit_status_panics) (simp_all add: no_status_def new_conn_def)

end
