(* ===== verification/Hedging.thy ===== *)
theory Hedging
  imports Http
begin

section \<open>Hedged requests\<close>

text \<open>
  \<open>src/request_hedging.go\<close>. The handler runs in up to two goroutines at once, each with a
  writer of its own that forwards to the client's writer only for the attempt that claims it;
  attempt \<open>i\<close> is given by the calls \<open>prog i\<close> it makes. \<open>hedge_step\<close> is any interleaving of the
  attempts and of the loop that starts them: a call on the shared header map, a \<open>WriteHeader\<close>
  that only notes the code, a \<open>Write\<close> in its two parts (the claim under the mutex, and the
  forwarding after it), the end of an attempt, and the receives of the loop. A timer made by
  \<open>NewTimer\<close> delivers one tick.
\<close>

subsection \<open>Options\<close>

record hedgeConfig =
  hd_delay :: duration
  hd_maxHedges :: int
  hd_shouldHedge :: "req \<Rightarrow> bool"

definition WithHedgeDelay :: "duration \<Rightarrow> hedgeConfig \<Rightarrow> hedgeConfig" where
  "WithHedgeDelay d c = c\<lparr>hd_delay := d\<rparr>"

definition WithMaxHedges :: "int \<Rightarrow> hedgeConfig \<Rightarrow> hedgeConfig" where
  "WithMaxHedges n c = (if n > 0 then c\<lparr>hd_maxHedges := n\<rparr> else c)"

definition WithHedgePredicate :: "(req \<Rightarrow> bool) \<Rightarrow> hedgeConfig \<Rightarrow> hedgeConfig" where
  "WithHedgePredicate fn c = c\<lparr>hd_shouldHedge := fn\<rparr>"

definition hedge_config :: "(hedgeConfig \<Rightarrow> hedgeConfig) list \<Rightarrow> hedgeConfig" where
  "hedge_config opts = fold (\<lambda>opt c. opt c) opts
     \<lparr>hd_delay = 20 * millisecond, hd_maxHedges = 1, hd_shouldHedge = (\<lambda>_. True)\<rparr>"

subsection \<open>The writers\<close>

record hedgeResponseWriter =
  hw_conn :: conn
  hw_written :: bool

record attempt =
  at_code :: int
  at_ops :: "wop list"
  at_forward :: "string option"
  at_done :: bool

definition new_attempt :: "wop list \<Rightarrow> attempt" where
  "new_attempt ops = \<lparr>at_code = 0, at_ops = ops, at_forward = None, at_done = False\<rparr>"

definition hedge_claim :: "hedgeResponseWriter \<Rightarrow> bool \<times> hedgeResponseWriter" where
  "hedge_claim h = (if hw_written h then (False, h) else (True, h\<lparr>hw_written := True\<rparr>))"

definition singleUse_WriteHeader :: "int \<Rightarrow> attempt \<Rightarrow> attempt" where
  "singleUse_WriteHeader code a = a\<lparr>at_code := code\<rparr>"

text \<open>The two parts of \<open>singleUseResponseWriter.Write\<close>.\<close>

definition singleUse_Write ::
  "string \<Rightarrow> hedgeResponseWriter \<Rightarrow> attempt \<Rightarrow> hedgeResponseWriter \<times> attempt" where
  "singleUse_Write b h a =
     (case hedge_claim h of (True, h') \<Rightarrow> (h', a\<lparr>at_forward := Some b\<rparr>) | (False, h') \<Rightarrow> (h', a))"

definition singleUse_forward ::
  "string \<Rightarrow> hedgeResponseWriter \<Rightarrow> attempt \<Rightarrow> hedgeResponseWriter \<times> attempt" where
  "singleUse_forward b h a =
     (let c = (if at_code a \<noteq> 0 then conn_WriteHeader (at_code a) (hw_conn h) else hw_conn h)
      in (h\<lparr>hw_conn := conn_Write b c\<rparr>, a\<lparr>at_forward := None\<rparr>))"

text \<open>The next call of an attempt.\<close>

fun attempt_call :: "wop \<Rightarrow> hedgeResponseWriter \<Rightarrow> attempt \<Rightarrow> hedgeResponseWriter \<times> attempt" where
  "attempt_call (SetHeader k v) h a = (h\<lparr>hw_conn := rw_set conn_rw k v (hw_conn h)\<rparr>, a)"
| "attempt_call (SendHeader code) h a = (h, singleUse_WriteHeader code a)"
| "attempt_call (SendBody b) h a = singleUse_Write b h a"

subsection \<open>The handler\<close>

text \<open>\<open>he_round\<close> is the loop counter; the receive after the loop is a round in which no tick is
  waited for. \<open>he_returned\<close> is the response as it is when the handler returns.\<close>

record hedge =
  he_shared :: hedgeResponseWriter
  he_attempts :: "attempt list"
  he_tokens :: nat
  he_tick :: bool
  he_round :: nat
  he_returned :: "conn option"

definition hedge_start :: "(nat \<Rightarrow> wop list) \<Rightarrow> conn \<Rightarrow> hedge" where
  "hedge_start prog c =
     \<lparr>he_shared = \<lparr>hw_conn = c, hw_written = False\<rparr>, he_attempts = [new_attempt (prog 0)],
      he_tokens = 0, he_tick = True, he_round = 0, he_returned = None\<rparr>"

inductive hedge_step :: "(nat \<Rightarrow> wop list) \<Rightarrow> nat \<Rightarrow> hedge \<Rightarrow> hedge \<Rightarrow> bool" for prog maxHedges where
  call: "i < length (he_attempts s) \<Longrightarrow> he_attempts s ! i = a \<Longrightarrow> at_forward a = None \<Longrightarrow>
    at_ops a = op # ops \<Longrightarrow> attempt_call op (he_shared s) (a\<lparr>at_ops := ops\<rparr>) = (h', a') \<Longrightarrow>
    hedge_step prog maxHedges s (s\<lparr>he_shared := h', he_attempts := (he_attempts s)[i := a']\<rparr>)"
| forward: "i < length (he_attempts s) \<Longrightarrow> he_attempts s ! i = a \<Longrightarrow> at_forward a = Some b \<Longrightarrow>
    singleUse_forward b (he_shared s) a = (h', a') \<Longrightarrow>
    hedge_step prog maxHedges s (s\<lparr>he_shared := h', he_attempts := (he_attempts s)[i := a']\<rparr>)"
| finish: "i < length (he_attempts s) \<Longrightarrow> he_attempts s ! i = a \<Longrightarrow> at_forward a = None \<Longrightarrow>
    at_ops a = [] \<Longrightarrow> \<not> at_done a \<Longrightarrow>
    hedge_step prog maxHedges s
      (s\<lparr>he_attempts := (he_attempts s)[i := a\<lparr>at_done := True\<rparr>], he_tokens := he_tokens s + 1\<rparr>)"
| fire: "he_returned s = None \<Longrightarrow> he_round s < maxHedges \<Longrightarrow> he_tick s \<Longrightarrow>
    hedge_step prog maxHedges s
      (s\<lparr>he_attempts := he_attempts s @ [new_attempt (prog (length (he_attempts s)))],
         he_tick := False, he_round := he_round s + 1\<rparr>)"
| receive: "he_returned s = None \<Longrightarrow> 0 < he_tokens s \<Longrightarrow>
    hedge_step prog maxHedges s
      (s\<lparr>he_tokens := he_tokens s - 1, he_returned := Some (hw_conn (he_shared s))\<rparr>)"

inductive hedge_steps :: "(nat \<Rightarrow> wop list) \<Rightarrow> nat \<Rightarrow> hedge \<Rightarrow> hedge \<Rightarrow> bool" for prog maxHedges s where
  hedge_refl: "hedge_steps prog maxHedges s s"
| hedge_trans: "hedge_steps prog maxHedges s t \<Longrightarrow> hedge_step prog maxHedges t u \<Longrightarrow> hedge_steps prog maxHedges s u"

text \<open>Requests the predicate does not pick go to next alone.\<close>

definition WithRequestHedging ::
  "(hedgeConfig \<Rightarrow> hedgeConfig) list \<Rightarrow> (nat \<Rightarrow> wop list) \<Rightarrow> req \<Rightarrow> conn \<Rightarrow> conn \<Rightarrow> bool" where
  "WithRequestHedging opts prog r c c' \<longleftrightarrow>
     (let cfg = hedge_config opts
      in if \<not> hd_shouldHedge cfg r then c' = do_wops conn_rw (prog 0) c
         else \<exists>s. hedge_steps prog (nat (hd_maxHedges cfg)) (hedge_start prog c) s \<and> he_returned s = Some c')"

subsection \<open>Invariant\<close>

definition attempt_ok :: "(nat \<Rightarrow> wop list) \<Rightarrow> hedgeResponseWriter \<Rightarrow> nat \<Rightarrow> attempt \<Rightarrow> bool" where
  "attempt_ok prog h i a \<longleftrightarrow> set (at_ops a) \<subseteq> set (prog i) \<and>
     (\<forall>b. at_forward a = Some b \<longrightarrow> hw_written h \<and> cBody (hw_conn h) = [] \<and> SendBody b \<in> set (prog i))"

definition body_ok :: "(nat \<Rightarrow> wop list) \<Rightarrow> nat \<Rightarrow> hedgeResponseWriter \<Rightarrow> bool" where
  "body_ok prog n h \<longleftrightarrow> cBody (hw_conn h) = [] \<or>
     (hw_written h \<and> (\<exists>i<n. SendBody (cBody (hw_conn h)) \<in> set (prog i)))"

text \<open>At most one attempt has claimed the writer and not yet forwarded.\<close>

definition one_forward :: "attempt list \<Rightarrow> bool" where
  "one_forward as \<longleftrightarrow> (\<forall>i<length as. \<forall>j<length as.
     at_forward (as ! i) \<noteq> None \<longrightarrow> at_forward (as ! j) \<noteq> None \<longrightarrow> i = j)"

definition hedge_inv :: "(nat \<Rightarrow> wop list) \<Rightarrow> hedge \<Rightarrow> bool" where
  "hedge_inv prog s \<longleftrightarrow>
     length (he_attempts s) = (if he_tick s then 1 else 2) \<and>
     (\<forall>i<length (he_attempts s). attempt_ok prog (he_shared s) i (he_attempts s ! i)) \<and>
     one_forward (he_attempts s) \<and> body_ok prog (length (he_attempts s)) (he_shared s)"

lemma hedge_invD:
  assumes "hedge_inv prog s"
  shows "length (he_attempts s) = (if he_tick s then 1 else 2)"
    and "i < length (he_attempts s) \<Longrightarrow> attempt_ok prog (he_shared s) i (he_attempts s ! i)"
    and "one_forward (he_attempts s)" and "body_ok prog (length (he_attempts s)) (he_shared s)"
  using assms unfolding hedge_inv_def by blast+

lemma hedge_inv_update:
  assumes inv: "hedge_inv prog s" and i: "i < length (he_attempts s)"
    and ai: "attempt_ok prog h' i a'"
    and aj: "\<And>j. j < length (he_attempts s) \<Longrightarrow> j \<noteq> i \<Longrightarrow> attempt_ok prog h' j (he_attempts s ! j)"
    and one: "at_forward a' = None \<or> (\<forall>j<length (he_attempts s). j \<noteq> i \<longrightarrow> at_forward (he_attempts s ! j) = None)"
    and body: "body_ok prog (length (he_attempts s)) h'"
  shows "hedge_inv prog (s\<lparr>he_shared := h', he_attempts := (he_attempts s)[i := a']\<rparr>)"
proof -
  have "one_forward ((he_attempts s)[i := a'])"
    unfolding one_forward_def
  proof (intro allI impI)
    fix j k
    assume "j < length ((he_attempts s)[i := a'])" "k < length ((he_attempts s)[i := a'])"
      "at_forward ((he_attempts s)[i := a'] ! j) \<noteq> None" "at_forward ((he_attempts s)[i := a'] ! k) \<noteq> None"
    then show "j = k"
      using hedge_invD(3) [OF inv] one unfolding one_forward_def
      by (cases "j = i"; cases "k = i") (auto simp: nth_list_update)
  qed
  moreover have "attempt_ok prog h' j ((he_attempts s)[i := a'] ! j)" if "j < length (he_attempts s)" for j
    using ai aj [OF that] that by (cases "j = i") simp_all
  ultimately show ?thesis using hedge_invD(1) [OF inv] body unfolding hedge_inv_def by simp
qed

lemma attempt_ok_same:
  "attempt_ok prog h i a \<Longrightarrow> hw_written h' = hw_written h \<Longrightarrow> cBody (hw_conn h') = cBody (hw_conn h) \<Longrightarrow>
   set (at_ops a') \<subseteq> set (at_ops a) \<Longrightarrow> at_forward a' = at_forward a \<Longrightarrow> attempt_ok prog h' i a'"
  by (auto simp: attempt_ok_def)

lemma attempt_ok_none: "attempt_ok prog h i a \<Longrightarrow> at_forward a = None \<Longrightarrow> attempt_ok prog h' i a"
  by (simp add: attempt_ok_def)

lemma hedge_inv_call:
  assumes inv: "hedge_inv prog s" and i: "i < length (he_attempts s)" and a: "he_attempts s ! i = a"
    and fw: "at_forward a = None" and ops: "at_ops a = op # ops"
    and call: "attempt_call op (he_shared s) (a\<lparr>at_ops := ops\<rparr>) = (h', a')"
  shows "hedge_inv prog (s\<lparr>he_shared := h', he_attempts := (he_attempts s)[i := a']\<rparr>)"
proof (cases "\<exists>b. op = SendBody b \<and> \<not> hw_written (he_shared s)")
  case False
  then have same: "hw_written h' = hw_written (he_shared s)" "cBody (hw_conn h') = cBody (hw_conn (he_shared s))"
    "at_ops a' = ops" "at_forward a' = None"
    using call fw by (cases op; force simp: singleUse_WriteHeader_def singleUse_Write_def hedge_claim_def rw_set_def rw_simps)+
  show ?thesis
  proof (rule hedge_inv_update [OF inv i])
    show "attempt_ok prog h' i a'"
      by (rule attempt_ok_same [OF hedge_invD(2) [OF inv i] same(1,2)]) (auto simp: a ops same fw)
    show "attempt_ok prog h' j (he_attempts s ! j)" if "j < length (he_attempts s)" "j \<noteq> i" for j
      by (rule attempt_ok_same [OF hedge_invD(2) [OF inv that(1)] same(1,2)]) auto
    show "body_ok prog (length (he_attempts s)) h'" using hedge_invD(4) [OF inv] by (simp add: body_ok_def same)
  qed (simp add: same)
next
  case True
  then obtain b where b: "op = SendBody b" "\<not> hw_written (he_shared s)" by blast
  then have res: "h' = (he_shared s)\<lparr>hw_written := True\<rparr>" "a' = a\<lparr>at_ops := ops, at_forward := Some b\<rparr>"
    using call by (auto simp: singleUse_Write_def hedge_claim_def)
  have none: "at_forward (he_attempts s ! j) = None" if "j < length (he_attempts s)" for j
    using hedge_invD(2) [OF inv that] b(2) unfolding attempt_ok_def by (cases "at_forward (he_attempts s ! j)") simp_all
  have empty: "cBody (hw_conn (he_shared s)) = []" using hedge_invD(4) [OF inv] b(2) by (simp add: body_ok_def)
  show ?thesis
  proof (rule hedge_inv_update [OF inv i])
    show "attempt_ok prog h' i a'"
      using hedge_invD(2) [OF inv i] by (simp add: attempt_ok_def res a ops b(1) empty)
    show "attempt_ok prog h' j (he_attempts s ! j)" if "j < length (he_attempts s)" "j \<noteq> i" for j
      by (rule attempt_ok_none [OF hedge_invD(2) [OF inv that(1)] none [OF that(1)]])
    show "body_ok prog (length (he_attempts s)) h'" by (simp add: body_ok_def res empty)
  qed (simp add: none)
qed

lemma hedge_inv_forward:
  assumes inv: "hedge_inv prog s" and i: "i < length (he_attempts s)" and a: "he_attempts s ! i = a"
    and fw: "at_forward a = Some b" and res: "singleUse_forward b (he_shared s) a = (h', a')"
  shows "hedge_inv prog (s\<lparr>he_shared := h', he_attempts := (he_attempts s)[i := a']\<rparr>)"
proof -
  have res': "a' = a\<lparr>at_forward := None\<rparr>" "hw_written h' = hw_written (he_shared s)"
    using res by (auto simp: singleUse_forward_def Let_def)
  have pre: "hw_written (he_shared s)" "cBody (hw_conn (he_shared s)) = []" "SendBody b \<in> set (prog i)"
    using hedge_invD(2) [OF inv i] a fw by (simp_all add: attempt_ok_def)
  have none: "at_forward (he_attempts s ! j) = None" if "j < length (he_attempts s)" "j \<noteq> i" for j
    using hedge_invD(3) [OF inv] i a fw that unfolding one_forward_def by (metis option.distinct(1))
  have "cBody (conn_WriteHeader code c) = cBody c" for code c by (simp add: conn_WriteHeader_def)
  then have body: "cBody (hw_conn h') = [] \<or> cBody (hw_conn h') = b"
    using res pre(2) by (auto simp: singleUse_forward_def conn_Write_def Let_def)
  show ?thesis
  proof (rule hedge_inv_update [OF inv i])
    show "attempt_ok prog h' i a'" using hedge_invD(2) [OF inv i] by (simp add: attempt_ok_def res' a)
    show "attempt_ok prog h' j (he_attempts s ! j)" if "j < length (he_attempts s)" "j \<noteq> i" for j
      by (rule attempt_ok_none [OF hedge_invD(2) [OF inv that(1)] none [OF that]])
    show "body_ok prog (length (he_attempts s)) h'" using body pre i by (auto simp: body_ok_def res')
  qed (simp add: res')
qed

lemma hedge_step_inv: "hedge_step prog m s t \<Longrightarrow> hedge_inv prog s \<Longrightarrow> hedge_inv prog t"
proof (induction rule: hedge_step.induct)
  case (finish i s a)
  have "hedge_inv prog (s\<lparr>he_shared := he_shared s, he_attempts := (he_attempts s)[i := a\<lparr>at_done := True\<rparr>]\<rparr>)"
  proof (rule hedge_inv_update [OF finish.prems finish.hyps(1)])
    show "attempt_ok prog (he_shared s) i (a\<lparr>at_done := True\<rparr>)"
      using hedge_invD(2) [OF finish.prems finish.hyps(1)] finish.hyps(2) by (simp add: attempt_ok_def)
  qed (use finish hedge_invD [OF finish.prems] in auto)
  then show ?case by (auto simp: hedge_inv_def)
next
  case (fire s)
  have len: "length (he_attempts s) = 1" using hedge_invD(1) [OF fire.prems] fire.hyps(3) by simp
  have "attempt_ok prog (he_shared s) 0 (he_attempts s ! 0)" using hedge_invD(2) [OF fire.prems, of 0] len by simp
  moreover have "attempt_ok prog (he_shared s) (Suc 0) (new_attempt (prog (Suc 0)))"
    by (simp add: attempt_ok_def new_attempt_def)
  moreover have "one_forward (he_attempts s @ [new_attempt (prog (Suc 0))])"
    unfolding one_forward_def using len by (auto simp: nth_append new_attempt_def less_Suc_eq)
  ultimately show ?case
    using hedge_invD(4) [OF fire.prems] len
    by (auto simp: hedge_inv_def body_ok_def nth_append less_Suc_eq All_less_Suc)
next
  case (receive s)
  then show ?case by (auto simp: hedge_inv_def)
qed (blast intro: hedge_inv_call hedge_inv_forward)+

lemma hedge_steps_inv: "hedge_steps prog m s t \<Longrightarrow> hedge_inv prog s \<Longrightarrow> hedge_inv prog t"
  by (induction rule: hedge_steps.induct) (auto intro: hedge_step_inv)

lemma hedge_start_inv: "cBody c = [] \<Longrightarrow> hedge_inv prog (hedge_start prog c)"
  by (simp add: hedge_inv_def hedge_start_def new_attempt_def attempt_ok_def one_forward_def body_ok_def)

text \<open>A program that only sets headers and a status never gets its status to the client.\<close>

lemma hedge_step_silent:
  "hedge_step prog m s t \<Longrightarrow> (\<And>i b. SendBody b \<notin> set (prog i)) \<Longrightarrow> hedge_inv prog s \<Longrightarrow>
   cSent (hw_conn (he_shared t)) = cSent (hw_conn (he_shared s))"
proof (induction rule: hedge_step.induct)
  case (call i s a op ops h' a')
  have "op \<in> set (prog i)"
    using hedge_invD(2) [OF call.prems(2) call.hyps(1)] call.hyps by (simp add: attempt_ok_def)
  with call.prems(1) [of _ i] have "\<And>b. op \<noteq> SendBody b" by blast
  with call.hyps(5) show ?case
    by (cases op) (auto simp: rw_set_def rw_simps)
next
  case (forward i s a b h' a')
  then have "SendBody b \<in> set (prog i)"
    using hedge_invD(2) [OF forward.prems(2) forward.hyps(1)] by (simp add: attempt_ok_def)
  with forward.prems(1) show ?case by blast
qed simp_all

subsection \<open>Properties\<close>

text \<open>C35. On a response that has no body yet, in every interleaving at most two attempts run,
  whatever maxHedges is, since the timer ticks once; and at most one Write of one of the attempts
  reaches the client, so that the bodies of two attempts are never mixed, and a second Write of the
  winner is dropped. (Headers are not kept apart: both attempts set them in the map of the client's
  writer.)\<close>

theorem hedging_one_write:
  assumes "hedge_steps prog maxHedges (hedge_start prog c) s" and "cBody c = []"
  shows "length (he_attempts s) \<le> 2 \<and>
    (cBody (hw_conn (he_shared s)) = [] \<or>
      (\<exists>i<length (he_attempts s). SendBody (cBody (hw_conn (he_shared s))) \<in> set (prog i)))"
  using hedge_invD [OF hedge_steps_inv [OF assms(1) hedge_start_inv [OF assms(2)]]] by (auto simp: body_ok_def)

text \<open>The second attempt wins: the Write of the first and its own second one are dropped. A header the first
  has set is in the response all the same.\<close>

theorem hedging_one_write_witness:
  "\<exists>s. hedge_steps (\<lambda>i. if i = 0 then [SetHeader ''X'' ''0'', SendBody ''a''] else [SendBody ''b'', SendBody ''c'']) 1
      (hedge_start (\<lambda>i. if i = 0 then [SetHeader ''X'' ''0'', SendBody ''a''] else [SendBody ''b'', SendBody ''c'']) new_conn) s \<and>
    map at_ops (he_attempts s) = [[], []] \<and> length (he_attempts s) \<le> 2 \<and>
    cBody (hw_conn (he_shared s)) = ''b'' \<and>
    hget (resp_header (hw_conn (he_shared s))) ''X'' = ''0''"
proof -
  let ?p = "\<lambda>i :: nat. if i = 0 then [SetHeader ''X'' ''0'', SendBody ''a''] else [SendBody ''b'', SendBody ''c'']"
  let ?start = "hedge_start ?p new_conn"
  let ?c1 = "rw_set conn_rw ''X'' ''0'' new_conn"
  let ?x = "new_attempt [SendBody ''a'']" and ?y = "new_attempt [SendBody ''b'', SendBody ''c'']"
  let ?s1 = "?start\<lparr>he_shared := \<lparr>hw_conn = ?c1, hw_written = False\<rparr>, he_attempts := [?x]\<rparr>"
  let ?s2 = "?s1\<lparr>he_attempts := [?x, ?y], he_tick := False, he_round := 1\<rparr>"
  let ?w = "\<lparr>hw_conn = ?c1, hw_written = True\<rparr>"
  let ?y1 = "?y\<lparr>at_ops := [SendBody ''c''], at_forward := Some ''b''\<rparr>" and ?x1 = "?x\<lparr>at_ops := []\<rparr>"
  let ?s3 = "?s2\<lparr>he_shared := ?w, he_attempts := [?x, ?y1]\<rparr>"
  let ?s4 = "?s3\<lparr>he_attempts := [?x1, ?y1]\<rparr>"
  let ?w2 = "?w\<lparr>hw_conn := conn_Write ''b'' ?c1\<rparr>" and ?y2 = "?y1\<lparr>at_forward := None\<rparr>"
  let ?s5 = "?s4\<lparr>he_shared := ?w2, he_attempts := [?x1, ?y2]\<rparr>"
  let ?s6 = "?s5\<lparr>he_attempts := [?x1, ?y2\<lparr>at_ops := []\<rparr>]\<rparr>"
  have 1: "hedge_step ?p 1 ?start ?s1"
    using hedge_step.call [of 0 ?start "new_attempt (?p 0)" "SetHeader ''X'' ''0''" "[SendBody ''a'']"
        "\<lparr>hw_conn = ?c1, hw_written = False\<rparr>" ?x ?p 1]
    by (simp add: hedge_start_def new_attempt_def)
  have 2: "hedge_step ?p 1 ?s1 ?s2"
    using hedge_step.fire [of ?s1 1 ?p] by (simp add: hedge_start_def)
  have 3: "hedge_step ?p 1 ?s2 ?s3"
    using hedge_step.call [of 1 ?s2 ?y "SendBody ''b''" "[SendBody ''c'']" ?w ?y1 ?p 1]
    by (simp add: hedge_start_def new_attempt_def singleUse_Write_def hedge_claim_def)
  have 4: "hedge_step ?p 1 ?s3 ?s4"
    using hedge_step.call [of 0 ?s3 ?x "SendBody ''a''" "[]" ?w ?x1 ?p 1]
    by (simp add: hedge_start_def new_attempt_def singleUse_Write_def hedge_claim_def)
  have 5: "hedge_step ?p 1 ?s4 ?s5"
    using hedge_step.forward [of 1 ?s4 ?y1 "''b''" ?w2 ?y2 ?p 1]
    by (simp add: hedge_start_def new_attempt_def singleUse_forward_def)
  have 6: "hedge_step ?p 1 ?s5 ?s6"
    using hedge_step.call [of 1 ?s5 ?y2 "SendBody ''c''" "[]" ?w2 "?y2\<lparr>at_ops := []\<rparr>" ?p 1]
    by (simp add: hedge_start_def new_attempt_def singleUse_Write_def hedge_claim_def)
  from 1 2 3 4 5 6 have run: "hedge_steps ?p 1 ?start ?s6" by (meson hedge_refl hedge_trans)
  have "cBody new_conn = []" by (simp add: new_conn_def)
  from hedging_one_write [OF run this] have two: "length (he_attempts ?s6) \<le> 2" by (rule conjunct1)
  have "cBody (conn_Write ''b'' ?c1) = ''b'' \<and> hget (resp_header (conn_Write ''b'' ?c1)) ''X'' = ''0''" by code_simp
  then have resp: "cBody (hw_conn (he_shared ?s6)) = ''b''" "hget (resp_header (hw_conn (he_shared ?s6))) ''X'' = ''0''"
    by simp_all
  have "map at_ops (he_attempts ?s6) = [[], []]" by (simp add: new_attempt_def)
  from run this two resp show ?thesis by (intro exI [of _ ?s6] conjI)
qed

text \<open>C36. A response can be lost: the first attempt claims the writer, the second finds it claimed
  and ends, and the handler returns on its token before the first attempt has forwarded anything.
  The server then answers 200 with an empty body, although every attempt wrote the same text.\<close>

theorem hedging_can_lose_response:
  "\<exists>s. hedge_steps (\<lambda>i. [SendBody ''a'']) 1 (hedge_start (\<lambda>i. [SendBody ''a'']) new_conn) s \<and>
     he_returned s = Some new_conn"
proof -
  let ?p = "\<lambda>i :: nat. [SendBody ''a'']"
  let ?s0 = "hedge_start ?p new_conn"
  let ?new = "new_attempt [SendBody ''a'']"
  let ?s1 = "?s0\<lparr>he_attempts := [?new, ?new], he_tick := False, he_round := 1\<rparr>"
  let ?w = "\<lparr>hw_conn = new_conn, hw_written = True\<rparr>"
  let ?claimed = "?new\<lparr>at_ops := [], at_forward := Some ''a''\<rparr>" and ?dropped = "?new\<lparr>at_ops := []\<rparr>"
  let ?s2 = "?s1\<lparr>he_shared := ?w, he_attempts := [?claimed, ?new]\<rparr>"
  let ?s3 = "?s2\<lparr>he_attempts := [?claimed, ?dropped]\<rparr>"
  let ?s4 = "?s3\<lparr>he_attempts := [?claimed, ?dropped\<lparr>at_done := True\<rparr>], he_tokens := 1\<rparr>"
  let ?s5 = "?s4\<lparr>he_tokens := 0, he_returned := Some new_conn\<rparr>"
  have "hedge_step ?p 1 ?s0 ?s1"
    using hedge_step.fire [of ?s0 1 ?p] by (simp add: hedge_start_def)
  moreover have "hedge_step ?p 1 ?s1 ?s2"
    using hedge_step.call [of 0 ?s1 ?new "SendBody ''a''" "[]" ?w ?claimed ?p 1]
    by (simp add: hedge_start_def new_attempt_def singleUse_Write_def hedge_claim_def)
  moreover have "hedge_step ?p 1 ?s2 ?s3"
    using hedge_step.call [of 1 ?s2 ?new "SendBody ''a''" "[]" ?w ?dropped ?p 1]
    by (simp add: hedge_start_def new_attempt_def singleUse_Write_def hedge_claim_def)
  moreover have "hedge_step ?p 1 ?s3 ?s4"
    using hedge_step.finish [of 1 ?s3 ?dropped ?p 1] by (simp add: hedge_start_def new_attempt_def)
  moreover have "hedge_step ?p 1 ?s4 ?s5"
    using hedge_step.receive [of ?s4 ?p 1] by (simp add: hedge_start_def)
  ultimately have "hedge_steps ?p 1 ?s0 ?s5" by (meson hedge_refl hedge_trans)
  then show ?thesis by (intro exI [of _ ?s5] conjI) simp_all
qed

end
