(* ===== verification/Timeout.thy ===== *)
theory Timeout
  imports Http "HOL-Library.Sublist"
begin

section \<open>Request timeouts\<close>

text \<open>
  \<open>src/request_timeout.go\<close>. The next handler runs in a goroutine of its own, on the writer
  itself, and the middleware waits for it or for the deadline; after the deadline it runs the timeout
  handler on the same writer while the goroutine goes on. The two are the calls \<open>ops\<close> and \<open>exc\<close> they
  make; \<open>timeout_step\<close> is any interleaving of them. The deadline can pass at any moment, also when the
  handler has just finished, as \<open>select\<close> then takes either. A handler that does something else once its
  context is cancelled is outside the model.
\<close>

subsection \<open>Options\<close>

definition defaultTimeoutExceededHandler :: "wop list" where
  "defaultTimeoutExceededHandler =
     [SetHeader ''Content-Type'' ''text/plain; charset=utf-8'', SendHeader StatusGatewayTimeout,
      SendBody ''504 Gateway Timeout'']"

record requestTimeoutConfig =
  to_timeout :: duration
  to_exceededHandler :: "wop list"

definition WithTimeoutHandler :: "wop list option \<Rightarrow> requestTimeoutConfig \<Rightarrow> requestTimeoutConfig" where
  "WithTimeoutHandler h c = (case h of None \<Rightarrow> c | Some f \<Rightarrow> c\<lparr>to_exceededHandler := f\<rparr>)"

definition timeout_config ::
  "duration \<Rightarrow> (requestTimeoutConfig \<Rightarrow> requestTimeoutConfig) list \<Rightarrow> requestTimeoutConfig" where
  "timeout_config d opts = fold (\<lambda>opt c. opt c) opts
     \<lparr>to_timeout = d, to_exceededHandler = defaultTimeoutExceededHandler\<rparr>"

subsection \<open>The handler\<close>

datatype timeout_pc = Waiting | Selected | Exceeding "wop list" | Returned

record timeout_state =
  ts_conn :: conn
  ts_ops :: "wop list"
  ts_timedOut :: bool
  ts_pc :: timeout_pc

inductive timeout_step :: "wop list \<Rightarrow> timeout_state \<Rightarrow> timeout_state \<Rightarrow> bool" for exc where
  handler: "ts_ops s = op # ops \<Longrightarrow>
    timeout_step exc s (s\<lparr>ts_conn := do_wop conn_rw op (ts_conn s), ts_ops := ops\<rparr>)"
| select_done: "ts_pc s = Waiting \<Longrightarrow> ts_ops s = [] \<Longrightarrow> timeout_step exc s (s\<lparr>ts_pc := Selected\<rparr>)"
| select_deadline: "ts_pc s = Waiting \<Longrightarrow> timeout_step exc s (s\<lparr>ts_timedOut := True, ts_pc := Selected\<rparr>)"
| in_time: "ts_pc s = Selected \<Longrightarrow> \<not> ts_timedOut s \<Longrightarrow> timeout_step exc s (s\<lparr>ts_pc := Returned\<rparr>)"
| timed_out: "ts_pc s = Selected \<Longrightarrow> ts_timedOut s \<Longrightarrow> timeout_step exc s (s\<lparr>ts_pc := Exceeding exc\<rparr>)"
| exceed: "ts_pc s = Exceeding (op # ops) \<Longrightarrow>
    timeout_step exc s (s\<lparr>ts_conn := do_wop conn_rw op (ts_conn s), ts_pc := Exceeding ops\<rparr>)"
| exceeded: "ts_pc s = Exceeding [] \<Longrightarrow> timeout_step exc s (s\<lparr>ts_pc := Returned\<rparr>)"

inductive timeout_steps :: "wop list \<Rightarrow> timeout_state \<Rightarrow> timeout_state \<Rightarrow> bool" for exc s where
  timeout_refl: "timeout_steps exc s s"
| timeout_trans: "timeout_steps exc s t \<Longrightarrow> timeout_step exc t u \<Longrightarrow> timeout_steps exc s u"

definition timeout_start :: "wop list \<Rightarrow> conn \<Rightarrow> timeout_state" where
  "timeout_start ops c = \<lparr>ts_conn = c, ts_ops = ops, ts_timedOut = False, ts_pc = Waiting\<rparr>"

text \<open>A timeout of zero or less hands the request on; otherwise what the client gets is the
  connection of a state that has returned. The boolean is the local variable \<open>timedOut\<close>: whether
  \<open>select\<close> has taken the deadline.\<close>

definition WithRequestTimeout ::
  "duration \<Rightarrow> (requestTimeoutConfig \<Rightarrow> requestTimeoutConfig) list \<Rightarrow> wop list \<Rightarrow> conn \<Rightarrow> bool \<Rightarrow> conn \<Rightarrow> bool" where
  "WithRequestTimeout d opts ops c timedOut c' \<longleftrightarrow>
     (let cfg = timeout_config d opts
      in if to_timeout cfg \<le> 0 then \<not> timedOut \<and> c' = do_wops conn_rw ops c
         else \<exists>s. timeout_steps (to_exceededHandler cfg) (timeout_start ops c) s \<and>
           ts_pc s = Returned \<and> ts_timedOut s = timedOut \<and> ts_conn s = c')"

subsection \<open>The writer sees a merge of the two sequences\<close>

text \<open>What has been done is a merge of a prefix \<open>xs\<close> of \<open>ops\<close> and a prefix \<open>ys\<close> of \<open>exc\<close>; without the
  deadline \<open>ys\<close> is empty, and the middleware has not gone on before \<open>ops\<close> is done.\<close>

definition timeout_progress :: "wop list \<Rightarrow> timeout_state \<Rightarrow> wop list \<Rightarrow> bool" where
  "timeout_progress exc s ys \<longleftrightarrow>
     (if ts_timedOut s
      then (case ts_pc s of Waiting \<Rightarrow> False | Selected \<Rightarrow> ys = [] | Exceeding rest \<Rightarrow> exc = ys @ rest
            | Returned \<Rightarrow> ys = exc)
      else ys = [] \<and> (case ts_pc s of Exceeding rest \<Rightarrow> False | Waiting \<Rightarrow> True | _ \<Rightarrow> ts_ops s = []))"

definition timeout_inv :: "wop list \<Rightarrow> wop list \<Rightarrow> conn \<Rightarrow> timeout_state \<Rightarrow> bool" where
  "timeout_inv exc ops c s \<longleftrightarrow> (\<exists>xs ys zs. ops = xs @ ts_ops s \<and> zs \<in> shuffles xs ys \<and>
     ts_conn s = do_wops conn_rw zs c \<and> timeout_progress exc s ys)"

lemma timeout_invI:
  "ops = xs @ ts_ops s \<Longrightarrow> zs \<in> shuffles xs ys \<Longrightarrow> ts_conn s = do_wops conn_rw zs c \<Longrightarrow>
   timeout_progress exc s ys \<Longrightarrow> timeout_inv exc ops c s"
  unfolding timeout_inv_def by blast

lemma timeout_step_inv:
  assumes step: "timeout_step exc s t" and inv: "timeout_inv exc ops c s"
  shows "timeout_inv exc ops c t"
proof -
  obtain xs ys zs where
    inv: "ops = xs @ ts_ops s" "zs \<in> shuffles xs ys" "ts_conn s = do_wops conn_rw zs c" "timeout_progress exc s ys"
    using inv unfolding timeout_inv_def by blast
  from step show ?thesis
  proof cases
    case (handler op rest)
    with inv show ?thesis
      by (intro timeout_invI [of _ "xs @ [op]" _ "zs @ [op]" ys])
        (auto simp: do_wops_append shuffles_snoc1 timeout_progress_def split: timeout_pc.splits if_splits)
  next
    case (exceed op rest)
    with inv show ?thesis
      by (intro timeout_invI [of _ xs _ "zs @ [op]" "ys @ [op]"])
        (auto simp: do_wops_append shuffles_snoc2 timeout_progress_def split: if_splits)
  qed (use inv in \<open>intro timeout_invI [of _ xs _ zs ys]; auto simp: timeout_progress_def split: if_splits\<close>)+
qed

lemma timeout_steps_inv: "timeout_steps exc s t \<Longrightarrow> timeout_inv exc ops c s \<Longrightarrow> timeout_inv exc ops c t"
  by (induction rule: timeout_steps.induct) (auto intro: timeout_step_inv)

lemma timeout_start_inv: "timeout_inv exc ops c (timeout_start ops c)"
  by (simp add: timeout_inv_def timeout_start_def timeout_progress_def)

lemma timeout_returned:
  assumes "timeout_steps exc (timeout_start ops c) s" and "ts_pc s = Returned"
  shows "if ts_timedOut s then \<exists>xs zs. prefix xs ops \<and> zs \<in> shuffles xs exc \<and> ts_conn s = do_wops conn_rw zs c
    else ts_conn s = do_wops conn_rw ops c"
proof -
  obtain xs ys zs where
    inv: "ops = xs @ ts_ops s" "zs \<in> shuffles xs ys" "ts_conn s = do_wops conn_rw zs c" "timeout_progress exc s ys"
    using timeout_steps_inv [OF assms(1) timeout_start_inv] unfolding timeout_inv_def by blast
  have "prefix xs ops" using inv(1) by (simp add: prefix_def)
  moreover have "if ts_timedOut s then ys = exc else zs = ops"
    using inv assms(2) by (auto simp: timeout_progress_def)
  ultimately show ?thesis using inv(2,3) by metis
qed

text \<open>Every such merge happens: once the deadline has passed the two run freely.\<close>

lemma timeout_handler_all:
  "timeout_steps exc r s \<Longrightarrow> ts_ops s = ops \<Longrightarrow>
   timeout_steps exc r (s\<lparr>ts_conn := do_wops conn_rw ops (ts_conn s), ts_ops := []\<rparr>)"
proof (induction ops arbitrary: s)
  case Nil
  then show ?case by (cases s) simp
next
  case (Cons op ops)
  from timeout_trans [OF Cons.prems(1) timeout_step.handler [of s op ops exc]] Cons.prems(2)
  show ?case using Cons.IH [of "s\<lparr>ts_conn := do_wop conn_rw op (ts_conn s), ts_ops := ops\<rparr>"] by simp
qed

lemma timeout_merges:
  "timeout_steps exc r s \<Longrightarrow> ts_pc s = Exceeding ys \<Longrightarrow> ts_ops s = xs @ rest \<Longrightarrow> zs \<in> shuffles xs ys \<Longrightarrow>
   timeout_steps exc r (s\<lparr>ts_conn := do_wops conn_rw zs (ts_conn s), ts_ops := rest, ts_pc := Exceeding []\<rparr>)"
proof (induction zs arbitrary: s xs ys)
  case Nil
  then show ?case by (cases s) simp
next
  case (Cons z zs)
  from Cons.prems(4) consider (left) xs' where "xs = z # xs'" "zs \<in> shuffles xs' ys"
    | (right) ys' where "ys = z # ys'" "zs \<in> shuffles xs ys'"
    unfolding Cons_in_shuffles_iff by (metis list.collapse)
  then show ?case
  proof cases
    case left
    let ?s = "s\<lparr>ts_conn := do_wop conn_rw z (ts_conn s), ts_ops := xs' @ rest\<rparr>"
    have "timeout_steps exc r ?s"
      using timeout_trans [OF Cons.prems(1) timeout_step.handler] Cons.prems(3) left(1) by simp
    from Cons.IH [OF this, of ys xs'] Cons.prems(2) left show ?thesis by simp
  next
    case right
    let ?s = "s\<lparr>ts_conn := do_wop conn_rw z (ts_conn s), ts_pc := Exceeding ys'\<rparr>"
    have "timeout_steps exc r ?s"
      using timeout_trans [OF Cons.prems(1) timeout_step.exceed] Cons.prems(2) right(1) by simp
    from Cons.IH [OF this, of ys' xs] Cons.prems(3) right show ?thesis by simp
  qed
qed

lemma timeout_reaches_done:
  "\<exists>s. timeout_steps exc (timeout_start ops c) s \<and> ts_pc s = Returned \<and> \<not> ts_timedOut s \<and>
    ts_conn s = do_wops conn_rw ops c"
proof -
  let ?s = "(timeout_start ops c)\<lparr>ts_conn := do_wops conn_rw ops c, ts_ops := []\<rparr>"
  let ?t = "?s\<lparr>ts_pc := Selected\<rparr>"
  have "timeout_steps exc (timeout_start ops c) ?s"
    using timeout_handler_all [OF timeout_refl, of "timeout_start ops c" ops exc] by (simp add: timeout_start_def)
  from timeout_trans [OF this timeout_step.select_done [of ?s exc]]
  have "timeout_steps exc (timeout_start ops c) ?t" by (simp add: timeout_start_def)
  from timeout_trans [OF this timeout_step.in_time [of ?t exc]]
  have "timeout_steps exc (timeout_start ops c) (?t\<lparr>ts_pc := Returned\<rparr>)" by (simp add: timeout_start_def)
  then show ?thesis by (intro exI [of _ "?t\<lparr>ts_pc := Returned\<rparr>"]) (simp add: timeout_start_def)
qed

lemma timeout_reaches_merge:
  assumes "prefix xs ops" and "zs \<in> shuffles xs exc"
  shows "\<exists>s. timeout_steps exc (timeout_start ops c) s \<and> ts_pc s = Returned \<and> ts_timedOut s \<and>
    ts_conn s = do_wops conn_rw zs c"
proof -
  obtain rest where ops: "ops = xs @ rest" using assms(1) by (auto simp: prefix_def)
  let ?start = "timeout_start ops c" let ?s = "?start\<lparr>ts_timedOut := True, ts_pc := Selected\<rparr>"
  let ?t = "?s\<lparr>ts_pc := Exceeding exc\<rparr>"
  let ?u = "?t\<lparr>ts_conn := do_wops conn_rw zs (ts_conn ?t), ts_ops := rest, ts_pc := Exceeding []\<rparr>"
  have "timeout_step exc ?start ?s" by (rule timeout_step.select_deadline) (simp add: timeout_start_def)
  from timeout_trans [OF timeout_refl this] have "timeout_steps exc ?start ?s" .
  from timeout_trans [OF this timeout_step.timed_out [of ?s exc]]
  have t: "timeout_steps exc ?start ?t" by simp
  have "timeout_steps exc ?start ?u"
    by (rule timeout_merges [OF t]) (use assms(2) ops in \<open>simp_all add: timeout_start_def\<close>)
  from timeout_trans [OF this timeout_step.exceeded [of ?u exc]]
  have "timeout_steps exc ?start (?u\<lparr>ts_pc := Returned\<rparr>)" by simp
  then show ?thesis by (intro exI [of _ "?u\<lparr>ts_pc := Returned\<rparr>"]) (simp add: timeout_start_def)
qed

lemma shuffles_appended: "xs @ ys \<in> shuffles xs ys"
  by (induction xs) (auto simp: Cons_in_shuffles_leftI)

subsection \<open>Properties\<close>

text \<open>C37. Exactly these answers are possible, for any options: without a timeout, or when the handler is
  found to have finished, the handler's own, and the timeout handler has not run; when the deadline
  is found to have passed, any merge of the calls the handler has made so far with all calls of the
  timeout handler, each in its order. So nothing keeps the two apart on the writer.\<close>

theorem timeout_outcomes:
  "WithRequestTimeout d opts ops c timedOut c' =
    (if to_timeout (timeout_config d opts) \<le> 0 then \<not> timedOut \<and> c' = do_wops conn_rw ops c
     else if timedOut
     then \<exists>xs zs. prefix xs ops \<and> zs \<in> shuffles xs (to_exceededHandler (timeout_config d opts)) \<and>
       c' = do_wops conn_rw zs c
     else c' = do_wops conn_rw ops c)"
proof (cases "to_timeout (timeout_config d opts) \<le> 0")
  case True
  then show ?thesis by (simp add: WithRequestTimeout_def)
next
  case False
  let ?exc = "to_exceededHandler (timeout_config d opts)"
  have run: "WithRequestTimeout d opts ops c timedOut c' \<longleftrightarrow> (\<exists>s. timeout_steps ?exc (timeout_start ops c) s \<and>
      ts_pc s = Returned \<and> ts_timedOut s = timedOut \<and> ts_conn s = c')"
    using False by (simp add: WithRequestTimeout_def)
  show ?thesis
  proof (cases timedOut)
    case True
    have "WithRequestTimeout d opts ops c timedOut c' \<longleftrightarrow>
        (\<exists>xs zs. prefix xs ops \<and> zs \<in> shuffles xs ?exc \<and> c' = do_wops conn_rw zs c)"
      unfolding run using True timeout_returned [of ?exc ops c] timeout_reaches_merge [of _ ops _ ?exc c] by metis
    with True False show ?thesis by simp
  next
    case no: False
    then show ?thesis
      unfolding run using False timeout_returned [of ?exc ops c] timeout_reaches_done [of ?exc ops c] by (auto 0 4)
  qed
qed

text \<open>A handler that has started its answer when the deadline passes gets the text of the timeout
  appended to it, under its own status 200.\<close>

theorem timeout_mixes_responses:
  "\<exists>c'. WithRequestTimeout second [] [SendHeader 200, SendBody ''part'', SendBody '' rest''] new_conn True c' \<and>
     resp_code c' = 200 \<and> cBody c' = ''part504 Gateway Timeout''"
proof -
  let ?ops = "[SendHeader 200, SendBody ''part'', SendBody '' rest'']"
  let ?xs = "[SendHeader 200, SendBody ''part'']" and ?exc = defaultTimeoutExceededHandler
  let ?c = "do_wops conn_rw (?xs @ ?exc) new_conn"
  have "to_exceededHandler (timeout_config second []) = ?exc" "\<not> to_timeout (timeout_config second []) \<le> 0"
    by (simp_all add: timeout_config_def)
  moreover have "prefix ?xs ?ops" by simp
  ultimately have "WithRequestTimeout second [] ?ops new_conn True ?c"
    using shuffles_appended [of ?xs ?exc] unfolding timeout_outcomes by metis
  moreover have "resp_code ?c = 200" "cBody ?c = ''part504 Gateway Timeout''"
    by (simp_all add: defaultTimeoutExceededHandler_def new_conn_def rw_simps rw_set_def resp_code_def)
  ultimately show ?thesis by blast
qed

end
