(* ===== verification/Coalescing.thy ===== *)
theory Coalescing
  imports KeyFunc
begin

section \<open>Coalescing requests\<close>

text \<open>
  \<open>src/request_coalescing.go\<close> and \<open>src/request_coalescing_option.go\<close>. A call is a number, its
  result and whether its wait group is done; the group's mutex makes the parts of \<open>Do\<close> under it
  one step each. A request is a process that knows its key; \<open>co_step\<close> is any interleaving of
  them. A WaitGroup that is done lets every waiter pass.
\<close>

subsection \<open>The group\<close>

record call =
  cl_done :: bool
  cl_val :: int

record CoalescingGroup =
  cg_inflight :: "string \<rightharpoonup> nat"
  cg_calls :: "call list"

definition NewCoalescingGroup :: CoalescingGroup where
  "NewCoalescingGroup = \<lparr>cg_inflight = Map.empty, cg_calls = []\<rparr>"

text \<open>Where a request is in the handler: before the key is known, before the lock, waiting for a
  call, leading one, about to delete its entry, and in the next handler, having been coalesced
  or not.\<close>

datatype cpc = Start | Entering string | Awaiting nat | Leading string nat | Cleaning string nat | Forwarded bool

text \<open>The first part of \<open>Do\<close>, up to the unlock.\<close>

definition Do_enter :: "string \<Rightarrow> CoalescingGroup \<Rightarrow> cpc \<times> CoalescingGroup" where
  "Do_enter key g =
     (case cg_inflight g key of
        Some c \<Rightarrow> (Awaiting c, g)
      | None \<Rightarrow> (Leading key (length (cg_calls g)),
           g\<lparr>cg_inflight := (cg_inflight g)(key \<mapsto> length (cg_calls g)),
             cg_calls := cg_calls g @ [\<lparr>cl_done = False, cl_val = 0\<rparr>]\<rparr>))"

text \<open>\<open>c.val, c.err = fn()\<close> and \<open>wg.Done\<close>; the function the middleware passes returns 1.\<close>

definition Do_run :: "nat \<Rightarrow> CoalescingGroup \<Rightarrow> CoalescingGroup" where
  "Do_run c g = g\<lparr>cg_calls := (cg_calls g)[c := \<lparr>cl_done = True, cl_val = 1\<rparr>]\<rparr>"

definition Do_delete :: "string \<Rightarrow> CoalescingGroup \<Rightarrow> CoalescingGroup" where
  "Do_delete key g = g\<lparr>cg_inflight := (cg_inflight g)(key := None)\<rparr>"

definition Do_ready :: "nat \<Rightarrow> CoalescingGroup \<Rightarrow> bool" where
  "Do_ready c g \<longleftrightarrow> c < length (cg_calls g) \<and> cl_done (cg_calls g ! c)"

text \<open>\<open>keys i\<close> is what the key function gives for request \<open>i\<close>: \<open>None\<close> for an error. Every branch of
  the handler ends in the next handler.\<close>

inductive co_step ::
  "(nat \<Rightarrow> string option) \<Rightarrow> CoalescingGroup \<times> cpc list \<Rightarrow> CoalescingGroup \<times> cpc list \<Rightarrow> bool" for keys where
  no_key: "i < length ps \<Longrightarrow> ps ! i = Start \<Longrightarrow> keys i = None \<or> keys i = Some [] \<Longrightarrow>
    co_step keys (g, ps) (g, ps[i := Forwarded False])"
| keyed: "i < length ps \<Longrightarrow> ps ! i = Start \<Longrightarrow> keys i = Some key \<Longrightarrow> key \<noteq> [] \<Longrightarrow>
    co_step keys (g, ps) (g, ps[i := Entering key])"
| enter: "i < length ps \<Longrightarrow> ps ! i = Entering key \<Longrightarrow> Do_enter key g = (pc, g') \<Longrightarrow>
    co_step keys (g, ps) (g', ps[i := pc])"
| awake: "i < length ps \<Longrightarrow> ps ! i = Awaiting c \<Longrightarrow> Do_ready c g \<Longrightarrow>
    co_step keys (g, ps) (g, ps[i := Forwarded True])"
| run: "i < length ps \<Longrightarrow> ps ! i = Leading key c \<Longrightarrow>
    co_step keys (g, ps) (Do_run c g, ps[i := Cleaning key c])"
| clean: "i < length ps \<Longrightarrow> ps ! i = Cleaning key c \<Longrightarrow>
    co_step keys (g, ps) (Do_delete key g, ps[i := Forwarded False])"

inductive co_steps ::
  "(nat \<Rightarrow> string option) \<Rightarrow> CoalescingGroup \<times> cpc list \<Rightarrow> CoalescingGroup \<times> cpc list \<Rightarrow> bool" for keys p where
  co_refl: "co_steps keys p p"
| co_trans: "co_steps keys p q \<Longrightarrow> co_step keys q q' \<Longrightarrow> co_steps keys p q'"

text \<open>The handler for one request; \<open>coalesced\<close> is what \<open>Do\<close> has answered. Nil arguments panic.\<close>

definition coalescing_handler ::
  "'w rwriter \<Rightarrow> (req \<Rightarrow> string option) \<Rightarrow> bool \<Rightarrow> ('w, 's) handler \<Rightarrow> ('w, 's) handler" where
  "coalescing_handler W keyFunc coalesced next r w s =
     (let w = rw_set W ''X-Coalesced'' ''false'' w
      in case keyFunc r of
           None \<Rightarrow> next r w s
         | Some key \<Rightarrow>
             if key = [] then next r w s
             else next r (if coalesced then rw_set W ''X-Coalesced'' ''true'' w else w) s)"

definition WithRequestCoalescing ::
  "'w rwriter \<Rightarrow> CoalescingGroup option \<Rightarrow> (req \<Rightarrow> string option) option \<Rightarrow> ('w, 's) handler \<Rightarrow>
   (CoalescingGroup \<times> (bool \<Rightarrow> ('w, 's) handler)) option" where
  "WithRequestCoalescing W grp keyFunc next =
     (case grp of None \<Rightarrow> None
      | Some g \<Rightarrow> (case keyFunc of None \<Rightarrow> None
                   | Some f \<Rightarrow> Some (g, \<lambda>coalesced. coalescing_handler W f coalesced next)))"

record coalescingConfig =
  cc_keyFunc :: "req \<Rightarrow> string option"

definition WithCoalescingKeyFunc :: "(req \<Rightarrow> string option) \<Rightarrow> coalescingConfig \<Rightarrow> coalescingConfig" where
  "WithCoalescingKeyFunc fn c = c\<lparr>cc_keyFunc := fn\<rparr>"

text \<open>\<open>defaultKeyFunc\<close>, where the two-result form of \<open>KeyFunc\<close> is used.\<close>

definition NewCoalescingGroupWithOptions ::
  "(coalescingConfig \<Rightarrow> coalescingConfig) list \<Rightarrow> CoalescingGroup \<times> (req \<Rightarrow> string option)" where
  "NewCoalescingGroupWithOptions opts =
     (NewCoalescingGroup,
      cc_keyFunc (fold (\<lambda>opt c. opt c) opts \<lparr>cc_keyFunc = (\<lambda>r. Some (defaultKeyFunc r))\<rparr>))"

subsection \<open>Invariant\<close>

text \<open>Every call in flight or waited for exists, and a call that is not done has a process that
  will run it.\<close>

definition leads :: "nat \<Rightarrow> cpc \<Rightarrow> bool" where
  "leads c pc \<longleftrightarrow> (\<exists>key. pc = Leading key c)"

definition pc_ok :: "CoalescingGroup \<Rightarrow> cpc \<Rightarrow> bool" where
  "pc_ok g pc \<longleftrightarrow> (\<forall>c. pc = Awaiting c \<or> leads c pc \<longrightarrow> c < length (cg_calls g))"

definition inflight_ok :: "CoalescingGroup \<Rightarrow> bool" where
  "inflight_ok g \<longleftrightarrow> (\<forall>key c. cg_inflight g key = Some c \<longrightarrow> c < length (cg_calls g))"

definition co_inv :: "CoalescingGroup \<times> cpc list \<Rightarrow> bool" where
  "co_inv p \<longleftrightarrow> (case p of (g, ps) \<Rightarrow>
     inflight_ok g \<and> (\<forall>j<length ps. pc_ok g (ps ! j)) \<and>
     (\<forall>c<length (cg_calls g). cl_done (cg_calls g ! c) \<or> (\<exists>j<length ps. leads c (ps ! j))))"

lemma co_invD:
  assumes "co_inv (g, ps)"
  shows "inflight_ok g" and "j < length ps \<Longrightarrow> pc_ok g (ps ! j)"
    and "c < length (cg_calls g) \<Longrightarrow> \<not> cl_done (cg_calls g ! c) \<Longrightarrow> \<exists>j<length ps. leads c (ps ! j)"
  using assms unfolding co_inv_def by auto

text \<open>One request moves to \<open>pc\<close> and the group to \<open>g'\<close>; each call that is not done then is led by
  that request, or was not done before and is led by another.\<close>

lemma co_inv_update:
  assumes inv: "co_inv (g, ps)" and i: "i < length ps"
    and g: "inflight_ok g'" "length (cg_calls g) \<le> length (cg_calls g')" and pc: "pc_ok g' pc"
    and led: "\<And>c. c < length (cg_calls g') \<Longrightarrow> \<not> cl_done (cg_calls g' ! c) \<Longrightarrow> \<not> leads c pc \<Longrightarrow>
      c < length (cg_calls g) \<and> \<not> cl_done (cg_calls g ! c) \<and> \<not> leads c (ps ! i)"
  shows "co_inv (g', ps[i := pc])"
proof -
  have "pc_ok g' (ps[i := pc] ! j)" if "j < length ps" for j
  proof (cases "j = i")
    case False
    with co_invD(2) [OF inv that] g(2) show ?thesis by (auto simp: pc_ok_def)
  qed (use i pc in simp)
  moreover have "\<exists>j<length ps. leads c (ps[i := pc] ! j)"
    if "c < length (cg_calls g')" "\<not> cl_done (cg_calls g' ! c)" for c
  proof (cases "leads c pc")
    case True
    with i show ?thesis by (intro exI [of _ i]) simp
  next
    case False
    note old = led [OF that False]
    with co_invD(3) [OF inv, of c] obtain j where "j < length ps" "leads c (ps ! j)" by blast
    with old show ?thesis by (intro exI [of _ j]) (cases "j = i"; simp)
  qed
  ultimately show ?thesis using g(1) by (auto simp: co_inv_def)
qed

lemma co_inv_move:
  assumes "co_inv (g, ps)" and "i < length ps" and "\<And>c. \<not> leads c (ps ! i)" and "pc_ok g pc"
  shows "co_inv (g, ps[i := pc])"
  by (rule co_inv_update [OF assms(1,2) co_invD(1) [OF assms(1)] order_refl assms(4)]) (use assms(3) in simp)

lemma co_step_inv: "co_step keys p q \<Longrightarrow> co_inv p \<Longrightarrow> co_inv q"
proof (induction rule: co_step.induct)
  case (enter i ps key g pc g')
  show ?case
  proof (cases "cg_inflight g key")
    case (Some c)
    then have "pc = Awaiting c" "g' = g" "c < length (cg_calls g)"
      using enter.hyps(3) co_invD(1) [OF enter.prems] by (auto simp: Do_enter_def inflight_ok_def)
    then show ?thesis using co_inv_move [OF enter.prems enter.hyps(1)] enter.hyps(2)
      by (simp add: leads_def pc_ok_def)
  next
    case None
    let ?n = "length (cg_calls g)"
    have res: "pc = Leading key ?n" "cg_inflight g' = (cg_inflight g)(key \<mapsto> ?n)"
      "cg_calls g' = cg_calls g @ [\<lparr>cl_done = False, cl_val = 0\<rparr>]"
      using enter.hyps(3) None by (auto simp: Do_enter_def)
    show ?thesis
    proof (rule co_inv_update [OF enter.prems enter.hyps(1)])
      show "inflight_ok g'"
        using co_invD(1) [OF enter.prems] by (auto simp: inflight_ok_def res intro: less_SucI)
      show "c < ?n \<and> \<not> cl_done (cg_calls g ! c) \<and> \<not> leads c (ps ! i)"
        if "c < length (cg_calls g')" "\<not> cl_done (cg_calls g' ! c)" "\<not> leads c pc" for c
        using that enter.hyps(2) by (auto simp: res leads_def nth_append less_Suc_eq)
    qed (simp_all add: res pc_ok_def leads_def)
  qed
next
  case (run i ps key c g)
  have c: "c < length (cg_calls g)"
    using co_invD(2) [OF run.prems run.hyps(1)] run.hyps(2) by (simp add: pc_ok_def leads_def)
  show ?case
  proof (rule co_inv_update [OF run.prems run.hyps(1)])
    show "inflight_ok (Do_run c g)" using co_invD(1) [OF run.prems] by (simp add: inflight_ok_def Do_run_def)
    show "d < length (cg_calls g) \<and> \<not> cl_done (cg_calls g ! d) \<and> \<not> leads d (ps ! i)"
      if "d < length (cg_calls (Do_run c g))" "\<not> cl_done (cg_calls (Do_run c g) ! d)" for d
      using that c run.hyps(2) by (cases "d = c") (simp_all add: Do_run_def leads_def)
  qed (simp_all add: Do_run_def pc_ok_def leads_def)
next
  case (clean i ps key c g)
  show ?case
  proof (rule co_inv_update [OF clean.prems clean.hyps(1)])
    show "inflight_ok (Do_delete key g)"
      using co_invD(1) [OF clean.prems] by (simp add: inflight_ok_def Do_delete_def)
  qed (simp_all add: Do_delete_def pc_ok_def leads_def clean.hyps(2))
qed (rule co_inv_move; simp add: leads_def pc_ok_def)+

lemma co_steps_inv: "co_steps keys p q \<Longrightarrow> co_inv p \<Longrightarrow> co_inv q"
  by (induction rule: co_steps.induct) (auto intro: co_step_inv)

lemma co_start_inv: "co_inv (NewCoalescingGroup, replicate n Start)"
  by (simp add: co_inv_def NewCoalescingGroup_def inflight_ok_def pc_ok_def leads_def)

subsection \<open>Termination and progress\<close>

fun cpc_rank :: "cpc \<Rightarrow> nat" where
  "cpc_rank Start = 4"
| "cpc_rank (Entering key) = 3"
| "cpc_rank (Leading key c) = 2"
| "cpc_rank (Awaiting c) = 1"
| "cpc_rank (Cleaning key c) = 1"
| "cpc_rank (Forwarded b) = 0"

definition co_measure :: "CoalescingGroup \<times> cpc list \<Rightarrow> nat" where
  "co_measure p = sum_list (map cpc_rank (snd p))"

lemma rank_update:
  assumes "i < length ps" and "cpc_rank pc < cpc_rank (ps ! i)"
  shows "sum_list (map cpc_rank (ps[i := pc])) < sum_list (map cpc_rank ps)"
proof -
  have "sum_list (map cpc_rank ps) = sum_list (map cpc_rank (take i ps @ ps ! i # drop (Suc i) ps))"
    using id_take_nth_drop [OF assms(1)] by simp
  with assms show ?thesis by (simp add: upd_conv_take_nth_drop)
qed

lemma co_step_decreases: "co_step keys p q \<Longrightarrow> co_measure q < co_measure p"
  by (erule co_step.cases)
    (auto simp: co_measure_def Do_enter_def intro!: rank_update split: option.splits)

lemma co_step_length: "co_step keys p q \<Longrightarrow> length (snd q) = length (snd p)"
  by (erule co_step.cases) simp_all

text \<open>A request that has not been forwarded can move, or waits for a leader that can.\<close>

lemma co_progress:
  assumes inv: "co_inv (g, ps)" and i: "i < length ps" "\<And>b. ps ! i \<noteq> Forwarded b"
  shows "\<exists>q. co_step keys (g, ps) q"
proof (cases "ps ! i")
  case Start
  show ?thesis
  proof (cases "keys i = None \<or> keys i = Some []")
    case True
    with i(1) Start show ?thesis by (blast intro: co_step.no_key)
  next
    case False
    then obtain key where "keys i = Some key" "key \<noteq> []" by auto
    with i(1) Start show ?thesis by (blast intro: co_step.keyed)
  qed
next
  case (Entering key)
  obtain pc g' where "Do_enter key g = (pc, g')" by force
  with i(1) Entering show ?thesis by (blast intro: co_step.enter)
next
  case (Awaiting c)
  then have c: "c < length (cg_calls g)" using co_invD(2) [OF inv i(1)] by (simp add: pc_ok_def)
  show ?thesis
  proof (cases "cl_done (cg_calls g ! c)")
    case True
    with c i(1) Awaiting show ?thesis by (blast intro: co_step.awake [unfolded Do_ready_def])
  next
    case False
    from co_invD(3) [OF inv c False] obtain j key where "j < length ps" "ps ! j = Leading key c"
      by (auto simp: leads_def)
    then show ?thesis by (blast intro: co_step.run)
  qed
next
  case (Leading key c)
  with i(1) show ?thesis by (blast intro: co_step.run)
next
  case (Cleaning key c)
  with i(1) show ?thesis by (blast intro: co_step.clean)
qed (use i in blast)

subsection \<open>Properties\<close>

text \<open>C34. Every run of any number of requests ends, whatever their keys: each step lowers a measure,
  and as long as a request has not been handed on some step is possible. So no waiter is
  forgotten, and when nothing can move every single request has reached the next handler: the
  group saves no call of it.\<close>

theorem coalescing_terminates:
  assumes "co_steps keys (NewCoalescingGroup, replicate n Start) (g, ps)"
  shows "(\<forall>q. co_step keys (g, ps) q \<longrightarrow> co_measure q < co_measure (g, ps)) \<and>
    ((\<nexists>q. co_step keys (g, ps) q) \<longrightarrow> length ps = n \<and> (\<forall>pc\<in>set ps. \<exists>b. pc = Forwarded b))"
proof -
  have inv: "co_inv (g, ps)" by (rule co_steps_inv [OF assms co_start_inv])
  have "length (snd q) = length (snd p)" if "co_steps keys p q" for p q
    using that by (induction rule: co_steps.induct) (simp_all add: co_step_length)
  from this [OF assms] have "length ps = n" by simp
  moreover have "\<exists>b. pc = Forwarded b" if stuck: "\<nexists>q. co_step keys (g, ps) q" and pc: "pc \<in> set ps" for pc
  proof (rule ccontr)
    assume not: "\<nexists>b. pc = Forwarded b"
    from pc obtain i where "i < length ps" "ps ! i = pc" by (auto simp: in_set_conv_nth)
    with co_progress [OF inv, of i keys] not stuck show False by blast
  qed
  ultimately show ?thesis by (auto simp: co_step_decreases)
qed

theorem coalescing_terminates_witness:
  "co_steps (\<lambda>i. None) (NewCoalescingGroup, [Start]) (NewCoalescingGroup, [Forwarded False]) \<and>
   (\<nexists>q. co_step (\<lambda>i. None) (NewCoalescingGroup, [Forwarded False]) q) \<and>
   list_all (\<lambda>pc. \<exists>b. pc = Forwarded b) [Forwarded False]"
proof -
  have "co_step (\<lambda>i. None) (NewCoalescingGroup, replicate 1 Start) (NewCoalescingGroup, (replicate 1 Start)[0 := Forwarded False])"
    by (rule co_step.no_key) simp_all
  then have run: "co_steps (\<lambda>i. None) (NewCoalescingGroup, replicate 1 Start) (NewCoalescingGroup, [Forwarded False])"
    using co_trans [OF co_refl] by fastforce
  have stuck: "\<nexists>q. co_step (\<lambda>i. None) (NewCoalescingGroup, [Forwarded False]) q"
    by (auto elim!: co_step.cases)
  from coalescing_terminates [OF run] stuck run show ?thesis by simp
qed

end
