(* ===== verification/Bodies.thy ===== *)
theory Bodies
  imports KeyFunc "HOL-Library.Sublist"
begin

section \<open>Request bodies\<close>

text \<open>
  \<open>src/request_body_logger.go\<close> and \<open>src/request_size_limit.go\<close>, with the readers of
  \<open>io\<close> and \<open>net/http\<close> they put around a body. A body that has failed once keeps failing. The body of a request the server hands out is never nil.
\<close>

subsection \<open>Readers\<close>

text \<open>\<open>io.ReadAll\<close>: the bytes, or \<open>None\<close> for an error; and what is left of the body.\<close>

fun ReadAll :: "string \<times> read_end \<Rightarrow> string option \<times> (string \<times> read_end)" where
  "ReadAll (b, EOF) = (Some b, ([], EOF))"
| "ReadAll (b, ReadError) = (None, ([], ReadError))"

text \<open>\<open>io.ReadAll(io.LimitReader(body, n))\<close>: the limit is looked at before the body is read, so an
  error behind the first \<open>n\<close> bytes is not met.\<close>

definition ReadAll_limited :: "int \<Rightarrow> string \<times> read_end \<Rightarrow> string option \<times> (string \<times> read_end)" where
  "ReadAll_limited n body =
     (if n \<le> int (length (fst body)) then (Some (take (nat n) (fst body)), (drop (nat n) (fst body), snd body))
      else ReadAll body)"

text \<open>\<open>io.MultiReader\<close> of some bytes and a body.\<close>

definition MultiReader :: "string \<Rightarrow> string \<times> read_end \<Rightarrow> string \<times> read_end" where
  "MultiReader b body = (b @ fst body, snd body)"

text \<open>\<open>http.MaxBytesReader\<close>: an error in place of the byte after the limit. (The server also closes
  the connection then.)\<close>

definition MaxBytesReader :: "int \<Rightarrow> string \<times> read_end \<Rightarrow> string \<times> read_end" where
  "MaxBytesReader n body =
     (if int (length (fst body)) \<le> n then body else (take (nat n) (fst body), ReadError))"

subsection \<open>Body logger\<close>

record 's bodyLoggerConfig =
  bg_maxBytes :: int
  bg_logFunc :: "req \<Rightarrow> string \<Rightarrow> 's \<Rightarrow> req \<times> 's"
  bg_header :: string

definition defaultBodyLogFunc :: "req \<Rightarrow> string \<Rightarrow> 's \<Rightarrow> req \<times> 's" where
  "defaultBodyLogFunc r body s = (r, s)"

definition WithBodyLogMaxBytes :: "int \<Rightarrow> 's bodyLoggerConfig \<Rightarrow> 's bodyLoggerConfig" where
  "WithBodyLogMaxBytes n c = c\<lparr>bg_maxBytes := n\<rparr>"

definition WithBodyLogFunc ::
  "(req \<Rightarrow> string \<Rightarrow> 's \<Rightarrow> req \<times> 's) option \<Rightarrow> 's bodyLoggerConfig \<Rightarrow> 's bodyLoggerConfig" where
  "WithBodyLogFunc fn c = (case fn of None \<Rightarrow> c | Some f \<Rightarrow> c\<lparr>bg_logFunc := f\<rparr>)"

definition WithBodyLogHeader :: "string \<Rightarrow> 's bodyLoggerConfig \<Rightarrow> 's bodyLoggerConfig" where
  "WithBodyLogHeader header c = c\<lparr>bg_header := header\<rparr>"

definition body_logger_config :: "('s bodyLoggerConfig \<Rightarrow> 's bodyLoggerConfig) list \<Rightarrow> 's bodyLoggerConfig" where
  "body_logger_config opts = fold (\<lambda>opt c. opt c) opts
     \<lparr>bg_maxBytes = 4096, bg_logFunc = defaultBodyLogFunc, bg_header = []\<rparr>"

definition WithRequestBodyLogger ::
  "'w rwriter \<Rightarrow> ('s bodyLoggerConfig \<Rightarrow> 's bodyLoggerConfig) list \<Rightarrow> ('w, 's) handler \<Rightarrow> ('w, 's) handler" where
  "WithRequestBodyLogger W opts next r w s =
     (let cfg = body_logger_config opts
      in case Body r of
           None \<Rightarrow> next r w s
         | Some body \<Rightarrow>
             (let (got, rest) = ReadAll_limited (bg_maxBytes cfg) body;
                  captured = (case got of None \<Rightarrow> [] | Some b \<Rightarrow> b);
                  r = r\<lparr>Body := Some (MultiReader captured rest)\<rparr>;
                  (r, s) = bg_logFunc cfg r captured s;
                  w = (if bg_header cfg \<noteq> [] then rw_set W (bg_header cfg) (itoa (int (length captured))) w else w)
              in next r w s))"

subsection \<open>Size limit\<close>

record ('w, 's) RequestSizeLimitConfig =
  sl_MaxBytes :: int
  sl_OnLimitExceeded :: "('w, 's) handler"

definition defaultSizeLimitExceededHandler :: "'w rwriter \<Rightarrow> ('w, 's) handler" where
  "defaultSizeLimitExceededHandler W r w s =
     (r, Write W ''request body too large''
           (WriteHeader W StatusRequestEntityTooLarge
             (rw_set W ''Content-Type'' ''text/plain; charset=utf-8'' w)), s)"

definition WithSizeLimitHandler ::
  "('w, 's) handler option \<Rightarrow> ('w, 's) RequestSizeLimitConfig \<Rightarrow> ('w, 's) RequestSizeLimitConfig" where
  "WithSizeLimitHandler h c = (case h of None \<Rightarrow> c | Some f \<Rightarrow> c\<lparr>sl_OnLimitExceeded := f\<rparr>)"

definition WithMaxBytes :: "int \<Rightarrow> ('w, 's) RequestSizeLimitConfig \<Rightarrow> ('w, 's) RequestSizeLimitConfig" where
  "WithMaxBytes maxBytes c = c\<lparr>sl_MaxBytes := maxBytes\<rparr>"

definition WithRequestSizeLimit ::
  "'w rwriter \<Rightarrow> int \<Rightarrow> (('w, 's) RequestSizeLimitConfig \<Rightarrow> ('w, 's) RequestSizeLimitConfig) list \<Rightarrow>
   ('w, 's) handler \<Rightarrow> ('w, 's) handler" where
  "WithRequestSizeLimit W maxBytes opts next r w s =
     (let cfg = fold (\<lambda>opt c. opt c) opts
            \<lparr>sl_MaxBytes = maxBytes, sl_OnLimitExceeded = defaultSizeLimitExceededHandler W\<rparr>
      in if sl_MaxBytes cfg \<le> 0 then next r w s
         else if ContentLength r > sl_MaxBytes cfg then sl_OnLimitExceeded cfg r w s
         else next (r\<lparr>Body := map_option (MaxBytesReader (sl_MaxBytes cfg)) (Body r)\<rparr>) w s)"

subsection \<open>Lemmas\<close>

lemma logger_restores:
  "ReadAll_limited n (b, EOF) = (Some (take (nat n) b), (drop (nat n) b, EOF))"
  by (simp add: ReadAll_limited_def)

lemma logger_capture_bound:
  "ReadAll_limited n body = (Some b, rest) \<Longrightarrow> int (length b) \<le> max 0 n"
  by (cases body; cases "snd body") (auto simp: ReadAll_limited_def split: if_splits)

text \<open>A body that fails before \<open>maxBytes\<close> bytes: what was read of it is thrown away, and the next
  handler gets an empty body with the error.\<close>

lemma logger_drops_on_error:
  assumes "Body r = Some (b, ReadError)" and "int (length b) < 4096"
  shows "WithRequestBodyLogger W [] next r w s = next (r\<lparr>Body := Some ([], ReadError)\<rparr>) w s"
  using assms by (simp add: WithRequestBodyLogger_def body_logger_config_def ReadAll_limited_def
      MultiReader_def defaultBodyLogFunc_def)

lemma size_limit_off: "m \<le> 0 \<Longrightarrow> WithRequestSizeLimit W m [] next r w s = next r w s"
  by (simp add: WithRequestSizeLimit_def)

lemma size_limit_declared:
  assumes "0 < m" and "m < ContentLength r" and "cSent c = None"
  shows "\<exists>c'. WithRequestSizeLimit conn_rw m [] next r c s = (r, c', s) \<and> conn_status c' = Some 413"
  using assms by (simp add: WithRequestSizeLimit_def defaultSizeLimitExceededHandler_def rw_set_def rw_simps conn_status_def)

text \<open>The two together: behind a limit, the logger turns a body that is too long for the limit and
  not for the logger into an empty one.\<close>

lemma size_limit_then_logger:
  assumes "Body r = Some (b, e)" and "0 < m" and "ContentLength r \<le> m" and "m < int (length b)" and "m < 4096"
  shows "WithRequestSizeLimit W m [] (WithRequestBodyLogger W [] next) r w s =
    next (r\<lparr>Body := Some ([], ReadError)\<rparr>) w s"
proof -
  have "WithRequestSizeLimit W m [] (WithRequestBodyLogger W [] next) r w s =
      WithRequestBodyLogger W [] next (r\<lparr>Body := Some (take (nat m) b, ReadError)\<rparr>) w s"
    using assms by (simp add: WithRequestSizeLimit_def MaxBytesReader_def)
  also have "\<dots> = next (r\<lparr>Body := Some ([], ReadError)\<rparr>) w s"
    using logger_drops_on_error [of "r\<lparr>Body := Some (take (nat m) b, ReadError)\<rparr>" "take (nat m) b" W] assms by simp
  finally show ?thesis .
qed

subsection \<open>Properties\<close>

text \<open>C39. For any body and any maxBytes: when the body ends without an error, or has maxBytes
  bytes before it, the log function gets its first maxBytes bytes and a request whose body is the one
  that came in, and the next handler the request as the log function leaves it. When the body fails
  earlier both get an empty body that fails, and the bytes read so far are lost.\<close>

theorem body_logger_roundtrip:
  assumes "Body r = Some (b, e)"
  shows "WithRequestBodyLogger W [WithBodyLogFunc (Some f), WithBodyLogMaxBytes n] next r w s =
    (if e = EOF \<or> n \<le> int (length b) then (case f r (take (nat n) b) s of (r', s') \<Rightarrow> next r' w s')
     else (case f (r\<lparr>Body := Some ([], ReadError)\<rparr>) [] s of (r', s') \<Rightarrow> next r' w s'))"
proof -
  have same: "r\<lparr>Body := Some (b, e)\<rparr> = r" using assms by (cases r) simp
  have cfg: "bg_maxBytes (body_logger_config [WithBodyLogFunc (Some f), WithBodyLogMaxBytes n]) = n"
    "bg_logFunc (body_logger_config [WithBodyLogFunc (Some f), WithBodyLogMaxBytes n]) = f"
    "bg_header (body_logger_config [WithBodyLogFunc (Some f), WithBodyLogMaxBytes n]) = []"
    by (simp_all add: body_logger_config_def WithBodyLogFunc_def WithBodyLogMaxBytes_def)
  show ?thesis
  proof (cases "e = EOF \<or> n \<le> int (length b)")
    case True
    then have "ReadAll_limited n (b, e) = (Some (take (nat n) b), (drop (nat n) b, e))"
      by (auto simp: ReadAll_limited_def)
    with True assms show ?thesis by (simp add: WithRequestBodyLogger_def cfg MultiReader_def same)
  next
    case False
    then have "e = ReadError" by (cases e) simp_all
    with False have "ReadAll_limited n (b, e) = (None, ([], ReadError))" by (simp add: ReadAll_limited_def)
    with False assms show ?thesis by (simp add: WithRequestBodyLogger_def cfg MultiReader_def)
  qed
qed

text \<open>A body of five bytes of which three are logged, and the same body failing after its five bytes,
  of which ten would be logged.\<close>

theorem body_logger_roundtrip_witness:
  "WithRequestBodyLogger conn_rw [WithBodyLogFunc (Some (\<lambda>r b s. (r, b # s))), WithBodyLogMaxBytes 3]
     (writes conn_rw []) ((sample_req ''1.2.3.4:5'' ''/'' [])\<lparr>Body := Some (''hello'', EOF)\<rparr>) new_conn [] =
   ((sample_req ''1.2.3.4:5'' ''/'' [])\<lparr>Body := Some (''hello'', EOF)\<rparr>, new_conn, [''hel'']) \<and>
   WithRequestBodyLogger conn_rw [WithBodyLogFunc (Some (\<lambda>r b s. (r, b # s))), WithBodyLogMaxBytes 10]
     (writes conn_rw []) ((sample_req ''1.2.3.4:5'' ''/'' [])\<lparr>Body := Some (''hello'', ReadError)\<rparr>) new_conn [] =
   ((sample_req ''1.2.3.4:5'' ''/'' [])\<lparr>Body := Some ([], ReadError)\<rparr>, new_conn, [[]])"
proof (intro conjI)
  show "WithRequestBodyLogger conn_rw [WithBodyLogFunc (Some (\<lambda>r b s. (r, b # s))), WithBodyLogMaxBytes 3]
     (writes conn_rw []) ((sample_req ''1.2.3.4:5'' ''/'' [])\<lparr>Body := Some (''hello'', EOF)\<rparr>) new_conn [] =
   ((sample_req ''1.2.3.4:5'' ''/'' [])\<lparr>Body := Some (''hello'', EOF)\<rparr>, new_conn, [''hel''])"
    by (subst body_logger_roundtrip [where b = "''hello''" and e = EOF]) (simp_all add: writes_def)
  show "WithRequestBodyLogger conn_rw [WithBodyLogFunc (Some (\<lambda>r b s. (r, b # s))), WithBodyLogMaxBytes 10]
     (writes conn_rw []) ((sample_req ''1.2.3.4:5'' ''/'' [])\<lparr>Body := Some (''hello'', ReadError)\<rparr>) new_conn [] =
   ((sample_req ''1.2.3.4:5'' ''/'' [])\<lparr>Body := Some ([], ReadError)\<rparr>, new_conn, [[]])"
    by (subst body_logger_roundtrip [where b = "''hello''" and e = ReadError]) (simp_all add: writes_def)
qed

text \<open>C40. Behind a size limit the next handler never reads more than the limit, whatever
  Content-Length said; a body within the limit, with its true length declared, arrives unchanged.\<close>

theorem size_limit_bounds_body:
  assumes "0 < m" and "Body r = Some (b, e)"
  shows "(ContentLength r > m \<longrightarrow> WithRequestSizeLimit W m [] next r w s = defaultSizeLimitExceededHandler W r w s) \<and>
    (ContentLength r \<le> m \<longrightarrow>
      (\<exists>b' e'. WithRequestSizeLimit W m [] next r w s = next (r\<lparr>Body := Some (b', e')\<rparr>) w s \<and>
         int (length b') \<le> m \<and> prefix b' b \<and>
         (int (length b) \<le> m \<longrightarrow> r\<lparr>Body := Some (b', e')\<rparr> = r) \<and>
         (m < int (length b) \<longrightarrow> int (length b') = m \<and> e' = ReadError)))"
proof -
  have same: "r\<lparr>Body := Some (b, e)\<rparr> = r" using assms(2) by (cases r) simp
  let ?next = "\<lambda>b' e'. next (r\<lparr>Body := Some (b', e')\<rparr>) w s"
  have over: "ContentLength r > m \<Longrightarrow> WithRequestSizeLimit W m [] next r w s = defaultSizeLimitExceededHandler W r w s"
    using assms(1) by (simp add: WithRequestSizeLimit_def)
  have within: "ContentLength r \<le> m \<Longrightarrow> WithRequestSizeLimit W m [] next r w s =
      (if int (length b) \<le> m then ?next b e else ?next (take (nat m) b) ReadError)"
    using assms by (simp add: WithRequestSizeLimit_def MaxBytesReader_def)
  show ?thesis
  proof (intro conjI impI over within)
    assume "ContentLength r \<le> m"
    note run = within [OF this]
    show "\<exists>b' e'. WithRequestSizeLimit W m [] next r w s = ?next b' e' \<and>
         int (length b') \<le> m \<and> prefix b' b \<and>
         (int (length b) \<le> m \<longrightarrow> r\<lparr>Body := Some (b', e')\<rparr> = r) \<and>
         (m < int (length b) \<longrightarrow> int (length b') = m \<and> e' = ReadError)"
    proof (cases "int (length b) \<le> m")
      case True
      with run same show ?thesis by (intro exI [of _ b] exI [of _ e]) simp
    next
      case False
      with run assms(1) show ?thesis
        by (intro exI [of _ "take (nat m) b"] exI [of _ ReadError]) (simp add: take_is_prefix)
    qed
  qed
qed

theorem size_limit_bounds_body_witness:
  "\<exists>b' e'. WithRequestSizeLimit conn_rw 3 [] (writes conn_rw [])
     ((sample_req ''1.2.3.4:5'' ''/'' [])\<lparr>Body := Some (''hello'', EOF)\<rparr>) new_conn () =
     writes conn_rw [] ((sample_req ''1.2.3.4:5'' ''/'' [])\<lparr>Body := Some (b', e')\<rparr>) new_conn () \<and> length b' = 3"
  using size_limit_bounds_body [of 3 "(sample_req ''1.2.3.4:5'' ''/'' [])\<lparr>Body := Some (''hello'', EOF)\<rparr>" "''hello''" EOF
      conn_rw "writes conn_rw []" new_conn "()"]
  by (auto simp: sample_req_def)

end
