(* ===== verification/Observe.thy ===== *)
theory Observe
  imports KeyFunc GoFloat
begin

section \<open>Logging and sampling\<close>

text \<open>
  \<open>src/request_logger.go\<close>, \<open>src/request_logger_option.go\<close> and \<open>src/request_sampling.go\<close>:
  middlewares that look at requests without a limit of their own.
\<close>

subsection \<open>Logger\<close>

record LogEntry =
  le_Key :: string
  le_Path :: string
  le_Method :: string
  le_Allowed :: bool
  le_Remaining :: int
  le_Latency :: duration

text \<open>The line of the standard logger; \<open>dur\<close> is \<open>Duration.String\<close>, \<open>out\<close> what \<open>log.Printf\<close> does
  with the text.\<close>

definition defaultLogFunc ::
  "(duration \<Rightarrow> string) \<Rightarrow> (string \<Rightarrow> 's \<Rightarrow> 's) \<Rightarrow> LogEntry \<Rightarrow> 's \<Rightarrow> 's" where
  "defaultLogFunc dur out e s =
     (let status = (if \<not> le_Allowed e then ''blocked'' else ''allowed'')
      in out (''[ratelimiter] '' @ le_Method e @ '' '' @ le_Path e @ '' key='' @ le_Key e @ '' status='' @ status @
              '' remaining='' @ Itoa (le_Remaining e) @ '' latency='' @ dur (le_Latency e)) s)"

record 'w loggerResponseWriter =
  lw_inner :: 'w
  lw_statusCode :: int

definition logger_WriteHeader :: "'w rwriter \<Rightarrow> int \<Rightarrow> 'w loggerResponseWriter \<Rightarrow> 'w loggerResponseWriter" where
  "logger_WriteHeader W code lw =
     lw\<lparr>lw_statusCode := code, lw_inner := WriteHeader W code (lw_inner lw)\<rparr>"

definition logger_rw :: "'w rwriter \<Rightarrow> 'w loggerResponseWriter rwriter" where
  "logger_rw W = (embed_rw W lw_inner lw_inner_update)\<lparr>WriteHeader := logger_WriteHeader W\<rparr>"

text \<open>\<open>fmt.Sscanf(v, "%d", &n)\<close> with \<open>n\<close> zero before: spaces, a sign, and the digits up to the
  first other byte; \<open>n\<close> stays zero if there are none or the number is out of range.\<close>

fun scan_digits :: "nat \<Rightarrow> string \<Rightarrow> nat" where
  "scan_digits acc [] = acc"
| "scan_digits acc (c # cs) = (case digit_val c of None \<Rightarrow> acc | Some d \<Rightarrow> scan_digits (10 * acc + d) cs)"

definition scan_int :: "string \<Rightarrow> int" where
  "scan_int v =
     (let t = dropWhile is_space v;
          (neg, ds) = (case t of [] \<Rightarrow> (False, []) | c # cs \<Rightarrow>
                         if c = CHR ''-'' then (True, cs) else if c = CHR ''+'' then (False, cs) else (False, t));
          n = int (scan_digits 0 ds); i = (if neg then - n else n)
      in if in_i64 i then i else 0)"

definition WithRequestLogger ::
  "('s \<Rightarrow> gotime) \<Rightarrow> (LogEntry \<Rightarrow> 's \<Rightarrow> 's) \<Rightarrow> 'w rwriter \<Rightarrow> ('w loggerResponseWriter, 's) handler \<Rightarrow>
   (req \<Rightarrow> string \<times> err option) option \<Rightarrow> (LogEntry \<Rightarrow> 's \<Rightarrow> 's) option \<Rightarrow> ('w, 's) handler" where
  "WithRequestLogger clk default_log W next keyFunc logFn r w s =
     (let logFn = (case logFn of None \<Rightarrow> default_log | Some f \<Rightarrow> f);
          keyFunc = (case keyFunc of None \<Rightarrow> (\<lambda>r. (defaultKeyFunc r, None)) | Some f \<Rightarrow> f);
          start = clk s;
          (r, lrw, s) = next r \<lparr>lw_inner = w, lw_statusCode = StatusOK\<rparr> s;
          key = fst (keyFunc r);
          v = hget (HeaderOf (logger_rw W) lrw) ''X-RateLimit-Remaining'';
          remaining = (if v \<noteq> [] then scan_int v else 0);
          allowed = (lw_statusCode lrw \<noteq> StatusTooManyRequests)
      in (r, lw_inner lrw,
          logFn \<lparr>le_Key = key, le_Path = URL_Path r, le_Method = Method r, le_Allowed = allowed,
                 le_Remaining = remaining, le_Latency = Time_Sub (clk s) start\<rparr> s))"

record 's loggerConfig =
  lc_keyFunc :: "(req \<Rightarrow> string \<times> err option) option"
  lc_logFn :: "(LogEntry \<Rightarrow> 's \<Rightarrow> 's) option"

definition WithLogKeyFunc ::
  "(req \<Rightarrow> string \<times> err option) option \<Rightarrow> 's loggerConfig \<Rightarrow> 's loggerConfig" where
  "WithLogKeyFunc kf c = c\<lparr>lc_keyFunc := kf\<rparr>"

definition WithLogFunc :: "(LogEntry \<Rightarrow> 's \<Rightarrow> 's) option \<Rightarrow> 's loggerConfig \<Rightarrow> 's loggerConfig" where
  "WithLogFunc fn c = c\<lparr>lc_logFn := fn\<rparr>"

definition NewRequestLogger ::
  "('s \<Rightarrow> gotime) \<Rightarrow> (LogEntry \<Rightarrow> 's \<Rightarrow> 's) \<Rightarrow> 'w rwriter \<Rightarrow> ('w loggerResponseWriter, 's) handler \<Rightarrow>
   ('s loggerConfig \<Rightarrow> 's loggerConfig) list \<Rightarrow> ('w, 's) handler" where
  "NewRequestLogger clk default_log W next opts =
     (let cfg = fold (\<lambda>o' c. o' c) opts \<lparr>lc_keyFunc = None, lc_logFn = None\<rparr>
      in WithRequestLogger clk default_log W next (lc_keyFunc cfg) (lc_logFn cfg))"

lemma logger_rw_sel [rw_simps]:
  "HeaderOf (logger_rw W) a = HeaderOf W (lw_inner a)"
  "PutHeader (logger_rw W) h = lw_inner_update (PutHeader W h)"
  "WriteHeader (logger_rw W) = logger_WriteHeader W"
  "Write (logger_rw W) b = lw_inner_update (Write W b)"
  by (simp_all add: logger_rw_def embed_rw_def)

context response_writer
begin

lemma logger_writer: "response_writer (logger_rw W) (\<lambda>lw. status (lw_inner lw))"
  by (rule embedded_writer [OF response_writer_axioms]) (simp_all add: rw_simps logger_WriteHeader_def)

end

interpretation logger_conn: response_writer "logger_rw conn_rw" "\<lambda>lw. conn_status (lw_inner lw)"
  by (rule server_rw.logger_writer)

text \<open>\<open>X-RateLimit-Remaining\<close> as the counters write it is read back.\<close>

lemma scan_digits_dec: "scan_digits acc s = n" if "dec_val acc s = Some n" for acc s n
  using that by (induction acc s rule: dec_val.induct) (auto split: option.splits)

lemma scan_int_Itoa: "in_i64 i \<Longrightarrow> 0 \<le> i \<Longrightarrow> scan_int (Itoa i) = i"
proof -
  assume i: "in_i64 i" "0 \<le> i"
  obtain d cs where d: "dec_nat (nat i) = digit_char d # cs" "d < 10" using dec_nat_head_digit by blast
  have "\<not> is_space (digit_char d)" using of_digit_char [OF d(2)] by (simp add: is_space_def)
  moreover have "scan_digits 0 (digit_char d # cs) = nat i"
    unfolding d(1) [symmetric] by (rule scan_digits_dec [OF dec_val_dec_nat])
  ultimately show ?thesis
    using i d by (simp add: scan_int_def Itoa_def dash_not_digit plus_not_digit)
qed

text \<open>The wrapper takes the last code the handler sets, the client gets the first: a handler that
  tries to answer again after 429 is logged as allowed.\<close>

lemma logger_last_code:
  "fst (snd (WithRequestLogger (\<lambda>s. 0) (\<lambda>e s. s) conn_rw
      (writes (logger_rw conn_rw) [SendHeader 429, SendHeader 200]) None (Some (\<lambda>e s. Some (le_Allowed e))) r new_conn None)) =
    new_conn\<lparr>cSent := Some (429, [])\<rparr> \<and>
   snd (snd (WithRequestLogger (\<lambda>s. 0) (\<lambda>e s. s) conn_rw
      (writes (logger_rw conn_rw) [SendHeader 429, SendHeader 200]) None (Some (\<lambda>e s. Some (le_Allowed e))) r new_conn None)) =
    Some True"
  by (simp add: WithRequestLogger_def writes_def rw_simps logger_WriteHeader_def new_conn_def)

subsection \<open>Sampling\<close>

text \<open>The rate is a finite float; \<open>rnd\<close> is the generator's \<open>Float64\<close>. The field \<open>KeyFunc\<close> is never
  used.\<close>

record ('w, 's) SamplingConfig =
  sa_Rate :: rat
  sa_KeyFunc :: "(req \<Rightarrow> string) option"
  sa_RejectedHandler :: "('w, 's) handler option"

definition defaultSamplingRejectedHandler :: "'w rwriter \<Rightarrow> ('w, 's) handler" where
  "defaultSamplingRejectedHandler W r w s = (r, WriteHeader W StatusTooManyRequests w, s)"

definition sampling_rate :: "('w, 's) SamplingConfig \<Rightarrow> rat" where
  "sampling_rate cfg =
     (let rate = (if sa_Rate cfg < 0 then 0 else sa_Rate cfg) in if rate > 1 then 1 else rate)"

definition WithRequestSampling ::
  "'w rwriter \<Rightarrow> ('s \<Rightarrow> rat \<times> 's) \<Rightarrow> ('w, 's) SamplingConfig \<Rightarrow> ('w, 's) handler \<Rightarrow> ('w, 's) handler" where
  "WithRequestSampling W rnd cfg next r w s =
     (let rejected = (case sa_RejectedHandler cfg of None \<Rightarrow> defaultSamplingRejectedHandler W | Some h \<Rightarrow> h);
          (x, s) = rnd s
      in if x < sampling_rate cfg then next r w s else rejected r w s)"

lemma sampling_rate_range: "0 \<le> sampling_rate cfg \<and> sampling_rate cfg \<le> 1"
  by (simp add: sampling_rate_def Let_def)

text \<open>For the same draw a higher rate lets through whatever a lower one does.\<close>

lemma sampling_monotone:
  "sa_Rate cfg \<le> sa_Rate cfg' \<Longrightarrow> sampling_rate cfg \<le> sampling_rate cfg'"
  by (simp add: sampling_rate_def Let_def)

text \<open>A draw lies in the half-open unit interval, so a rate of one or more lets every request
  through and a rate of zero or less none; a rejected one is answered 429.\<close>

theorem sampling_extremes:
  assumes "\<And>s. 0 \<le> fst (rnd s) \<and> fst (rnd s) < 1" and "sa_RejectedHandler cfg = None" and "cSent c = None"
  shows "(1 \<le> sa_Rate cfg \<longrightarrow> WithRequestSampling conn_rw rnd cfg next r c s = next r c (snd (rnd s))) \<and>
    (sa_Rate cfg \<le> 0 \<longrightarrow> (\<exists>c'. WithRequestSampling conn_rw rnd cfg next r c s = (r, c', snd (rnd s)) \<and>
       conn_status c' = Some 429))"
proof -
  obtain x s' where x: "rnd s = (x, s')" by force
  with assms(1) [of s] have "0 \<le> x" "x < 1" by simp_all
  with x assms(2,3) show ?thesis
    by (auto simp: WithRequestSampling_def sampling_rate_def defaultSamplingRejectedHandler_def rw_simps
        conn_status_def Let_def)
qed

theorem sampling_extremes_witness:
  "\<exists>c'. WithRequestSampling conn_rw (\<lambda>s. (1 / 2, s))
     \<lparr>sa_Rate = 0, sa_KeyFunc = None, sa_RejectedHandler = None\<rparr> (writes conn_rw [SendBody ''x''])
     (sample_req ''1.2.3.4:5'' ''/'' []) new_conn () = (sample_req ''1.2.3.4:5'' ''/'' [], c', ()) \<and>
   conn_status c' = Some 429"
  using sampling_extremes [of "\<lambda>s :: unit. (1 / 2, s)" "\<lparr>sa_Rate = 0, sa_KeyFunc = None, sa_RejectedHandler = None\<rparr>" new_conn
      "writes conn_rw [SendBody ''x'']" "sample_req ''1.2.3.4:5'' ''/'' []" "()"]
  by (simp add: new_conn_def)

end
