(* ===== verification/Metered.thy ===== *)
theory Metered
  imports RateLimiter Metrics Windows
begin

section \<open>A metered limiter, end to end\<close>

text \<open>
  The package's pieces put together as its users do: \<open>WithMetrics\<close> (\<open>src/metrics_middleware.go\<close>) around
  \<open>WithBurst\<close> (\<open>src/burst_middleware.go\<close>) around a handler, the counts kept by a \<open>MemoryStore\<close>
  (\<open>src/memory_store.go\<close>). Every answer is a list of calls on the wrapped writer, so the contract of
  \<open>metrics_rw\<close> gives the status the client sees and the one that is counted.
\<close>

definition metered ::
  "(conn metricsResponseWriter, MemoryStore) BurstConfig \<Rightarrow> wop list \<Rightarrow> gotime \<Rightarrow>
   (conn, Metrics \<times> MemoryStore) handler" where
  "metered cfg ops t =
     WithMetrics (WithBurst (metrics_rw conn_rw) (\<lambda>_. t) memory_store cfg (writes (metrics_rw conn_rw) ops))"

text \<open>The status of an answer that makes these calls.\<close>

definition sent_status :: "wop list \<Rightarrow> int" where
  "sent_status ops = (case fold (\<lambda>op st. wop_status st op) ops None of None \<Rightarrow> StatusOK | Some c \<Rightarrow> c)"

definition error_wops :: "string \<Rightarrow> int \<Rightarrow> wop list" where
  "error_wops msg code =
     [SetHeader ''Content-Type'' ''text/plain; charset=utf-8'',
      SetHeader ''X-Content-Type-Options'' ''nosniff'', SendHeader code, SendBody (msg @ [CHR 0x0A])]"

definition burst_wops :: "BurstCounter \<Rightarrow> int \<Rightarrow> wop list" where
  "burst_wops b remaining =
     [SetHeader ''X-RateLimit-Limit'' (Itoa (i64 (BurstCounter_Limit b + BurstCounter_Burst b))),
      SetHeader ''X-RateLimit-Remaining'' (Itoa remaining),
      SetHeader ''X-RateLimit-Burst'' (Itoa (BurstCounter_Burst b))]"

lemma http_Error_wops: "http_Error W msg code w = do_wops W (error_wops msg code) w"
  by (simp add: http_Error_def error_wops_def Let_def)

lemma sent_status_burst [simp]: "sent_status (burst_wops b rem @ ops) = sent_status ops"
  by (simp add: sent_status_def burst_wops_def)

lemma sent_status_error [simp]: "sent_status (error_wops msg code) = code"
  by (simp add: sent_status_def error_wops_def)

lemma good_burst_wops [simp]: "list_all good_wop (burst_wops b rem)"
  by (simp add: burst_wops_def)

subsection \<open>One request\<close>

text \<open>What the limiter writes, as calls on its writer.\<close>

lemma WithBurst_wops:
  assumes "bm_key cfg r = Inr key" and "bm_LimitExceeded cfg = None"
    and "burst_allow memory_store (bm_Counter cfg) key t s = (ok, s1)"
  shows "\<exists>rem. WithBurst W (\<lambda>_. t) memory_store cfg (writes W ops) r w s =
    (r, do_wops W (burst_wops (bm_Counter cfg) rem @
          (if ok then ops else error_wops ''rate limit exceeded'' StatusTooManyRequests)) w, s1)"
proof -
  obtain n s2 where "Increment memory_store t (burst_key (bm_Counter cfg) t key)
      (bc_window (bm_Counter cfg)) s = (Inr n, s2)" using memory_Increment_Inr by blast
  then obtain rem where "BurstCounter_Allow memory_store (bm_Counter cfg) t key s = ((ok, rem, None), s1)"
    using assms(3) by (auto simp: BurstCounter_Allow_def burst_allow_def Let_def split: if_splits)
  with assms(1,2) show ?thesis
    by (intro exI [of _ rem]) (simp add: WithBurst_def Let_def writes_def do_wops_append burst_wops_def
        defaultLimitExceededHandler_def http_Error_wops)
qed

text \<open>Around a handler that answers by a list of calls, the metrics count what the client gets.\<close>

lemma WithMetrics_wops:
  assumes "nxt r \<lparr>mw_inner = new_conn, mw_code = StatusOK, mw_wrote = False\<rparr> s =
      (r', do_wops (metrics_rw conn_rw) ops \<lparr>mw_inner = new_conn, mw_code = StatusOK, mw_wrote = False\<rparr>, s')"
    and "list_all good_wop ops"
  shows "\<exists>c. WithMetrics nxt r new_conn (m, s) =
      (r', c, (run_mops (if sent_status ops = 429 then recordBlocked else recordAllowed) m, s')) \<and>
    resp_code c = sent_status ops"
proof -
  let ?a = "\<lparr>mw_inner = new_conn, mw_code = 200, mw_wrote = False\<rparr>"
  let ?rw = "do_wops (metrics_rw conn_rw) ops ?a"
  have "conn_status (mw_inner ?rw) = fold (\<lambda>op st. wop_status st op) ops None"
    using metrics_conn.status_wops [OF assms(2), of ?a] by (simp add: conn_status_def new_conn_def)
  then have code: "resp_code (mw_inner ?rw) = sent_status ops"
    by (auto simp: resp_code_def sent_status_def conn_status_def split: option.splits)
  moreover have "mw_code ?rw = resp_code (mw_inner ?rw)"
    using metrics_code_sent [OF assms(2), of new_conn] by (simp add: new_conn_def)
  ultimately show ?thesis using assms(1) by (simp add: WithMetrics_def)
qed

lemma metered_step:
  assumes "bm_key cfg r = Inr key" and "bm_LimitExceeded cfg = None"
    and "burst_allow memory_store (bm_Counter cfg) key t s = (ok, s1)"
    and "list_all good_wop ops" and "sent_status ops \<noteq> 429"
  shows "\<exists>c. metered cfg ops t r new_conn (m, s) =
      (r, c, (run_mops (if ok then recordAllowed else recordBlocked) m, s1)) \<and>
    resp_code c = (if ok then sent_status ops else 429)"
proof -
  let ?W = "metrics_rw conn_rw" and ?a = "\<lparr>mw_inner = new_conn, mw_code = StatusOK, mw_wrote = False\<rparr>"
  let ?next = "WithBurst ?W (\<lambda>_. t) memory_store cfg (writes ?W ops)"
  obtain rem where run: "?next r ?a s =
    (r, do_wops ?W (burst_wops (bm_Counter cfg) rem @
          (if ok then ops else error_wops ''rate limit exceeded'' StatusTooManyRequests)) ?a, s1)"
    using WithBurst_wops [OF assms(1-3)] by blast
  have "list_all good_wop (burst_wops (bm_Counter cfg) rem @
      (if ok then ops else error_wops ''rate limit exceeded'' StatusTooManyRequests))"
    using assms(4) by (simp add: error_wops_def)
  with WithMetrics_wops [where nxt = ?next and m = m, OF run] assms(5) show ?thesis
    by (cases ok) (simp_all add: metered_def)
qed

subsection \<open>A sequence of requests\<close>

definition record_all :: "bool list \<Rightarrow> Metrics \<Rightarrow> Metrics" where
  "record_all oks m = fold (\<lambda>ok. run_mops (if ok then recordAllowed else recordBlocked)) oks m"

lemma metered_run_clients:
  assumes "\<forall>(t, r)\<in>List.set rs. bm_key cfg r = Inr (kf r)" and "bm_LimitExceeded cfg = None"
    and "list_all good_wop ops" and "sent_status ops \<noteq> 429"
    and "run_clients (burst_allow memory_store (bm_Counter cfg)) (map (\<lambda>(t, r). (t, kf r)) rs) s = (oks, s1)"
    and "serve_all (metered cfg ops) rs (m, s) = (cs, (m', s'))"
  shows "map resp_code cs = map (\<lambda>ok. if ok then sent_status ops else 429) oks \<and> m' = record_all oks m"
  using assms(1,5,6)
proof (induction rs arbitrary: m s cs oks)
  case (Cons tr rs)
  obtain t r where tr: "tr = (t, r)" by force
  obtain ok s2 where one: "burst_allow memory_store (bm_Counter cfg) (kf r) t s = (ok, s2)" by force
  obtain oks2 where oks: "oks = ok # oks2" and more: "run_clients (burst_allow memory_store (bm_Counter cfg))
      (map (\<lambda>(t, r). (t, kf r)) rs) s2 = (oks2, s1)"
    using Cons.prems(2) by (auto simp: tr one split: prod.splits)
  let ?m = "run_mops (if ok then recordAllowed else recordBlocked) m"
  obtain c where step: "metered cfg ops t r new_conn (m, s) = (r, c, (?m, s2))"
    and c: "resp_code c = (if ok then sent_status ops else 429)"
    using metered_step [OF _ assms(2) one assms(3,4)] Cons.prems(1) tr by fastforce
  obtain cs2 where cs: "cs = c # cs2" and rest: "serve_all (metered cfg ops) rs (?m, s2) = (cs2, (m', s'))"
    using Cons.prems(3) by (auto simp: tr step split: prod.splits)
  show ?case using Cons.IH [OF _ more rest] Cons.prems(1) by (simp add: oks cs c record_all_def)
qed (simp add: record_all_def)

lemma run_calls_clients: "run_calls (allow key) ts s = run_clients allow (map (\<lambda>t. (t, key)) ts) s"
  by (induction ts arbitrary: s) (simp_all split: prod.split)

lemma metered_run:
  assumes "\<forall>(t, r)\<in>List.set rs. bm_key cfg r = Inr key" and "bm_LimitExceeded cfg = None"
    and "list_all good_wop ops" and "sent_status ops \<noteq> 429"
    and "run_calls (burst_allow memory_store (bm_Counter cfg) key) (map fst rs) s = (oks, s1)"
    and "serve_all (metered cfg ops) rs (m, s) = (cs, (m', s'))"
  shows "map resp_code cs = map (\<lambda>ok. if ok then sent_status ops else 429) oks \<and> m' = record_all oks m"
  using metered_run_clients [of rs cfg "\<lambda>_. key", OF assms(1-4) _ assms(6)] assms(5)
  by (simp add: run_calls_clients comp_def split_def)

lemma record_all_counts:
  assumes "0 \<le> m_allowed m" and "0 \<le> m_blocked m" and "m_total m = m_allowed m + m_blocked m"
    and "m_total m + int (length oks) \<le> max_i64"
  shows "m_allowed (record_all oks m) = m_allowed m + int (length (filter id oks)) \<and>
    m_blocked (record_all oks m) = m_blocked m + int (length (filter Not oks)) \<and>
    m_total (record_all oks m) = m_total m + int (length oks)"
  using assms
proof (induction oks arbitrary: m)
  case (Cons ok oks)
  let ?m = "run_mops (if ok then recordAllowed else recordBlocked) m"
  have "m_allowed ?m = m_allowed m + (if ok then 1 else 0)" "m_blocked ?m = m_blocked m + (if ok then 0 else 1)"
    "m_total ?m = m_total m + 1"
    using Cons.prems by (simp_all add: run_mops_def recordAllowed_def recordBlocked_def i64_id)
  then show ?case using Cons.IH [of ?m] Cons.prems by (simp add: record_all_def)
qed (simp add: record_all_def)

lemma threshold_list:
  "map (\<lambda>i. int i < L) [0..<n] =
   replicate (min n (nat L)) True @ replicate (n - min n (nat L)) False"
  by (rule nth_equalityI) (auto simp: nth_append)

subsection \<open>Properties\<close>

text \<open>C5. With metrics around a burst limiter over the in-memory store, with a window of whole
  seconds, the default handler for refused requests and a key function that does not fail, around a
  handler that sends final status codes and does not answer 429, for any requests of any clients in
  sequence: a request gets the handler's status exactly when fewer than limit + burst requests before it
  were of the same client and window, and 429 otherwise; the metrics hold how many of each there
  were.\<close>

theorem metered_burst_all_clients:
  assumes "\<forall>(t, r)\<in>List.set rs. bm_key cfg r = Inr (kf r)" and "bm_LimitExceeded cfg = None"
    and "whole_seconds (bc_window (bm_Counter cfg))"
    and "0 \<le> bc_limit (bm_Counter cfg) + bc_burst (bm_Counter cfg)"
    and "bc_limit (bm_Counter cfg) + bc_burst (bm_Counter cfg) \<le> max_i64" and "int (length rs) \<le> max_i64"
    and "list_all good_wop ops" and "sent_status ops \<noteq> 429"
    and "serve_all (metered cfg ops) rs (new_metrics, NewMemoryStore) = (cs, (m, s'))"
    and "oks = window_verdicts (bc_limit (bm_Counter cfg) + bc_burst (bm_Counter cfg)) (bc_window (bm_Counter cfg))
      (map (\<lambda>(t, r). (t, kf r)) rs)"
  shows "map resp_code cs = map (\<lambda>ok. if ok then sent_status ops else 429) oks \<and>
    Metrics_Allowed m = int (length (filter id oks)) \<and> Metrics_Blocked m = int (length (filter Not oks)) \<and>
    Metrics_Total m = int (length rs)"
proof -
  obtain oks' s1 where run: "run_clients (burst_allow memory_store (bm_Counter cfg)) (map (\<lambda>(t, r). (t, kf r)) rs)
      NewMemoryStore = (oks', s1)" by force
  have "oks' = oks"
    using mem_exact.burst_verdicts [of NewMemoryStore "bm_Counter cfg" "map (\<lambda>(t, r). (t, kf r)) rs"] assms(3-6,10)
      whole_seconds_pos [OF assms(3)] run by (simp add: mem_live_def NewMemoryStore_def)
  moreover have "length oks = length rs" by (simp add: assms(10) window_verdicts_def)
  ultimately show ?thesis
    using metered_run_clients [OF assms(1,2,7,8) run assms(9)] record_all_counts [of new_metrics oks] assms(6)
    by (simp add: new_metrics_def Metrics_Allowed_def Metrics_Blocked_def Metrics_Total_def)
qed

theorem metered_burst_all_clients_witness:
  "\<exists>cs m s'. serve_all (metered \<lparr>bm_Counter = NewBurstCounter 1 0 second, bm_KeyFunc = Some (\<lambda>r. Inr (RemoteAddr r)),
       bm_LimitExceeded = None\<rparr> [SendHeader 201])
     [(unix_epoch, sample_req ''a'' ''/'' []), (unix_epoch, sample_req ''b'' ''/'' []),
      (unix_epoch + 1, sample_req ''a'' ''/'' []), (unix_epoch + second, sample_req ''a'' ''/'' [])]
     (new_metrics, NewMemoryStore) = (cs, (m, s')) \<and> map resp_code cs = [201, 201, 429, 201] \<and> Metrics_Blocked m = 1"
proof -
  let ?cfg = "\<lparr>bm_Counter = NewBurstCounter 1 0 second, bm_KeyFunc = Some (\<lambda>r. Inr (RemoteAddr r)),
      bm_LimitExceeded = None\<rparr> :: (conn metricsResponseWriter, MemoryStore) BurstConfig"
    and ?rs = "[(unix_epoch, sample_req ''a'' ''/'' []), (unix_epoch, sample_req ''b'' ''/'' []),
      (unix_epoch + 1, sample_req ''a'' ''/'' []), (unix_epoch + second, sample_req ''a'' ''/'' [])]"
  obtain cs m s' where run: "serve_all (metered ?cfg [SendHeader 201]) ?rs (new_metrics, NewMemoryStore) = (cs, (m, s'))"
    by (metis surj_pair)
  have "map resp_code cs = [201, 201, 429, 201] \<and> Metrics_Blocked m = 1"
    using metered_burst_all_clients [OF _ _ _ _ _ _ _ _ run refl, of RemoteAddr]
    by (simp add: NewBurstCounter_def bm_key_def whole_seconds_def window_verdicts_def same_window_def
        Time_Truncate_def unix_epoch_def upt_rec sample_req_def sent_status_def)
  with run show ?thesis by (intro exI [of _ cs] exI [of _ m] exI [of _ s']) simp
qed

text \<open>Of one client in one window, whatever its length, a client's requests of one
  window are answered by the handler as long as the limit and the burst allow it, then by 429, and
  the metrics say exactly how many of each there were.\<close>

theorem metered_burst_end_to_end:
  assumes "\<forall>(t, r)\<in>List.set rs. in_window (bm_Counter cfg) wst t \<and> bm_key cfg r = Inr key"
    and "bm_LimitExceeded cfg = None" and "mem_live wst s (window_key key wst) = None"
    and "int (length rs) \<le> max_i64"
    and "0 \<le> bc_limit (bm_Counter cfg) + bc_burst (bm_Counter cfg)"
    and "bc_limit (bm_Counter cfg) + bc_burst (bm_Counter cfg) \<le> max_i64"
    and "list_all good_wop ops" and "sent_status ops \<noteq> 429"
    and "serve_all (metered cfg ops) rs (new_metrics, s) = (cs, (m, s'))"
    and "k = min (length rs) (nat (bc_limit (bm_Counter cfg) + bc_burst (bm_Counter cfg)))"
  shows "map resp_code cs = replicate k (sent_status ops) @ replicate (length rs - k) 429 \<and>
    Metrics_Allowed m = int k \<and> Metrics_Blocked m = int (length rs - k) \<and>
    Metrics_Total m = int (length rs)"
proof -
  let ?b = "bm_Counter cfg"
  obtain oks s1 where run: "run_calls (burst_allow memory_store ?b key) (map fst rs) s = (oks, s1)" by force
  have "oks = map (\<lambda>i. int i < bc_limit ?b + bc_burst ?b) [0..<length rs]"
    using burst_memory_exact [of "map fst rs" ?b wst s key] assms(1,3-6) run by fastforce
  then have oks: "oks = replicate k True @ replicate (length rs - k) False"
    by (simp only: threshold_list assms(10))
  have "k \<le> length rs" by (simp add: assms(10))
  with oks have "m_allowed (record_all oks new_metrics) = int k \<and>
      m_blocked (record_all oks new_metrics) = int (length rs - k) \<and>
      m_total (record_all oks new_metrics) = int (length rs)"
    using record_all_counts [of new_metrics oks] assms(4) by (simp add: new_metrics_def)
  moreover have "map resp_code cs = map (\<lambda>ok. if ok then sent_status ops else 429) oks \<and>
      m = record_all oks new_metrics"
    using metered_run [OF _ assms(2,7,8) run assms(9)] assms(1) by fastforce
  ultimately show ?thesis
    by (simp add: oks Metrics_Allowed_def Metrics_Blocked_def Metrics_Total_def)
qed

theorem metered_burst_end_to_end_witness:
  "\<exists>cs m s'. serve_all (metered \<lparr>bm_Counter = NewBurstCounter 2 1 second, bm_KeyFunc = None, bm_LimitExceeded = None\<rparr>
        [SendHeader 201, SendBody ''ok'']) (replicate 5 (unix_epoch, sample_req ''10.0.0.1:80'' ''/'' []))
        (new_metrics, NewMemoryStore) = (cs, (m, s')) \<and>
     map resp_code cs = [201, 201, 201, 429, 429] \<and> Metrics_Blocked m = 2"
proof -
  let ?cfg = "\<lparr>bm_Counter = NewBurstCounter 2 1 second, bm_KeyFunc = None, bm_LimitExceeded = None\<rparr>"
    and ?rs = "replicate 5 (unix_epoch, sample_req ''10.0.0.1:80'' ''/'' [])"
    and ?ops = "[SendHeader 201, SendBody ''ok'']"
  obtain cs m s' where run: "serve_all (metered ?cfg ?ops) ?rs (new_metrics, NewMemoryStore) = (cs, (m, s'))"
    by (metis surj_pair)
  have "map resp_code cs = replicate 3 (sent_status ?ops) @ replicate (length ?rs - 3) 429 \<and>
      Metrics_Allowed m = int 3 \<and> Metrics_Blocked m = int (length ?rs - 3) \<and> Metrics_Total m = int (length ?rs)"
    by (rule metered_burst_end_to_end [OF _ _ _ _ _ _ _ _ run,
          where wst = unix_epoch and key = "defaultKeyFunc (sample_req ''10.0.0.1:80'' ''/'' [])"])
      (simp_all add: NewBurstCounter_def in_window_def Time_Truncate_def bm_key_def mem_live_def
        NewMemoryStore_def unix_epoch_def sent_status_def)
  with run show ?thesis by (simp add: sent_status_def numeral_eq_Suc)
qed

end
