(* ===== verification/Guarded.thy ===== *)
theory Guarded
  imports Breaker Metered
begin

section \<open>A limiter behind a circuit breaker\<close>

text \<open>
  \<open>WithCircuitBreakerMiddleware\<close> (\<open>src/circuit_breaker_middleware.go\<close>) around \<open>WithBurst\<close>
  (\<open>src/burst_middleware.go\<close>) over a \<open>MemoryStore\<close> (\<open>src/memory_store.go\<close>), as the comment of the former
  shows it. One breaker counts the refusals of all clients. The two refine a machine that has a
  window counter per client and a guard of three states; from it follows what a client that floods the
  service does to the others.
\<close>

definition guarded ::
  "(conn circuitBreakerResponseWriter, MemoryStore) BurstConfig \<Rightarrow> wop list \<Rightarrow> gotime \<Rightarrow>
   (conn, CircuitBreaker \<times> MemoryStore) handler" where
  "guarded cfg ops t =
     WithCircuitBreakerMiddleware conn_rw (\<lambda>_. t)
       (WithBurst (breaker_rw conn_rw) (\<lambda>_. t) memory_store cfg (writes (breaker_rw conn_rw) ops))"

subsection \<open>The abstract machine\<close>

datatype guard = GClosed int | GOpen gotime | GHalf

definition guard_now :: "duration \<Rightarrow> gotime \<Rightarrow> guard \<Rightarrow> guard" where
  "guard_now d t g = (case g of GOpen u \<Rightarrow> if d \<le> t - u then GHalf else g | _ \<Rightarrow> g)"

definition guard_after :: "int \<Rightarrow> gotime \<Rightarrow> bool \<Rightarrow> guard \<Rightarrow> guard" where
  "guard_after th t ok g =
     (if ok then GClosed 0
      else case g of GClosed n \<Rightarrow> if th \<le> n + 1 then GOpen t else GClosed (n + 1) | _ \<Rightarrow> g)"

text \<open>A call is shut out (\<open>None\<close>), or the window counter admits or refuses it.\<close>

definition guarded_step ::
  "int \<Rightarrow> duration \<Rightarrow> int \<Rightarrow> duration \<Rightarrow> string \<Rightarrow> gotime \<Rightarrow> guard \<times> (string \<times> gotime \<Rightarrow> int) \<Rightarrow>
   bool option \<times> guard \<times> (string \<times> gotime \<Rightarrow> int)" where
  "guarded_step L w th d key t p =
     (case p of (g, cnt) \<Rightarrow>
        (case guard_now d t g of
           GOpen u \<Rightarrow> (None, (GOpen u, cnt))
         | g' \<Rightarrow> (case window_step L w key t cnt of (ok, cnt') \<Rightarrow> (Some ok, (guard_after th t ok g', cnt')))))"

definition guarded_code :: "wop list \<Rightarrow> bool option \<Rightarrow> int" where
  "guarded_code ops v = (case v of None \<Rightarrow> 503 | Some ok \<Rightarrow> if ok then sent_status ops else 429)"

fun guard_rel :: "CircuitBreaker \<Rightarrow> guard \<Rightarrow> bool" where
  "guard_rel cb (GClosed n) \<longleftrightarrow> cb_state cb = CircuitClosed \<and> cb_failures cb = n \<and> 0 \<le> n \<and> n < cb_threshold cb"
| "guard_rel cb (GOpen u) \<longleftrightarrow> cb_state cb = CircuitOpen \<and> cb_lastFailureTime cb = u"
| "guard_rel cb GHalf \<longleftrightarrow> cb_state cb = CircuitHalfOpen"

definition breaker_range :: "CircuitBreaker \<Rightarrow> bool" where
  "breaker_range cb \<longleftrightarrow> 1 \<le> cb_threshold cb \<and> cb_threshold cb \<le> max_i64 \<and>
     min_i64 < cb_resetAfter cb \<and> cb_resetAfter cb \<le> max_i64"

lemma guard_State:
  assumes "guard_rel cb g" and "breaker_range cb" and "CircuitBreaker_State t cb = (st, cb1)"
  shows "guard_rel cb1 (guard_now (cb_resetAfter cb) t g) \<and> st = cb_state cb1 \<and>
    cb_resetAfter cb1 = cb_resetAfter cb \<and> cb_threshold cb1 = cb_threshold cb"
  using assms
  by (cases g) (auto simp: State_open breaker_range_def guard_now_def CircuitBreaker_State_def currentState_def
      Let_def Time_Sub_ge_iff split: if_splits)

lemma guard_record:
  assumes "guard_rel cb g" and "breaker_range cb" and "\<And>u. g \<noteq> GOpen u"
  shows "guard_rel (if ok then RecordAllowed cb else RecordBlocked t cb) (guard_after (cb_threshold cb) t ok g)"
  using assms
  by (cases g) (auto simp: guard_after_def RecordAllowed_def RecordBlocked_def Let_def i64_id breaker_range_def)

subsection \<open>One request\<close>

lemma breaker_code:
  "cbw_statusCode (do_wops (breaker_rw W) ops rw) =
   fold (\<lambda>op c. case op of SendHeader c' \<Rightarrow> c' | _ \<Rightarrow> c) ops (cbw_statusCode rw)"
proof (induction ops arbitrary: rw)
  case (Cons op ops)
  then show ?case
    by (cases op) (simp_all add: do_wops_def rw_simps circuitBreaker_WriteHeader_def rw_set_def)
qed (simp add: do_wops_def)

lemma last_code_not:
  "SendHeader x \<notin> set ops \<Longrightarrow> c \<noteq> x \<Longrightarrow> fold (\<lambda>op c. case op of SendHeader c' \<Rightarrow> c' | _ \<Rightarrow> c) ops c \<noteq> x"
proof (induction ops arbitrary: c)
  case (Cons op ops)
  show ?case
  proof (cases op)
    case (SendHeader y)
    with Cons.IH [of y] Cons.prems show ?thesis by simp
  qed (use Cons.IH [of c] Cons.prems in simp_all)
qed simp

lemma breaker_sent:
  assumes "list_all good_wop ops"
  shows "resp_code (cbw_inner (do_wops (breaker_rw conn_rw) ops \<lparr>cbw_inner = new_conn, cbw_statusCode = c\<rparr>)) =
    sent_status ops"
  using breaker_conn.status_wops [OF assms, of "\<lparr>cbw_inner = new_conn, cbw_statusCode = c\<rparr>"]
  by (auto simp: conn_status_def new_conn_def resp_code_def sent_status_def split: option.splits)

lemma shut_out_code:
  "resp_code (http_Error conn_rw msg 503 (rw_set conn_rw k v new_conn)) = 503"
  by (simp add: conn_http_Error new_conn_def rw_set_def rw_simps Let_def resp_code_def)

definition guarded_rel ::
  "BurstCounter \<Rightarrow> int \<Rightarrow> duration \<Rightarrow> CircuitBreaker \<times> MemoryStore \<Rightarrow> guard \<times> (string \<times> gotime \<Rightarrow> int) \<Rightarrow> bool" where
  "guarded_rel b th d p a \<longleftrightarrow> guard_rel (fst p) (fst a) \<and> breaker_range (fst p) \<and>
     cb_threshold (fst p) = th \<and> cb_resetAfter (fst p) = d \<and> mem_exact.burst_rel b (snd p) (snd a)"

lemma guarded_simulates:
  assumes rel: "guarded_rel (bm_Counter cfg) th d (cb, s) (g, cnt)"
    and key: "bm_key cfg r = Inr key" and exc: "bm_LimitExceeded cfg = None"
    and ops: "list_all good_wop ops" "SendHeader 429 \<notin> set ops"
    and w: "whole_seconds (bc_window (bm_Counter cfg))"
    and lim: "0 \<le> bc_limit (bm_Counter cfg) + bc_burst (bm_Counter cfg)"
      "bc_limit (bm_Counter cfg) + bc_burst (bm_Counter cfg) \<le> max_i64"
    and small: "cnt (key, Time_Truncate t (bc_window (bm_Counter cfg))) < max_i64"
    and run: "guarded cfg ops t r new_conn (cb, s) = (r', c, p')"
    and abs: "guarded_step (bc_limit (bm_Counter cfg) + bc_burst (bm_Counter cfg)) (bc_window (bm_Counter cfg))
      th d key t (g, cnt) = (v, a')"
  shows "resp_code c = guarded_code ops v \<and> guarded_rel (bm_Counter cfg) th d p' a'"
proof -
  let ?b = "bm_Counter cfg" and ?w0 = "\<lparr>cbw_inner = new_conn, cbw_statusCode = StatusOK\<rparr>"
  obtain st cb1 where st: "CircuitBreaker_State t cb = (st, cb1)" by force
  have g: "guard_rel cb g" "breaker_range cb" "cb_threshold cb = th" "cb_resetAfter cb = d"
    and brel: "mem_exact.burst_rel ?b s cnt"
    using rel by (auto simp: guarded_rel_def)
  define g1 where "g1 = guard_now d t g"
  have g1: "guard_rel cb1 g1" "st = cb_state cb1" "cb_threshold cb1 = th" "cb_resetAfter cb1 = d" "breaker_range cb1"
    using guard_State [OF g(1,2) st] g by (auto simp: g1_def breaker_range_def)
  show ?thesis
  proof (cases "\<exists>u. g1 = GOpen u")
    case True
    then obtain u where u: "g1 = GOpen u" ..
    then have "st = CircuitOpen" using g1 by simp
    then have "resp_code c = 503" "p' = (cb1, s)"
      using run shut_out_code by (auto simp: guarded_def WithCircuitBreakerMiddleware_def st)
    moreover have "v = None" "a' = (g1, cnt)" using abs u by (simp_all add: guarded_step_def g1_def [symmetric])
    ultimately show ?thesis using g1 brel by (simp add: guarded_code_def guarded_rel_def)
  next
    case False
    then have st': "st \<noteq> CircuitOpen" using g1(1,2) by (cases g1) auto
    obtain ok s1 where one: "burst_allow memory_store ?b key t s = (ok, s1)" by force
    obtain ok' cnt1 where step: "window_step (bc_limit ?b + bc_burst ?b) (bc_window ?b) key t cnt = (ok', cnt1)"
      by force
    have same: "ok' = ok" "mem_exact.burst_rel ?b s1 cnt1"
      using mem_exact.burst_simulates [OF brel w _ small lim one step] whole_seconds_pos [OF w] by auto
    have abs': "v = Some ok" "a' = (guard_after th t ok g1, cnt1)"
      using abs False step same by (auto simp: guarded_step_def g1_def [symmetric] split: guard.splits)
    obtain rem where next_run: "WithBurst (breaker_rw conn_rw) (\<lambda>_. t) memory_store cfg
        (writes (breaker_rw conn_rw) ops) r ?w0 s =
      (r, do_wops (breaker_rw conn_rw) (burst_wops ?b rem @
          (if ok then ops else error_wops ''rate limit exceeded'' StatusTooManyRequests)) ?w0, s1)"
      using WithBurst_wops [OF key exc one] by blast
    let ?ops = "burst_wops ?b rem @ (if ok then ops else error_wops ''rate limit exceeded'' StatusTooManyRequests)"
    have good: "list_all good_wop ?ops" using ops(1) by (simp add: error_wops_def)
    have code: "cbw_statusCode (do_wops (breaker_rw conn_rw) ?ops ?w0) = 429 \<longleftrightarrow> \<not> ok"
      using last_code_not [OF ops(2), of 200] unfolding breaker_code
      by (simp add: burst_wops_def error_wops_def)
    have "resp_code c = sent_status ?ops" and p': "p' = (if ok then RecordAllowed cb1 else RecordBlocked t cb1, s1)"
      using run st' code breaker_sent [OF good]
      by (auto simp: guarded_def WithCircuitBreakerMiddleware_def st next_run)
    then have "resp_code c = guarded_code ops v" by (simp add: abs' guarded_code_def)
    moreover have "guard_rel (if ok then RecordAllowed cb1 else RecordBlocked t cb1) (guard_after th t ok g1)"
      using guard_record [OF g1(1,5)] False g1(3) by blast
    ultimately show ?thesis
      using g1(3-5) same(2) by (auto simp: p' abs' guarded_rel_def breaker_range_def)
  qed
qed

subsection \<open>A sequence of requests\<close>

lemma guarded_run:
  assumes "guarded_rel (bm_Counter cfg) th d p a"
    and "\<forall>(t, r)\<in>set rs. bm_key cfg r = Inr (kf r)" and "bm_LimitExceeded cfg = None"
    and "list_all good_wop ops" and "SendHeader 429 \<notin> set ops"
    and "whole_seconds (bc_window (bm_Counter cfg))"
    and "0 \<le> bc_limit (bm_Counter cfg) + bc_burst (bm_Counter cfg)"
    and "bc_limit (bm_Counter cfg) + bc_burst (bm_Counter cfg) \<le> max_i64"
    and "\<forall>i. snd a i + int (length rs) \<le> max_i64"
    and "serve_all (guarded cfg ops) rs p = (cs, p1)"
    and "run_clients (guarded_step (bc_limit (bm_Counter cfg) + bc_burst (bm_Counter cfg))
      (bc_window (bm_Counter cfg)) th d) (map (\<lambda>(t, r). (t, kf r)) rs) a = (vs, a1)"
  shows "map resp_code cs = map (guarded_code ops) vs \<and> guarded_rel (bm_Counter cfg) th d p1 a1"
  using assms(1,2,9,10,11)
proof (induction rs arbitrary: p a cs vs)
  case (Cons tr rs)
  let ?abs = "guarded_step (bc_limit (bm_Counter cfg) + bc_burst (bm_Counter cfg)) (bc_window (bm_Counter cfg)) th d"
  obtain t r cb s g cnt where sel: "tr = (t, r)" "p = (cb, s)" "a = (g, cnt)" by (metis surj_pair)
  obtain r' c p' where run: "guarded cfg ops t r new_conn (cb, s) = (r', c, p')" by (metis surj_pair)
  obtain v g' cnt' where abs: "?abs (kf r) t (g, cnt) = (v, (g', cnt'))" by (metis surj_pair)
  have all: "cnt i + (1 + int (length rs)) \<le> max_i64" for i
    using Cons.prems(3) [rule_format, of i] sel by simp
  have "cnt (kf r, Time_Truncate t (bc_window (bm_Counter cfg))) < max_i64"
    using all [of "(kf r, Time_Truncate t (bc_window (bm_Counter cfg)))"] by linarith
  from guarded_simulates [OF _ _ assms(3-8) this run abs]
  have step: "resp_code c = guarded_code ops v" "guarded_rel (bm_Counter cfg) th d p' (g', cnt')"
    using Cons.prems(1,2) sel by auto
  have "cnt' i \<le> cnt i + 1" for i
    using abs by (auto simp: guarded_step_def window_step_def Let_def split: guard.splits)
  then have small: "\<forall>i. snd (g', cnt') i + int (length rs) \<le> max_i64" using all by (smt (verit) snd_conv)
  obtain cs' where cs: "cs = c # cs'" "serve_all (guarded cfg ops) rs p' = (cs', p1)"
    using Cons.prems(4) by (auto simp: sel run split: prod.splits)
  obtain vs' where vs: "vs = v # vs'" "run_clients ?abs (map (\<lambda>(t, r). (t, kf r)) rs) (g', cnt') = (vs', a1)"
    using Cons.prems(5) by (auto simp: sel abs split: prod.splits)
  from Cons.IH [OF step(2) _ small cs(2) vs(2)] Cons.prems(2) step(1) show ?case
    by (simp add: cs(1) vs(1))
qed simp

text \<open>From a new breaker and an empty store.\<close>

lemma guarded_new_run:
  assumes "\<forall>(t, r)\<in>set rs. bm_key cfg r = Inr (kf r)" and "bm_LimitExceeded cfg = None"
    and "list_all good_wop ops" and "SendHeader 429 \<notin> set ops"
    and "whole_seconds (bc_window (bm_Counter cfg))"
    and "0 \<le> bc_limit (bm_Counter cfg) + bc_burst (bm_Counter cfg)"
    and "bc_limit (bm_Counter cfg) + bc_burst (bm_Counter cfg) \<le> max_i64" and "int (length rs) \<le> max_i64"
    and "1 \<le> th" and "th \<le> max_i64" and "0 \<le> d" and "d \<le> max_i64"
    and "serve_all (guarded cfg ops) rs (NewCircuitBreaker [WithTripThreshold th, WithResetAfter d], NewMemoryStore) =
      (cs, p)"
    and "run_clients (guarded_step (bc_limit (bm_Counter cfg) + bc_burst (bm_Counter cfg))
      (bc_window (bm_Counter cfg)) th d) (map (\<lambda>(t, r). (t, kf r)) rs) (GClosed 0, \<lambda>_. 0) = (vs, a)"
  shows "map resp_code cs = map (guarded_code ops) vs \<and> guarded_rel (bm_Counter cfg) th d p a"
proof (rule guarded_run [OF _ assms(1-7)])
  have "mem_exact.burst_rel (bm_Counter cfg) NewMemoryStore (\<lambda>_. 0)"
    by (rule mem_exact.burst_rel_fresh) (simp_all add: mem_live_def NewMemoryStore_def)
  then show "guarded_rel (bm_Counter cfg) th d
      (NewCircuitBreaker [WithTripThreshold th, WithResetAfter d], NewMemoryStore) (GClosed 0, \<lambda>_. 0)"
    using assms(9-12) by (simp add: guarded_rel_def breaker_range_def NewCircuitBreaker_def WithTripThreshold_def
        WithResetAfter_def)
qed (use assms(8,13,14) in simp_all)

subsection \<open>A client that floods the service\<close>

lemma run_clients_append:
  "run_clients allow (cs @ ds) s =
     (case run_clients allow cs s of (us, s1) \<Rightarrow> case run_clients allow ds s1 of (vs, s2) \<Rightarrow> (us @ vs, s2))"
  by (induction cs arbitrary: s) (auto split: prod.splits)

lemma step_admitted: "cnt (key, Time_Truncate t w) < L \<Longrightarrow> guarded_step L w th d key t (GClosed n, cnt) =
    (Some True, GClosed 0, cnt((key, Time_Truncate t w) := cnt (key, Time_Truncate t w) + 1))"
  by (simp add: guarded_step_def guard_now_def guard_after_def window_step_def Let_def)

lemma step_refused: "L \<le> cnt (key, Time_Truncate t w) \<Longrightarrow> guarded_step L w th d key t (GClosed n, cnt) =
    (Some False, if th \<le> n + 1 then GOpen t else GClosed (n + 1),
     cnt((key, Time_Truncate t w) := cnt (key, Time_Truncate t w) + 1))"
  by (simp add: guarded_step_def guard_now_def guard_after_def window_step_def Let_def)

lemma flood_admitted:
  assumes "\<forall>(t, k)\<in>set cs. k = key \<and> Time_Truncate t w = wst" and "cnt (key, wst) + int (length cs) \<le> L"
  shows "run_clients (guarded_step L w th d) cs (GClosed 0, cnt) =
    (replicate (length cs) (Some True), GClosed 0, cnt((key, wst) := cnt (key, wst) + int (length cs)))"
  using assms
proof (induction cs arbitrary: cnt)
  case (Cons c cs)
  obtain t where c: "c = (t, key)" "Time_Truncate t w = wst" using Cons.prems(1) by (cases c) auto
  show ?case
    using Cons.IH [of "cnt((key, wst) := cnt (key, wst) + 1)"] Cons.prems
    by (simp add: c step_admitted fun_upd_def algebra_simps cong: if_cong)
qed simp

lemma flood_refused:
  assumes "\<forall>(t, k)\<in>set cs. k = key \<and> Time_Truncate t w = wst" and "L \<le> cnt (key, wst)"
    and "cs \<noteq> []" and "n + int (length cs) = th"
  shows "run_clients (guarded_step L w th d) cs (GClosed n, cnt) =
    (replicate (length cs) (Some False), GOpen (fst (last cs)), cnt((key, wst) := cnt (key, wst) + int (length cs)))"
  using assms
proof (induction cs arbitrary: n cnt)
  case (Cons c cs)
  obtain t where c: "c = (t, key)" "Time_Truncate t w = wst" using Cons.prems(1) by (cases c) auto
  show ?case
  proof (cases "cs = []")
    case True
    with Cons.prems show ?thesis
      by (simp add: c step_refused fun_upd_def)
  next
    case False
    then have "\<not> th \<le> n + 1" using Cons.prems(4) by (cases cs) auto
    with False show ?thesis
      using Cons.IH [of "cnt((key, wst) := cnt (key, wst) + 1)" "n + 1"] Cons.prems
      by (simp add: c step_refused fun_upd_def algebra_simps cong: if_cong)
  qed
qed simp

text \<open>A breaker that is open shuts out every request, and neither it nor the store changes.\<close>

lemma shut_out:
  assumes "cb_state cb = CircuitOpen" and "breaker_range cb" and "t - cb_lastFailureTime cb < cb_resetAfter cb"
  shows "\<exists>c. guarded cfg ops t r new_conn (cb, s) = (r, c, (cb, s)) \<and> resp_code c = 503"
  using assms shut_out_code by (simp add: guarded_def WithCircuitBreakerMiddleware_def State_open breaker_range_def)

lemma flood_shut:
  assumes "guarded_rel b th d p (GOpen u, cnt)" and "\<forall>(t, r)\<in>set rs. t - u < d"
  shows "\<exists>cs. serve_all (guarded cfg ops) rs p = (cs, p) \<and> map resp_code cs = replicate (length rs) 503"
  using assms(2)
proof (induction rs)
  case (Cons tr rs)
  obtain t r cb s where sel: "tr = (t, r)" "p = (cb, s)" by (metis surj_pair)
  obtain c where c: "guarded cfg ops t r new_conn p = (r, c, p)" "resp_code c = 503"
    using shut_out [of cb t cfg ops r s] assms(1) Cons.prems by (auto simp: sel guarded_rel_def)
  from Cons.IH Cons.prems obtain cs where "serve_all (guarded cfg ops) rs p = (cs, p)"
    "map resp_code cs = replicate (length rs) 503" by auto
  with c show ?case by (simp add: sel(1))
qed simp

lemma serve_all_append:
  assumes "serve_all h rs p = (cs, p1)" and "serve_all h rs' p1 = (cs', p2)"
  shows "serve_all h (rs @ rs') p = (cs @ cs', p2)"
  using assms by (induction rs arbitrary: p cs) (auto split: prod.splits)

lemma flood_run:
  assumes "\<forall>(t, k)\<in>set cs. k = key \<and> Time_Truncate t w = wst" and "int (length cs) = L + th"
    and "0 \<le> L" and "1 \<le> th"
  shows "\<exists>cnt. run_clients (guarded_step L w th d) cs (GClosed 0, \<lambda>_. 0) =
    (replicate (nat L) (Some True) @ replicate (nat th) (Some False), GOpen (fst (last cs)), cnt)"
proof -
  let ?a = "take (nat L) cs" and ?b = "drop (nat L) cs"
  have len: "length ?a = nat L" "length ?b = nat th" using assms(2-4) by (simp_all add: nat_eq_iff)
  then have th: "0 + int (length ?b) = th" using assms(4) by simp
  have b: "?b \<noteq> []" "last ?b = last cs" using len(2) assms(2-4) by auto
  have ta: "\<forall>(t, k)\<in>set ?a. k = key \<and> Time_Truncate t w = wst" and
    tb: "\<forall>(t, k)\<in>set ?b. k = key \<and> Time_Truncate t w = wst"
    using assms(1) by (auto dest: in_set_takeD in_set_dropD)
  let ?c1 = "(\<lambda>_. 0)((key, wst) := L)"
  have one: "run_clients (guarded_step L w th d) ?a (GClosed 0, \<lambda>_. 0) =
      (replicate (nat L) (Some True), GClosed 0, ?c1)"
    using flood_admitted [OF ta, of "\<lambda>_. 0" L th d] assms(3) len(1) by simp
  have two: "run_clients (guarded_step L w th d) ?b (GClosed 0, ?c1) =
      (replicate (nat th) (Some False), GOpen (fst (last cs)), ?c1((key, wst) := L + th))"
    using flood_refused [OF tb _ b(1) th, of L ?c1 d] th unfolding b(2) len(2) by simp
  have "run_clients (guarded_step L w th d) (?a @ ?b) (GClosed 0, \<lambda>_. 0) =
      (replicate (nat L) (Some True) @ replicate (nat th) (Some False),
       GOpen (fst (last cs)), ?c1((key, wst) := L + th))"
    by (simp only: run_clients_append one two prod.case)
  then show ?thesis by auto
qed

subsection \<open>Properties\<close>

text \<open>C6. With a circuit breaker (threshold at least one, reset time not negative) around a burst
  limiter over the in-memory store, with a window of whole seconds, the default handler for refused
  requests and a key function that does not fail, around a handler that sends final status codes and
  never sends 429: for any requests of any clients, one after another, every request gets the status the
  abstract machine gives, which has a count per client and window and one guard, closed, open or half
  open, for all clients.\<close>

theorem guarded_burst_refines:
  assumes "\<forall>(t, r)\<in>set rs. bm_key cfg r = Inr (kf r)" and "bm_LimitExceeded cfg = None"
    and "list_all good_wop ops" and "SendHeader 429 \<notin> set ops"
    and "whole_seconds (bc_window (bm_Counter cfg))"
    and "0 \<le> bc_limit (bm_Counter cfg) + bc_burst (bm_Counter cfg)"
    and "bc_limit (bm_Counter cfg) + bc_burst (bm_Counter cfg) \<le> max_i64" and "int (length rs) \<le> max_i64"
    and "1 \<le> th" and "th \<le> max_i64" and "0 \<le> d" and "d \<le> max_i64"
    and "serve_all (guarded cfg ops) rs (NewCircuitBreaker [WithTripThreshold th, WithResetAfter d], NewMemoryStore) =
      (cs, p)"
    and "run_clients (guarded_step (bc_limit (bm_Counter cfg) + bc_burst (bm_Counter cfg))
      (bc_window (bm_Counter cfg)) th d) (map (\<lambda>(t, r). (t, kf r)) rs) (GClosed 0, \<lambda>_. 0) = (vs, a)"
  shows "map resp_code cs = map (\<lambda>v. case v of None \<Rightarrow> 503 | Some ok \<Rightarrow> if ok then sent_status ops else 429) vs"
  using guarded_new_run [OF assms] by (simp add: guarded_code_def)

text \<open>Limit 1, threshold 2, reset after a second: the third request of a second trips the breaker; a
  second later it is half open, and an admitted request closes it.\<close>

theorem guarded_burst_refines_witness:
  "\<exists>cs p. serve_all (guarded \<lparr>bm_Counter = NewBurstCounter 1 0 second, bm_KeyFunc = Some (\<lambda>r. Inr (RemoteAddr r)),
       bm_LimitExceeded = None\<rparr> [SendHeader 201])
     [(unix_epoch, sample_req ''a'' ''/'' []), (unix_epoch + 1, sample_req ''a'' ''/'' []),
      (unix_epoch + 2, sample_req ''a'' ''/'' []), (unix_epoch + 3, sample_req ''b'' ''/'' []),
      (unix_epoch + second + 2, sample_req ''b'' ''/'' []), (unix_epoch + second + 2, sample_req ''b'' ''/'' []),
      (unix_epoch + second + 3, sample_req ''a'' ''/'' [])]
     (NewCircuitBreaker [WithTripThreshold 2, WithResetAfter second], NewMemoryStore) = (cs, p) \<and>
    map resp_code cs = [201, 429, 429, 503, 201, 429, 201]"
proof -
  let ?cfg = "\<lparr>bm_Counter = NewBurstCounter 1 0 second, bm_KeyFunc = Some (\<lambda>r. Inr (RemoteAddr r)),
      bm_LimitExceeded = None\<rparr> :: (conn circuitBreakerResponseWriter, MemoryStore) BurstConfig"
    and ?rs = "[(unix_epoch, sample_req ''a'' ''/'' []), (unix_epoch + 1, sample_req ''a'' ''/'' []),
      (unix_epoch + 2, sample_req ''a'' ''/'' []), (unix_epoch + 3, sample_req ''b'' ''/'' []),
      (unix_epoch + second + 2, sample_req ''b'' ''/'' []), (unix_epoch + second + 2, sample_req ''b'' ''/'' []),
      (unix_epoch + second + 3, sample_req ''a'' ''/'' [])]"
  let ?p0 = "(NewCircuitBreaker [WithTripThreshold 2, WithResetAfter second], NewMemoryStore)"
    and ?step = "guarded_step 1 second 2 second" and ?calls = "map (\<lambda>(t, r). (t, RemoteAddr r)) ?rs"
  obtain cs p where run: "serve_all (guarded ?cfg [SendHeader 201]) ?rs ?p0 = (cs, p)" by (metis surj_pair)
  obtain vs a where abs: "run_clients ?step ?calls (GClosed 0, \<lambda>_. 0) = (vs, a)" by (metis surj_pair)
  have "fst (run_clients ?step ?calls (GClosed 0, \<lambda>_. 0)) =
      [Some True, Some False, Some False, None, Some True, Some False, Some True]"
    by (simp add: guarded_step_def guard_now_def guard_after_def window_step_def Time_Truncate_def unix_epoch_def
        sample_req_def)
  then have vs: "vs = [Some True, Some False, Some False, None, Some True, Some False, Some True]"
    by (simp only: abs fst_conv)
  have "map resp_code cs = map (\<lambda>v. case v of None \<Rightarrow> 503 | Some ok \<Rightarrow> if ok then sent_status [SendHeader 201] else 429) vs"
    by (rule guarded_burst_refines [OF _ _ _ _ _ _ _ _ _ _ _ _ run, where kf = RemoteAddr and a = a])
      (use abs in \<open>simp_all add: NewBurstCounter_def bm_key_def whole_seconds_def\<close>)
  with run vs show ?thesis by (simp add: sent_status_def)
qed

text \<open>C7. One client can shut out all others. A burst limiter over the in-memory store, with a
  window of whole seconds, the default handler for refused requests, a key function that does not fail
  and a handler that sends final status codes and never 429, stands behind a new circuit breaker, over
  an empty store. When the first requests are all of one client, all in one window, as many as its
  limit, its burst and the breaker's threshold together, with no request of another client between them,
  then the requests up to limit and burst reach the handler, the others are refused, and every request
  of any client that comes less than the reset time after the last of them is answered 503 and is not
  counted: the breaker and the store stay as the flood left them.\<close>

theorem guarded_flood_denies_all:
  assumes "\<forall>(t, r)\<in>set (flood @ others). bm_key cfg r = Inr (kf r)" and "bm_LimitExceeded cfg = None"
    and "list_all good_wop ops" and "SendHeader 429 \<notin> set ops"
    and "whole_seconds (bc_window (bm_Counter cfg))"
    and "0 \<le> bc_limit (bm_Counter cfg) + bc_burst (bm_Counter cfg)"
    and "bc_limit (bm_Counter cfg) + bc_burst (bm_Counter cfg) \<le> max_i64"
    and "int (length flood) \<le> max_i64"
    and "1 \<le> th" and "th \<le> max_i64" and "0 \<le> d" and "d \<le> max_i64"
    and "\<forall>(t, r)\<in>set flood. kf r = key \<and> Time_Truncate t (bc_window (bm_Counter cfg)) = wst"
    and "int (length flood) = bc_limit (bm_Counter cfg) + bc_burst (bm_Counter cfg) + th"
    and "\<forall>(t, r)\<in>set others. t - fst (last flood) < d"
    and "serve_all (guarded cfg ops) flood
      (NewCircuitBreaker [WithTripThreshold th, WithResetAfter d], NewMemoryStore) = (cs, p)"
    and "serve_all (guarded cfg ops) (flood @ others)
      (NewCircuitBreaker [WithTripThreshold th, WithResetAfter d], NewMemoryStore) = (cs', p')"
  shows "map resp_code cs = replicate (nat (bc_limit (bm_Counter cfg) + bc_burst (bm_Counter cfg))) (sent_status ops) @
      replicate (nat th) 429 \<and>
    map resp_code cs' = map resp_code cs @ replicate (length others) 503 \<and> p' = p"
proof -
  let ?f = "\<lambda>(t, r). (t, kf r)" and ?L = "bc_limit (bm_Counter cfg) + bc_burst (bm_Counter cfg)"
  have "flood \<noteq> []" using assms(6,9,14) by auto
  then have last: "fst (last (map ?f flood)) = fst (last flood)" by (simp add: last_map case_prod_beta)
  have "\<exists>cnt. run_clients (guarded_step ?L (bc_window (bm_Counter cfg)) th d) (map ?f flood) (GClosed 0, \<lambda>_. 0) =
    (replicate (nat ?L) (Some True) @ replicate (nat th) (Some False), GOpen (fst (last (map ?f flood))), cnt)"
    by (rule flood_run [where key = key and wst = wst]) (use assms(6,9,13,14) in auto)
  then obtain cnt where run: "run_clients (guarded_step ?L (bc_window (bm_Counter cfg)) th d) (map ?f flood)
      (GClosed 0, \<lambda>_. 0) = (replicate (nat ?L) (Some True) @ replicate (nat th) (Some False),
      GOpen (fst (last flood)), cnt)" unfolding last ..
  have keys: "\<forall>(t, r)\<in>set flood. bm_key cfg r = Inr (kf r)" using assms(1) by auto
  from guarded_new_run [OF keys assms(2-12,16) run]
  have codes: "map resp_code cs = replicate (nat ?L) (sent_status ops) @ replicate (nat th) 429"
    and rel: "guarded_rel (bm_Counter cfg) th d p (GOpen (fst (last flood)), cnt)"
    by (simp_all add: guarded_code_def)
  from flood_shut [OF rel assms(15)] obtain ds where "serve_all (guarded cfg ops) others p = (ds, p)"
    "map resp_code ds = replicate (length others) 503" by blast
  with serve_all_append [OF assms(16) this(1)] assms(17) codes show ?thesis by simp
qed

text \<open>Three requests of one client, and the next ones, of clients that have sent none, are refused.\<close>

theorem guarded_flood_denies_all_witness:
  "\<exists>cs p. serve_all (guarded \<lparr>bm_Counter = NewBurstCounter 1 0 second, bm_KeyFunc = Some (\<lambda>r. Inr (RemoteAddr r)),
       bm_LimitExceeded = None\<rparr> [SendHeader 201])
     (replicate 3 (unix_epoch, sample_req ''a'' ''/'' []) @
      [(unix_epoch + second, sample_req ''b'' ''/'' []), (unix_epoch + 29 * second, sample_req ''c'' ''/'' [])])
     (NewCircuitBreaker [WithTripThreshold 2, WithResetAfter (30 * second)], NewMemoryStore) = (cs, p) \<and>
    map resp_code cs = [201, 429, 429, 503, 503]"
proof -
  let ?cfg = "\<lparr>bm_Counter = NewBurstCounter 1 0 second, bm_KeyFunc = Some (\<lambda>r. Inr (RemoteAddr r)),
      bm_LimitExceeded = None\<rparr> :: (conn circuitBreakerResponseWriter, MemoryStore) BurstConfig"
    and ?flood = "replicate 3 (unix_epoch, sample_req ''a'' ''/'' [])"
    and ?others = "[(unix_epoch + second, sample_req ''b'' ''/'' []), (unix_epoch + 29 * second, sample_req ''c'' ''/'' [])]"
    and ?p0 = "(NewCircuitBreaker [WithTripThreshold 2, WithResetAfter (30 * second)], NewMemoryStore)"
  obtain cs1 p1 where flood: "serve_all (guarded ?cfg [SendHeader 201]) ?flood ?p0 = (cs1, p1)"
    by (metis surj_pair)
  obtain cs p where run: "serve_all (guarded ?cfg [SendHeader 201]) (?flood @ ?others) ?p0 = (cs, p)"
    by (metis surj_pair)
  have "map resp_code cs1 = replicate (nat (bc_limit (bm_Counter ?cfg) + bc_burst (bm_Counter ?cfg)))
      (sent_status [SendHeader 201]) @ replicate (nat 2) 429 \<and>
    map resp_code cs = map resp_code cs1 @ replicate (length ?others) 503 \<and> p = p1"
    by (rule guarded_flood_denies_all [OF _ _ _ _ _ _ _ _ _ _ _ _ _ _ _ flood run,
          where kf = RemoteAddr and key = "''a''" and wst = unix_epoch])
      (simp_all add: NewBurstCounter_def bm_key_def whole_seconds_def sample_req_def Time_Truncate_def unix_epoch_def)
  with run show ?thesis by (simp add: NewBurstCounter_def sent_status_def numeral_eq_Suc)
qed

end
