(* ===== verification/FixedWindows.thy ===== *)
theory FixedWindows
  imports Windows FixedWindow
begin

section \<open>What a fixed window counter computes\<close>

text \<open>
  \<open>src/fixed_window.go\<close> over a Redis that answers simulates the machine of \<open>Windows\<close>: with a window of
  whole seconds its verdicts for any number of clients are those of \<open>src/burst.go\<close> with the same
  window and the same number of calls, though the two keep their keys alive differently (EXPIREAT at
  the end of the window here, EXPIRE from each call there). For the fixed window no bound on the
  limit is needed, as its guard does not add anything to it.
\<close>

lemma fw_key_apart:
  assumes "whole_seconds w"
    and "fw_key key (Time_Truncate t w) = fw_key key' (Time_Truncate t' w)"
  shows "key = key' \<and> Time_Truncate t w = Time_Truncate t' w"
  using assms(2) window_starts_apart [OF assms(1), of t t'] by (simp add: fw_key_def colon_key_inject)

context reliable_redis
begin

definition fixed_rel :: "FixedWindowCounter \<Rightarrow> 'a \<Rightarrow> (string \<times> gotime \<Rightarrow> int) \<Rightarrow> bool" where
  "fixed_rel f r cnt \<longleftrightarrow> up r \<and>
     (\<forall>key t. let wst = Time_Truncate t (fw_window f)
              in fw_inv f wst (fw_key key wst) (keys r) \<and> fw_cnt (fw_key key wst) (keys r) = cnt (key, wst))"

lemma fixed_rel_fresh: "up r \<Longrightarrow> keys r = Map.empty \<Longrightarrow> fixed_rel f r (\<lambda>_. 0)"
  by (simp add: fixed_rel_def fw_inv_def fw_cnt_def)

lemma fixed_simulates:
  assumes rel: "fixed_rel f r cnt" and w: "whole_seconds (fw_window f)"
    and small: "cnt (key, Time_Truncate t (fw_window f)) < max_i64"
    and run: "fw_allow R f key t r = (ok, r')"
    and abs: "window_step (fw_max f) (fw_window f) key t cnt = (ok', cnt')"
  shows "ok = ok' \<and> fixed_rel f r' cnt'"
proof -
  let ?wst = "Time_Truncate t (fw_window f)" let ?k = "fw_key key ?wst"
  let ?cs = "fw_pipe ?k (?wst + fw_window f)"
  have here: "fw_inv f ?wst ?k (keys r)" "fw_cnt ?k (keys r) = cnt (key, ?wst)" and up: "up r"
    using rel by (auto simp: fixed_rel_def Let_def)
  have eff: "spec_cmds t ?cs (keys r) = ([RepInt (cnt (key, ?wst) + 1), RepInt 1],
      (keys r)(?k \<mapsto> (VInt (cnt (key, ?wst) + 1), Some (?wst + fw_window f))))"
    using fw_pipe_effect [of f ?wst t ?k "keys r"] w here small by (simp add: fw_in_window_def)
  obtain e rs r1 where ex: "Exec R t ?cs r = ((e, rs), r1)" by (metis surj_pair)
  note after = exec_up [OF up ex, unfolded eff, simplified]
  have pos: "0 \<le> cnt (key, ?wst)" using here by (auto simp: fw_inv_def fw_cnt_def)
  have res: "r' = r1" "ok \<longleftrightarrow> cnt (key, ?wst) < fw_max f"
    using run ex after by (auto simp: fw_allow_def FixedWindowCounter_Allow_def Let_def fw_pipe_def redis_simps split: if_splits)
  have "fw_inv f (Time_Truncate t' (fw_window f)) (fw_key key' (Time_Truncate t' (fw_window f))) (keys r1) \<and>
      fw_cnt (fw_key key' (Time_Truncate t' (fw_window f))) (keys r1) = cnt' (key', Time_Truncate t' (fw_window f))"
    for key' t'
  proof (cases "(key', Time_Truncate t' (fw_window f)) = (key, ?wst)")
    case True
    with abs after pos show ?thesis by (auto simp: window_step_def Let_def fw_inv_def fw_cnt_def)
  next
    case False
    then have "fw_key key' (Time_Truncate t' (fw_window f)) \<noteq> ?k"
      using fw_key_apart [OF w, of key' t' key t] by auto
    with False abs after rel show ?thesis
      by (auto simp: window_step_def Let_def fixed_rel_def fw_inv_def fw_cnt_def)
  qed
  with res after abs show ?thesis by (auto simp: fixed_rel_def window_step_def Let_def)
qed

lemma fixed_verdicts:
  assumes "up r" and "keys r = Map.empty" and "whole_seconds (fw_window f)" and "int (length cs) \<le> max_i64"
  shows "fst (run_clients (fw_allow R f) cs r) = window_verdicts (fw_max f) (fw_window f) cs"
proof (rule run_clients_verdicts [where rel = "fixed_rel f"])
  show "ok = ok' \<and> fixed_rel f r' cnt'" if "fixed_rel f r cnt" "cnt (key, Time_Truncate t (fw_window f)) < max_i64"
      "fw_allow R f key t r = (ok, r')"
      "window_step (fw_max f) (fw_window f) key t cnt = (ok', cnt')" for r cnt key t ok r' ok' cnt'
    using fixed_simulates [OF that(1) assms(3) that(2-4)] .
qed (use fixed_rel_fresh [OF assms(1,2)] assms(4) in simp_all)

end

subsection \<open>Properties\<close>

text \<open>C8. For any calls of any number of clients at any times, a FixedWindowCounter with a window of
  whole seconds over a Redis that answers admits exactly the calls before which fewer than max
  calls were of the same client and window, and so does a BurstCounter with that window and
  limit + burst equal to max, over either store.\<close>

theorem fixed_window_exact_all_clients:
  assumes "reliable_redis R keys up" and "up r" and "keys r = Map.empty"
    and "whole_seconds (fw_window f)" and "int (length cs) \<le> max_i64"
    and "0 \<le> fw_max f" and "fw_max f \<le> max_i64"
    and "bc_window b = fw_window f" and "bc_limit b + bc_burst b = fw_max f"
  shows "fst (run_clients (fw_allow R f) cs r) = window_verdicts (fw_max f) (fw_window f) cs \<and>
    fst (run_clients (burst_allow (redis_store R) b) cs r) = fst (run_clients (fw_allow R f) cs r) \<and>
    fst (run_clients (burst_allow memory_store b) cs NewMemoryStore) = fst (run_clients (fw_allow R f) cs r)"
  using reliable_redis.fixed_verdicts [OF assms(1-5)]
    reliable_redis.redis_burst_verdicts [OF assms(1-3), of b cs] mem_burst_verdicts [of b cs] assms(4-9)
  by simp

text \<open>Two clients, two windows, out of order.\<close>

theorem fixed_window_exact_all_clients_witness:
  "fst (run_clients (fw_allow ref_client (NewFixedWindowCounter second 2))
      [(unix_epoch + 5, ''a''), (unix_epoch, ''b''), (unix_epoch + 7, ''a''), (unix_epoch + second, ''a''),
       (unix_epoch + 6, ''a''), (unix_epoch + 9, ''b'')] new_redis) = [True, True, True, True, False, True]"
proof -
  let ?f = "NewFixedWindowCounter second 2"
  have run: "fst (run_clients (fw_allow ref_client ?f) cs new_redis) = window_verdicts 2 second cs"
    if "int (length cs) \<le> max_i64" for cs
    using fixed_window_exact_all_clients [OF ref_up.reliable_redis_axioms, of new_redis ?f cs "NewBurstCounter 1 1 second"] that
    by (simp add: new_redis_def NewBurstCounter_def NewFixedWindowCounter_def whole_seconds_def)
  show ?thesis
    by (subst run) (simp_all add: window_verdicts_def same_window_def Time_Truncate_def unix_epoch_def upt_rec)
qed

end
