(* ===== verification/SlidingWindows.thy ===== *)
theory SlidingWindows
  imports Windows SlidingWindow
begin

section \<open>What a sliding window counter computes\<close>

text \<open>
  \<open>src/sliding_window.go\<close> over a Redis that answers, against a reference definition that keeps no sets
  and no deadlines: a call is admitted when fewer than max calls of its client, admitted or not, lie in
  the window before it. Windows are compared in milliseconds, as the scores are. The calls of one
  client come at increasing times, those of different clients may come at the same time.
\<close>

definition recent_call :: "duration \<Rightarrow> gotime \<times> string \<Rightarrow> gotime \<times> string \<Rightarrow> bool" where
  "recent_call w c d \<longleftrightarrow> snd d = snd c \<and> in_sliding w (fst c) (fst d)"

definition sliding_verdicts :: "int \<Rightarrow> duration \<Rightarrow> (gotime \<times> string) list \<Rightarrow> bool list" where
  "sliding_verdicts mx w cs =
     map (\<lambda>i. int (length (filter (recent_call w (cs ! i)) (take i cs))) < mx) [0..<length cs]"

definition call_before :: "gotime \<times> string \<Rightarrow> gotime \<times> string \<Rightarrow> bool" where
  "call_before c d \<longleftrightarrow> fst c \<le> fst d \<and> (snd c = snd d \<longrightarrow> fst c < fst d)"

text \<open>The members the past calls of a client have left, as a call at \<open>t\<close> finds them after its clean-up.\<close>

definition sw_members :: "duration \<Rightarrow> gotime \<Rightarrow> string \<Rightarrow> (gotime \<times> string) list \<Rightarrow> (string \<times> rat) list" where
  "sw_members w t k past = map (\<lambda>(u, _). (sw_member u, sw_score u)) (filter (recent_call w (t, k)) past)"

definition sw_clean :: "duration \<Rightarrow> gotime \<Rightarrow> (string \<times> rat) list \<Rightarrow> (string \<times> rat) list" where
  "sw_clean w t z = filter (\<lambda>(_, s). \<not> (0 \<le> s \<and> s \<le> of_int (Time_UnixMilli (t - w)))) z"

definition sw_rel :: "duration \<Rightarrow> gotime \<Rightarrow> (gotime \<times> string) list \<Rightarrow> kv \<Rightarrow> bool" where
  "sw_rel w prev past m \<longleftrightarrow> (\<forall>(u, k)\<in>set past. sw_time u \<and> u \<le> prev) \<and>
     (\<forall>t k. prev \<le> t \<longrightarrow> (\<exists>z d. zset_at t m k = Some (z, d) \<and> sw_clean w t z = sw_members w t k past))"

lemma sw_rel_fresh: "sw_rel w prev [] Map.empty"
  by (simp add: sw_rel_def zset_at_def kv_at_def sw_clean_def sw_members_def)

lemma sw_rel_later: "sw_rel w prev past m \<Longrightarrow> prev \<le> t \<Longrightarrow> sw_rel w t past m"
  by (fastforce simp: sw_rel_def)

lemma sw_clean_one:
  assumes "sw_time u"
  shows "sw_clean w t [(sw_member u, sw_score u)] = (if in_sliding w t u then [(sw_member u, sw_score u)] else [])"
proof -
  have "0 \<le> Time_UnixMilli u" using assms by (simp add: sw_time_def Time_UnixMilli_def pos_imp_zdiv_nonneg_iff)
  then show ?thesis using assms by (auto simp: sw_clean_def in_sliding_def sw_score_exact)
qed

lemma sw_clean_append [simp]: "sw_clean w t (z @ z') = sw_clean w t z @ sw_clean w t z'"
  by (simp add: sw_clean_def)

lemma sw_clean_members:
  assumes "\<forall>(u, k)\<in>set past. sw_time u" and "t \<le> t'"
  shows "sw_clean w t' (sw_members w t k past) = sw_members w t' k past"
  using assms(1)
proof (induction past)
  case (Cons c past)
  obtain u k' where c: "c = (u, k')" by force
  have u: "sw_time u" using Cons.prems c by simp
  have IH: "sw_clean w t' (sw_members w t k past) = sw_members w t' k past" using Cons by simp
  have split: "sw_members w v k (c # past) = sw_members w v k [c] @ sw_members w v k past" for v
    by (simp add: sw_members_def)
  have "sw_clean w t' (sw_members w t k [c]) = sw_members w t' k [c]"
    using sw_clean_one [OF u, of w t'] in_sliding_earlier [OF _ assms(2), of w u]
    by (auto simp: sw_members_def recent_call_def c sw_clean_def split: if_splits)
  then show ?case by (simp only: split [of t] split [of t'] sw_clean_append IH)
qed (simp add: sw_members_def sw_clean_def)

text \<open>The set after a call.\<close>

lemma sw_after_members:
  assumes rel: "sw_rel w prev past m" and t: "prev \<le> t" "sw_time t"
    and new: "\<forall>(u, k)\<in>set past. k = key \<longrightarrow> u < t" and z: "zset_at t m key = Some (z, d)"
  shows "sw_after t w z = sw_members w t key past @ [(sw_member t, sw_score t)]"
proof -
  have clean: "sw_clean w t z = sw_members w t key past"
    using rel t(1) z unfolding sw_rel_def by (metis option.inject prod.inject)
  have "x \<noteq> sw_member t" if "(x, s) \<in> set (sw_members w t key past)" for x s
    using that rel new t(2) sw_member_inject
    by (fastforce simp: sw_members_def recent_call_def sw_rel_def)
  then have "filter (\<lambda>(x, _). x \<noteq> sw_member t) (sw_members w t key past) = sw_members w t key past"
    by (intro filter_True) auto
  with clean show ?thesis by (simp add: sw_after_def zadd_def sw_clean_def)
qed

lemma sw_members_other: "k \<noteq> key \<Longrightarrow> sw_members w t k (past @ [(u, key)]) = sw_members w t k past"
  by (simp add: sw_members_def recent_call_def)

lemma sw_members_self: "sw_time u \<Longrightarrow> sw_members w t key (past @ [(u, key)]) =
    sw_members w t key past @ sw_clean w t [(sw_member u, sw_score u)]"
  by (simp add: sw_clean_one) (simp add: sw_members_def recent_call_def)

lemma sw_rel_step:
  assumes rel: "sw_rel w prev past m" and t: "prev \<le> t" "sw_time t" and w: "sw_window w"
    and new: "\<forall>(u, k)\<in>set past. k = key \<longrightarrow> u < t" and z: "zset_at t m key = Some (z, d)"
    and m': "m' = m(key \<mapsto> (VZSet (sw_after t w z), Some (t + format_sec (i64 (w + second)) * second)))"
  shows "sw_rel w t (past @ [(t, key)]) m'"
proof -
  have past: "\<forall>(u, k)\<in>set past. sw_time u" and le: "\<forall>(u, k)\<in>set past. u \<le> t"
    using rel t(1) by (auto simp: sw_rel_def)
  let ?z = "sw_members w t key past @ [(sw_member t, sw_score t)]"
  have "\<exists>z d. zset_at t' m' k = Some (z, d) \<and> sw_clean w t' z = sw_members w t' k (past @ [(t, key)])"
    if t': "t \<le> t'" for t' k
  proof (cases "k = key")
    case False
    then have "zset_at t' m' k = zset_at t' m k" by (simp add: m' zset_at_def redis_simps)
    with False rel t(1) t' show ?thesis by (simp add: sw_members_other sw_rel_def)
  next
    case True
    show ?thesis
    proof (cases "t' \<le> t + format_sec (i64 (w + second)) * second")
      case alive: True
      have "zset_at t' m' k = Some (?z, Some (t + format_sec (i64 (w + second)) * second))"
        using alive True sw_after_members [OF rel t new z] by (simp add: m' zset_at_def redis_simps zset_of_def)
      moreover have "sw_clean w t' ?z = sw_members w t' k (past @ [(t, key)])"
        using True by (simp add: sw_clean_members [OF past t'] sw_members_self [OF t(2)])
      ultimately show ?thesis by blast
    next
      case dead: False
      have "\<not> in_sliding w t' u" if "u \<le> t" for u
        using in_sliding_after [of w t' u] sw_lifetime [OF w] dead that by linarith
      then have "sw_members w t' k (past @ [(t, key)]) = []"
        using le by (auto simp: sw_members_def recent_call_def filter_empty_conv)
      moreover have "zset_at t' m' k = Some ([], None)"
        using dead True by (simp add: m' zset_at_def redis_simps)
      ultimately show ?thesis by (simp add: sw_clean_def)
    qed
  qed
  moreover have "\<forall>(u, k)\<in>set (past @ [(t, key)]). sw_time u \<and> u \<le> t" using past le t(2) by auto
  ultimately show ?thesis by (simp add: sw_rel_def)
qed

context reliable_redis
begin

lemma sliding_simulates:
  assumes up: "up r" and rel: "sw_rel w prev past (keys r)" and t: "prev \<le> t" "sw_time t"
    and w: "sw_window w" and new: "\<forall>(u, k)\<in>set past. k = key \<longrightarrow> u < t"
    and run: "sw_allow R key mx w t r = (ok, r')"
  shows "(ok \<longleftrightarrow> int (length (filter (recent_call w (t, key)) past)) < mx) \<and>
    up r' \<and> sw_rel w t (past @ [(t, key)]) (keys r')"
proof -
  obtain z d where z: "zset_at t (keys r) key = Some (z, d)"
    using rel t(1) unfolding sw_rel_def by blast
  obtain a b where pipe: "spec_cmds t (sw_pipe key t w) (keys r) =
      ([RepInt a, RepInt b, RepInt (int (length (sw_after t w z))), RepInt 1],
       (keys r)(key \<mapsto> (VZSet (sw_after t w z), Some (t + format_sec (i64 (w + second)) * second))))"
    using sw_pipe_effect [OF z w] .
  obtain e rs r1 where ex: "Exec R t (sw_pipe key t w) r = ((e, rs), r1)" by (metis surj_pair)
  note after = exec_up [OF up ex, unfolded pipe, simplified]
  have len: "length (sw_after t w z) = length (filter (recent_call w (t, key)) past) + 1"
    using sw_after_members [OF rel t new z] by (simp add: sw_members_def)
  have "r' = r1 \<and> (ok \<longleftrightarrow> int (length (filter (recent_call w (t, key)) past)) < mx)"
    using run ex after len
    by (auto simp: sw_allow_def SlidingWindowCounter_Allow_def Let_def reply2_def redis_simps split: if_splits)
  then show ?thesis using after sw_rel_step [OF rel t w new z] by simp
qed

lemma sliding_run:
  assumes "up r" and "sw_rel w prev past (keys r)" and "\<forall>(t, k)\<in>set cs. prev \<le> t \<and> sw_time t"
    and "sw_window w" and "sorted_wrt call_before (past @ cs)"
  shows "fst (run_clients (\<lambda>key. sw_allow R key mx w) cs r) =
    map (\<lambda>i. int (length (filter (recent_call w (cs ! i)) (past @ take i cs))) < mx) [0..<length cs]"
  using assms
proof (induction cs arbitrary: r prev past)
  case (Cons c cs)
  obtain t key where c: "c = (t, key)" by force
  obtain ok r1 where one: "sw_allow R key mx w t r = (ok, r1)" by force
  have t: "prev \<le> t" "sw_time t" using Cons.prems(3) c by auto
  have new: "\<forall>(u, k)\<in>set past. k = key \<longrightarrow> u < t"
    using Cons.prems(5) c by (auto simp: sorted_wrt_append call_before_def)
  have le: "\<forall>(u, k)\<in>set cs. t \<le> u \<and> sw_time u"
    using Cons.prems(3,5) c by (fastforce simp: sorted_wrt_append call_before_def)
  have step: "ok \<longleftrightarrow> int (length (filter (recent_call w (t, key)) past)) < mx" "up r1"
      "sw_rel w t (past @ [c]) (keys r1)"
    using sliding_simulates [OF Cons.prems(1,2) t Cons.prems(4) new one] c by auto
  have "sorted_wrt call_before ((past @ [c]) @ cs)" using Cons.prems(5) by simp
  from Cons.IH [OF step(2,3) le Cons.prems(4) this] show ?case
    by (simp add: c one step(1) case_prod_beta upt_conv_Cons map_Suc_upt [symmetric] comp_def del: upt_Suc)
qed simp

lemma sliding_verdicts_run:
  assumes "up r" and "keys r = Map.empty" and "\<forall>(t, k)\<in>set cs. sw_time t" and "sw_window w"
    and "sorted_wrt call_before cs"
  shows "fst (run_clients (\<lambda>key. sw_allow R key mx w) cs r) = sliding_verdicts mx w cs"
proof -
  have "\<forall>(t, k)\<in>set cs. unix_epoch \<le> t \<and> sw_time t" using assms(3) by (auto simp: sw_time_def)
  from sliding_run [OF assms(1) _ this assms(4), of "[]" mx] show ?thesis
    using assms(2,5) sw_rel_fresh by (simp add: sliding_verdicts_def)
qed

end

subsection \<open>A client that does not stop\<close>

lemma length_filter_suffix:
  "\<forall>x\<in>set ys. P x \<Longrightarrow> length ys \<le> length (filter P (xs @ ys))"
  by simp

text \<open>Calls at a fixed distance, so close that more than max of them are in a window.\<close>

definition steady :: "gotime \<Rightarrow> duration \<Rightarrow> string \<Rightarrow> nat \<Rightarrow> (gotime \<times> string) list" where
  "steady t d key n = map (\<lambda>i. (t + int i * d, key)) [0..<n]"

lemma steady_take: "i \<le> n \<Longrightarrow> take i (steady t d key n) = steady t d key i"
  by (simp add: steady_def take_map)

lemma steady_ordered: "0 < d \<Longrightarrow> sorted_wrt call_before (steady t d key n)"
  by (auto simp: steady_def sorted_wrt_iff_nth_less call_before_def intro: mult_right_mono)

lemma steady_recent:
  assumes "0 < d" and "int m * d + millisecond \<le> w" and "i < k" and "k \<le> i + m"
  shows "recent_call w (t + int k * d, key) (t + int i * d, key)"
proof -
  have "int k * d \<le> (int i + int m) * d" using assms(1,4) by (intro mult_right_mono) auto
  then have "t + int k * d - w - unix_epoch + millisecond \<le> t + int i * d - unix_epoch"
    using assms(2) by (simp add: distrib_right)
  then have "(t + int k * d - w - unix_epoch) div millisecond + 1 \<le> (t + int i * d - unix_epoch) div millisecond"
    using zdiv_mono1 [of "t + int k * d - w - unix_epoch + 1 * millisecond" _ millisecond] by simp
  then show ?thesis by (simp add: recent_call_def in_sliding_def Time_UnixMilli_def)
qed

lemma steady_verdicts:
  assumes "0 < d" and "mx * d + millisecond \<le> w"
  shows "sliding_verdicts mx w (steady t d key n) = map (\<lambda>i. int i < mx) [0..<n]"
proof -
  have all: "int (length (filter (recent_call w (t + int k * d, key)) (steady t d key k))) < mx \<longleftrightarrow> int k < mx" for k
  proof (cases "int k < mx")
    case True
    then show ?thesis
      using length_filter_le [of "recent_call w (t + int k * d, key)" "steady t d key k"]
      by (simp add: steady_def)
  next
    case False
    define m where "m = nat mx"
    have mk: "m \<le> k" and small: "0 < mx \<Longrightarrow> int m * d + millisecond \<le> w" using False assms(2) by (auto simp: m_def)
    have "steady t d key k = steady t d key (k - m) @ map (\<lambda>i. (t + int i * d, key)) [k - m..<k]"
      using mk upt_add_eq_append [of 0 "k - m" m] by (simp add: steady_def)
    moreover have "m \<le> length (filter (recent_call w (t + int k * d, key)) (steady t d key (k - m) @
        map (\<lambda>i. (t + int i * d, key)) [k - m..<k]))"
    proof (cases "0 < mx")
      case True
      have "\<forall>x\<in>set (map (\<lambda>i. (t + int i * d, key)) [k - m..<k]). recent_call w (t + int k * d, key) x"
        using steady_recent [OF assms(1) small [OF True]] mk by auto
      from length_filter_suffix [OF this] mk show ?thesis by simp
    qed (simp add: m_def)
    ultimately show ?thesis using False by (simp add: m_def)
  qed
  have "length (steady t d key n) = n" and "k < n \<Longrightarrow> steady t d key n ! k = (t + int k * d, key)" for k
    by (simp_all add: steady_def)
  then show ?thesis unfolding sliding_verdicts_def by (intro map_cong) (simp_all add: steady_take all)
qed

subsection \<open>Properties\<close>

text \<open>C9. For calls of any number of clients in the order of their times, each client's at
  strictly increasing nanoseconds, a SlidingWindowCounter over a Redis that answers and holds no keys
  yet admits exactly the calls before which fewer than max calls of the same client, admitted or not,
  lie in the window, in milliseconds.\<close>

theorem sliding_window_exact_all_clients:
  assumes "reliable_redis R keys up" and "up r" and "keys r = Map.empty"
    and "\<forall>(t, k)\<in>set cs. sw_time t" and "sw_window w" and "sorted_wrt call_before cs"
  shows "fst (run_clients (\<lambda>key. sw_allow R key mx w) cs r) = sliding_verdicts mx w cs"
  by (rule reliable_redis.sliding_verdicts_run [OF assms])

theorem sliding_window_exact_all_clients_witness:
  "fst (run_clients (\<lambda>key. sw_allow ref_client key 1 second)
      [(unix_epoch, ''a''), (unix_epoch, ''b''), (unix_epoch + 500 * millisecond, ''a''),
       (unix_epoch + 1200 * millisecond, ''a''), (unix_epoch + 1200 * millisecond, ''b'')] new_redis) =
    [True, True, False, False, True]"
  by (subst sliding_window_exact_all_clients [OF ref_up.reliable_redis_axioms])
    (simp_all add: new_redis_def sw_time_def sw_window_def call_before_def sliding_verdicts_def
      recent_call_def in_sliding_def Time_UnixMilli_def unix_epoch_def upt_rec)

text \<open>C10. Refused calls count as well: a client that goes on calling at a fixed distance, so that
  more than max of its calls are in a window, is admitted max times and then never again.\<close>

theorem sliding_window_starves_steady_client:
  assumes "reliable_redis R keys up" and "up r" and "keys r = Map.empty" and "sw_window w"
    and "0 < d" and "mx * d + millisecond \<le> w" and "\<forall>i<n. sw_time (t + int i * d)"
  shows "fst (run_clients (\<lambda>key. sw_allow R key mx w) (map (\<lambda>i. (t + int i * d, key)) [0..<n]) r) =
    map (\<lambda>i. int i < mx) [0..<n]"
proof -
  have "\<forall>(u, k)\<in>set (steady t d key n). sw_time u" using assms(7) by (auto simp: steady_def)
  from reliable_redis.sliding_verdicts_run [OF assms(1-3) this assms(4) steady_ordered [OF assms(5)], of mx]
  show ?thesis using steady_verdicts [OF assms(5,6)] by (simp add: steady_def)
qed

text \<open>Two calls a second are allowed and the client makes three: the whole hour after the first two,
  it gets none.\<close>

theorem sliding_window_starves_steady_client_witness:
  "fst (run_clients (\<lambda>key. sw_allow ref_client key 2 second)
      (map (\<lambda>i. (unix_epoch + int i * (333 * millisecond), ''a'')) [0..<10800]) new_redis) =
    map (\<lambda>i. int i < 2) [0..<10800]"
  by (rule sliding_window_starves_steady_client [OF ref_up.reliable_redis_axioms])
    (simp_all add: new_redis_def sw_time_def sw_window_def)

end
