(* ===== verification/Process.thy ===== *)
theory Process
  imports Http
begin

section \<open>Two goroutines side by side\<close>

text \<open>
  A goroutine as the steps it makes on the state it shares with others: it has stopped, or it
  makes one step, atomic for the others, and goes on as what it has seen tells it. A run of two
  of them (\<open>par_run\<close>) is any interleaving of their steps in which both come to their end. The
  lemmas say that there always is such a run, that none goes on for ever, and when one of the two
  cannot tell that the other is there.
\<close>

datatype 's process = Stop | Atomic "'s \<Rightarrow> 's" "'s \<Rightarrow> 's process"

lemma process_induct [case_names Stop Atomic, induct type: process]:
  assumes "P Stop" and "\<And>e k. (\<And>s. P (k s)) \<Longrightarrow> P (Atomic e k)"
  shows "P p"
  by (rule process.induct) (use assms in auto)

text \<open>Run to the end, alone.\<close>

primrec run_alone :: "'s process \<Rightarrow> 's \<Rightarrow> 's" where
  "run_alone Stop s = s"
| "run_alone (Atomic e k) s = run_alone (k s) (e s)"

text \<open>One after the other.\<close>

primrec and_then :: "'s process \<Rightarrow> 's process \<Rightarrow> 's process" where
  "and_then Stop q = q"
| "and_then (Atomic e k) q = Atomic e (\<lambda>s. and_then (k s) q)"

text \<open>A process on a part of a larger state.\<close>

primrec on_part :: "('b \<Rightarrow> 's) \<Rightarrow> ('s \<Rightarrow> 'b \<Rightarrow> 'b) \<Rightarrow> 's process \<Rightarrow> 'b process" where
  "on_part get put Stop = Stop"
| "on_part get put (Atomic e k) = Atomic (\<lambda>b. put (e (get b)) b) (\<lambda>b. on_part get put (k (get b)))"

text \<open>A handler as a process: in one step, or one step for every call on its writer.\<close>

definition handler_process :: "('w, 's) handler \<Rightarrow> (req \<times> 'w \<times> 's) process" where
  "handler_process h = Atomic (\<lambda>(r, w, s). h r w s) (\<lambda>_. Stop)"

primrec writes_process :: "'w rwriter \<Rightarrow> wop list \<Rightarrow> (req \<times> 'w \<times> 's) process" where
  "writes_process W [] = Stop"
| "writes_process W (op # ops) = Atomic (\<lambda>(r, w, s). (r, do_wop W op w, s)) (\<lambda>_. writes_process W ops)"

lemma run_alone_and_then: "run_alone (and_then p q) s = run_alone q (run_alone p s)"
  by (induction p arbitrary: s) simp_all

lemma run_alone_on_part:
  assumes "\<And>a b. get (put a b) = a" and "\<And>a a' b. put a (put a' b) = put a b" and "\<And>b. put (get b) b = b"
  shows "run_alone (on_part get put p) b = put (run_alone p (get b)) b"
  using assms by (induction p arbitrary: b) simp_all

lemma run_handler_process: "run_alone (handler_process h) (r, w, s) = h r w s"
  by (simp add: handler_process_def)

lemma run_writes_process: "run_alone (writes_process W ops) (r, w, s) = writes W ops r w s"
  by (induction ops arbitrary: w) (simp_all add: writes_def)

subsection \<open>Interleavings\<close>

inductive par_step :: "'s process \<times> 's process \<times> 's \<Rightarrow> 's process \<times> 's process \<times> 's \<Rightarrow> bool" where
  left_step: "par_step (Atomic e k, q, s) (k s, q, e s)"
| right_step: "par_step (p, Atomic e k, s) (p, k s, e s)"

inductive_cases par_stepE: "par_step (p, q, s) c"
inductive_simps par_step_stopped: "par_step (Stop, Stop, s) c"

inductive par_run :: "'s process \<Rightarrow> 's process \<Rightarrow> 's \<Rightarrow> 's \<Rightarrow> bool" where
  both_stopped: "par_run Stop Stop s s"
| left_first: "par_run (k s) q (e s) s' \<Longrightarrow> par_run (Atomic e k) q s s'"
| right_first: "par_run p (k s) (e s) s' \<Longrightarrow> par_run p (Atomic e k) s s'"

lemma par_run_to_steps: "par_run p q s s' \<Longrightarrow> par_step\<^sup>*\<^sup>* (p, q, s) (Stop, Stop, s')"
proof (induction rule: par_run.induct)
  case (left_first k s q e s')
  have "par_step (Atomic e k, q, s) (k s, q, e s)" by (rule left_step)
  then show ?case using left_first.IH by (rule converse_rtranclp_into_rtranclp)
next
  case (right_first p k s e s')
  have "par_step (p, Atomic e k, s) (p, k s, e s)" by (rule right_step)
  then show ?case using right_first.IH by (rule converse_rtranclp_into_rtranclp)
qed simp

lemma steps_to_par_run:
  assumes "par_step\<^sup>*\<^sup>* c (Stop, Stop, s')"
  shows "case c of (p, q, s) \<Rightarrow> par_run p q s s'"
  using assms
proof (induction rule: converse_rtranclp_induct)
  case (step c d)
  from step.hyps(1) step.IH show ?case
    by cases (simp_all add: left_first right_first)
qed (simp add: both_stopped)

lemma par_run_steps: "par_run p q s s' \<longleftrightarrow> par_step\<^sup>*\<^sup>* (p, q, s) (Stop, Stop, s')"
  using par_run_to_steps [of p q s s'] steps_to_par_run [of "(p, q, s)" s'] by auto

lemma par_run_left: "par_run Stop q (run_alone p s) s' \<Longrightarrow> par_run p q s s'"
proof (induction p arbitrary: s)
  case (Atomic e k)
  from Atomic.prems have "par_run Stop q (run_alone (k s) (e s)) s'" by simp
  from Atomic.IH [OF this] show ?case by (rule left_first)
qed simp

lemma par_run_right: "par_run p Stop (run_alone q s) s' \<Longrightarrow> par_run p q s s'"
proof (induction q arbitrary: s)
  case (Atomic e k)
  from Atomic.prems have "par_run p Stop (run_alone (k s) (e s)) s'" by simp
  from Atomic.IH [OF this] show ?case by (rule right_first)
qed simp

text \<open>The two schedules without interleaving.\<close>

lemma par_run_left_then_right: "par_run p q s (run_alone q (run_alone p s))"
  by (rule par_run_left, rule par_run_right, rule both_stopped)

lemma par_run_right_then_left: "par_run p q s (run_alone p (run_alone q s))"
  by (rule par_run_right, rule par_run_left, rule both_stopped)

text \<open>No run goes on for ever, and one that cannot go on is over.\<close>

lemma par_step_wf: "Wellfounded.accp (\<lambda>d c. par_step c d) (p, q, s)"
proof (induction p arbitrary: q s)
  case Stop
  show ?case
  proof (induction q arbitrary: s)
    case Stop
    show ?case by (rule accpI) (erule par_stepE; simp)
  next
    case (Atomic e k)
    show ?case by (rule accpI) (erule par_stepE; simp add: Atomic.IH)
  qed
next
  case (Atomic e k)
  note left = this
  show ?case
  proof (induction q arbitrary: s)
    case Stop
    show ?case by (rule accpI) (erule par_stepE; simp add: left)
  next
    case (Atomic e' k')
    show ?case by (rule accpI) (erule par_stepE; simp add: left Atomic.IH)
  qed
qed

lemma par_step_stuck: "(\<nexists>d. par_step (p, q, s) d) \<longleftrightarrow> p = Stop \<and> q = Stop"
  by (cases p; cases q) (auto intro: par_step.intros elim: par_stepE)

subsection \<open>Being alone\<close>

text \<open>\<open>leaves v p\<close>: no step of \<open>p\<close> changes \<open>v\<close>. \<open>stays_in v p\<close>: what \<open>p\<close> does to \<open>v\<close>, and how it goes on,
  depends on \<open>v\<close> only.\<close>

primrec leaves :: "('s \<Rightarrow> 'v) \<Rightarrow> 's process \<Rightarrow> bool" where
  "leaves v Stop \<longleftrightarrow> True"
| "leaves v (Atomic e k) \<longleftrightarrow> (\<forall>s. v (e s) = v s) \<and> (\<forall>s. leaves v (k s))"

primrec stays_in :: "('s \<Rightarrow> 'v) \<Rightarrow> 's process \<Rightarrow> bool" where
  "stays_in v Stop \<longleftrightarrow> True"
| "stays_in v (Atomic e k) \<longleftrightarrow> (\<forall>s s'. v s = v s' \<longrightarrow> v (e s) = v (e s') \<and> k s = k s') \<and> (\<forall>s. stays_in v (k s))"

declare stays_in.simps(2) [simp del]

lemma stays_in_Atomic:
  assumes "stays_in v (Atomic e k)"
  shows "v s = v s' \<Longrightarrow> v (e s) = v (e s')" and "v s = v s' \<Longrightarrow> k s = k s'" and "stays_in v (k s)"
  using assms unfolding stays_in.simps by blast+

lemma stays_in_AtomicI:
  assumes "\<And>s s'. v s = v s' \<Longrightarrow> v (e s) = v (e s')" and "\<And>s s'. v s = v s' \<Longrightarrow> k s = k s'"
    and "\<And>s. stays_in v (k s)"
  shows "stays_in v (Atomic e k)"
  unfolding stays_in.simps using assms by blast

lemma stays_in_alone: "stays_in v q \<Longrightarrow> v s = v s' \<Longrightarrow> v (run_alone q s) = v (run_alone q s')"
proof (induction q arbitrary: s s')
  case (Atomic e k)
  note w = stays_in_Atomic [OF Atomic.prems(1)]
  have "v (run_alone (k s) (e s)) = v (run_alone (k s) (e s'))"
    by (rule Atomic.IH [OF w(3) w(1) [OF Atomic.prems(2)]])
  with w(2) [OF Atomic.prems(2)] show ?case by simp
qed simp

lemma leaves_alone: "leaves v p \<Longrightarrow> v (run_alone p s) = v s"
  by (induction p arbitrary: s) simp_all

text \<open>Beside a process that leaves \<open>v\<close> alone, one that stays in \<open>v\<close> brings it to where it would
  have brought it alone, in every interleaving.\<close>

lemma par_run_alone:
  assumes "par_run p q s s'" and "leaves v p" and "stays_in v q"
  shows "v s' = v (run_alone q s)"
  using assms
proof (induction rule: par_run.induct)
  case (left_first k s q e s')
  have "leaves v (k s)" and same: "v (e s) = v s" using left_first.prems(1) by simp_all
  with left_first.IH left_first.prems(2) have "v s' = v (run_alone q (e s))" by blast
  with stays_in_alone [OF left_first.prems(2) same] show ?case by simp
next
  case (right_first p k s e s')
  have "stays_in v (k s)" by (rule stays_in_Atomic [OF right_first.prems(2)])
  with right_first.IH right_first.prems(1) show ?case by simp
qed simp

lemma par_run_commute: "par_run p q s s' \<Longrightarrow> par_run q p s s'"
proof (induction rule: par_run.induct)
  case (left_first k s q e s')
  from left_first.IH show ?case by (rule par_run.right_first)
next
  case (right_first p k s e s')
  from right_first.IH show ?case by (rule par_run.left_first)
qed (rule both_stopped)

lemma leaves_and_then: "leaves v p \<Longrightarrow> leaves v q \<Longrightarrow> leaves v (and_then p q)"
  by (induction p) simp_all

lemma stays_in_and_then: "stays_in v p \<Longrightarrow> stays_in v q \<Longrightarrow> stays_in v (and_then p q)"
proof (induction p)
  case (Atomic e k)
  note w = stays_in_Atomic [OF Atomic.prems(1)]
  show ?case unfolding and_then.simps
  proof (rule stays_in_AtomicI)
    show "v s = v s' \<Longrightarrow> v (e s) = v (e s')" for s s' by (rule w(1))
    show "v s = v s' \<Longrightarrow> and_then (k s) q = and_then (k s') q" for s s'
      using w(2) [of s s'] by (intro arg_cong [of "k s" "k s'" "\<lambda>p. and_then p q"])
    show "stays_in v (and_then (k s) q)" for s by (rule Atomic.IH [OF w(3) Atomic.prems(2)])
  qed
qed simp

text \<open>Handlers given by what they write.\<close>

lemma leaves_writes: "leaves (\<lambda>(r, w, s). (r, l s)) (writes_process W ops)"
  by (induction ops) auto

lemma stays_in_writes_view: "stays_in (\<lambda>(r, w, s). (f r, w, g s)) (writes_process W ops)"
  by (induction ops) (auto intro!: stays_in_AtomicI)

lemmas stays_in_writes = stays_in_writes_view [of "\<lambda>r. r"]

lemma stays_in_inj: "inj v \<Longrightarrow> stays_in v p"
proof (induction p)
  case (Atomic e k)
  then have same: "v s = v s' \<Longrightarrow> s = s'" for s s' by (simp add: inj_eq)
  show ?case
  proof (rule stays_in_AtomicI)
    show "v s = v s' \<Longrightarrow> v (e s) = v (e s')" for s s' by (drule same) (rule arg_cong)
    show "v s = v s' \<Longrightarrow> k s = k s'" for s s' by (drule same) (rule arg_cong)
    show "stays_in v (k s)" for s using Atomic by blast
  qed
qed simp

end
