(* ===== verification/Shadow.thy ===== *)
theory Shadow
  imports Process Recorder Metered Windows
begin

section \<open>Shadow mode\<close>

text \<open>
  \<open>src/request_shadow.go\<close> and \<open>src/request_shadow_option.go\<close>. A goroutine runs the limiter on a recorder
  and the same request while the next handler runs on the client's writer; \<open>ServeHTTP\<close> returns when
  both are through. The two are processes on one state, and \<open>shadow_ServeHTTP\<close> holds for every
  interleaving of their steps. The field \<open>mu\<close> is never used.
\<close>

record 's ShadowConfig =
  sh_OnBlock :: "(req \<Rightarrow> string \<Rightarrow> 's \<Rightarrow> 's) option"
  sh_KeyFunc :: "(req \<Rightarrow> string) option"

definition WithShadowOnBlock :: "(req \<Rightarrow> string \<Rightarrow> 's \<Rightarrow> 's) option \<Rightarrow> 's ShadowConfig \<Rightarrow> 's ShadowConfig" where
  "WithShadowOnBlock fn c = c\<lparr>sh_OnBlock := fn\<rparr>"

definition WithShadowKeyFunc :: "(req \<Rightarrow> string) option \<Rightarrow> 's ShadowConfig \<Rightarrow> 's ShadowConfig" where
  "WithShadowKeyFunc fn c = c\<lparr>sh_KeyFunc := fn\<rparr>"

definition NewShadowConfig :: "('s ShadowConfig \<Rightarrow> 's ShadowConfig) list \<Rightarrow> 's ShadowConfig" where
  "NewShadowConfig opts = fold (\<lambda>o' c. o' c) opts \<lparr>sh_OnBlock = None, sh_KeyFunc = None\<rparr>"

record ('w, 's) shadowMiddleware =
  sm_next :: "(req \<times> 'w \<times> 's) process"
  sm_limiter :: "(req \<times> recorder \<times> 's) process"
  sm_KeyFunc :: "req \<Rightarrow> string"
  sm_OnBlock :: "req \<Rightarrow> string \<Rightarrow> 's \<Rightarrow> 's"

definition WithShadowMode ::
  "(req \<times> recorder \<times> 's) process \<Rightarrow> 's ShadowConfig \<Rightarrow> (req \<times> 'w \<times> 's) process \<Rightarrow> ('w, 's) shadowMiddleware"
where
  "WithShadowMode limiter cfg next =
     \<lparr>sm_next = next, sm_limiter = limiter,
      sm_KeyFunc = (case sh_KeyFunc cfg of None \<Rightarrow> defaultKeyFunc | Some f \<Rightarrow> f),
      sm_OnBlock = (case sh_OnBlock cfg of None \<Rightarrow> (\<lambda>_ _ s. s) | Some f \<Rightarrow> f)\<rparr>"

text \<open>What the two goroutines share: the request, the client's writer, the recorder and the rest.\<close>

type_synonym ('w, 's) shadow_state = "req \<times> 'w \<times> recorder \<times> 's"

fun limiter_part :: "('w, 's) shadow_state \<Rightarrow> req \<times> recorder \<times> 's" where
  "limiter_part (r, w, rec, s) = (r, rec, s)"

fun put_limiter_part :: "req \<times> recorder \<times> 's \<Rightarrow> ('w, 's) shadow_state \<Rightarrow> ('w, 's) shadow_state" where
  "put_limiter_part (r', rec', s') (r, w, rec, s) = (r', w, rec', s')"

fun next_part :: "('w, 's) shadow_state \<Rightarrow> req \<times> 'w \<times> 's" where
  "next_part (r, w, rec, s) = (r, w, s)"

fun put_next_part :: "req \<times> 'w \<times> 's \<Rightarrow> ('w, 's) shadow_state \<Rightarrow> ('w, 's) shadow_state" where
  "put_next_part (r', w', s') (r, w, rec, s) = (r', w', rec, s')"

definition shadow_blocked :: "('w, 's) shadowMiddleware \<Rightarrow> (req \<times> recorder \<times> 's) process" where
  "shadow_blocked m =
     Atomic (\<lambda>x. x) (\<lambda>(r, _, _).
       let key = sm_KeyFunc m r
       in Atomic (\<lambda>(r, rec, s). (r, rec, sm_OnBlock m r key s)) (\<lambda>_. Stop))"

definition shadow_report :: "('w, 's) shadowMiddleware \<Rightarrow> (req \<times> recorder \<times> 's) process" where
  "shadow_report m =
     Atomic (\<lambda>x. x) (\<lambda>(_, rec, _). if rc_code rec = StatusTooManyRequests then shadow_blocked m else Stop)"

definition shadow_goroutine :: "('w, 's) shadowMiddleware \<Rightarrow> (req \<times> recorder \<times> 's) process" where
  "shadow_goroutine m = and_then (sm_limiter m) (shadow_report m)"

definition shadow_ServeHTTP ::
  "('w, 's) shadowMiddleware \<Rightarrow> req \<times> 'w \<times> 's \<Rightarrow> req \<times> 'w \<times> 's \<Rightarrow> bool" where
  "shadow_ServeHTTP m a b \<longleftrightarrow>
     (case a of (r, w, s) \<Rightarrow> case b of (r', w', s') \<Rightarrow>
        \<exists>rec. par_run (on_part limiter_part put_limiter_part (shadow_goroutine m))
                (on_part next_part put_next_part (sm_next m))
                (r, w, NewRecorder, s) (r', w', rec, s'))"

subsection \<open>The goroutine alone\<close>

lemma run_shadow_report:
  "run_alone (shadow_report m) (r, rec, s) =
     (r, rec, if rc_code rec = 429 then sm_OnBlock m r (sm_KeyFunc m r) s else s)"
  by (simp add: shadow_report_def shadow_blocked_def Let_def)

lemma run_shadow_goroutine:
  "run_alone (sm_limiter m) (r, NewRecorder, s) = (r', rec, s') \<Longrightarrow>
   run_alone (shadow_goroutine m) (r, NewRecorder, s) =
     (r', rec, if rc_code rec = 429 then sm_OnBlock m r' (sm_KeyFunc m r') s' else s')"
  by (simp add: shadow_goroutine_def run_alone_and_then run_shadow_report)

lemma leaves_shadow_report:
  assumes "\<And>r k s. g (sm_OnBlock m r k s) = g s"
  shows "leaves (\<lambda>(r, rec, s). (r, g s)) (shadow_report m)"
  using assms by (simp add: shadow_report_def shadow_blocked_def Let_def split: prod.split)

lemma stays_in_shadow_report:
  assumes "\<And>r k s s'. l s = l s' \<Longrightarrow> l (sm_OnBlock m r k s) = l (sm_OnBlock m r k s')"
  shows "stays_in (\<lambda>(r, rec, s). (r, rec, l s)) (shadow_report m)"
proof -
  have "stays_in (\<lambda>(r, rec, s). (r, rec, l s)) (shadow_blocked m)"
    unfolding shadow_blocked_def Let_def
    by (intro stays_in_AtomicI) (auto intro: assms intro!: stays_in_AtomicI)
  then show ?thesis unfolding shadow_report_def by (intro stays_in_AtomicI) auto
qed

text \<open>There always is a run, and every sequence of steps comes to one: the middleware returns.\<close>

lemma shadow_returns: "\<exists>b. shadow_ServeHTTP m a b"
proof -
  obtain r w s where a: "a = (r, w, s)" by (cases a) auto
  obtain r' w' rec s' where "run_alone (on_part next_part put_next_part (sm_next m))
      (run_alone (on_part limiter_part put_limiter_part (shadow_goroutine m)) (r, w, NewRecorder, s)) =
      (r', w', rec, s')" by (metis prod.collapse)
  with par_run_left_then_right have "shadow_ServeHTTP m a (r', w', s')"
    unfolding shadow_ServeHTTP_def a by (metis (mono_tags, lifting) case_prod_conv)
  then show ?thesis by blast
qed

subsection \<open>Separate parts\<close>

lemma leaves_on_part:
  assumes "leaves u p" and "\<And>a b. u a = u (get b) \<Longrightarrow> v (put a b) = v b"
  shows "leaves v (on_part get put p)"
  using assms(1) by (induction p) (simp_all add: assms(2))

lemma stays_in_on_part:
  assumes "stays_in u p" and "\<And>b b'. v b = v b' \<Longrightarrow> u (get b) = u (get b')"
    and "\<And>a a' b b'. u a = u a' \<Longrightarrow> v b = v b' \<Longrightarrow> v (put a b) = v (put a' b')"
  shows "stays_in v (on_part get put p)"
  using assms(1)
proof (induction p)
  case (Atomic e k)
  note w = stays_in_Atomic [OF Atomic.prems]
  show ?case unfolding on_part.simps
  proof (rule stays_in_AtomicI)
    fix b b' assume b: "v b = v b'"
    show "v (put (e (get b)) b) = v (put (e (get b')) b')" by (rule assms(3) [OF w(1) [OF assms(2) [OF b]] b])
    show "on_part get put (k (get b)) = on_part get put (k (get b'))"
      by (rule arg_cong [OF w(2) [OF assms(2) [OF b]]])
  next
    show "stays_in v (on_part get put (k (get b)))" for b by (rule Atomic.IH [OF w(3)])
  qed
qed simp

text \<open>A next handler that lives on its own part \<open>g\<close> of the state does not notice the limiter.\<close>

lemma shadow_next_alone:
  assumes "leaves (\<lambda>(r, rec, s). (r, g s)) (sm_limiter m)"
    and "\<And>r k s. g (sm_OnBlock m r k s) = g s"
    and "stays_in (\<lambda>(r, w, s). (r, w, g s)) (sm_next m)"
    and "shadow_ServeHTTP m (r, w, s) (r', w', s')"
    and "run_alone (sm_next m) (r, w, s) = (r1, w1, s1)"
  shows "r' = r1 \<and> w' = w1 \<and> g s' = g s1"
proof -
  let ?v = "\<lambda>(r, w, rec :: recorder, s). (r, w, g s)"
  obtain rec where run: "par_run (on_part limiter_part put_limiter_part (shadow_goroutine m))
      (on_part next_part put_next_part (sm_next m)) (r, w, NewRecorder, s) (r', w', rec, s')"
    using assms(4) by (auto simp: shadow_ServeHTTP_def)
  have "leaves (\<lambda>(r, rec, s). (r, g s)) (shadow_report m)" by (rule leaves_shadow_report) (rule assms(2))
  with assms(1) have "leaves (\<lambda>(r, rec, s). (r, g s)) (shadow_goroutine m)"
    unfolding shadow_goroutine_def by (rule leaves_and_then)
  then have "leaves ?v (on_part limiter_part put_limiter_part (shadow_goroutine m))"
    by (rule leaves_on_part) auto
  moreover have "stays_in ?v (on_part next_part put_next_part (sm_next m))"
    by (rule stays_in_on_part [OF assms(3)]) auto
  ultimately have "?v (r', w', rec, s') =
      ?v (run_alone (on_part next_part put_next_part (sm_next m)) (r, w, NewRecorder, s))"
    using par_run_alone [where v = ?v, OF run] by blast
  also have "run_alone (on_part next_part put_next_part (sm_next m)) (r, w, NewRecorder, s) =
      (r1, w1, NewRecorder, s1)"
    by (subst run_alone_on_part) (auto simp: assms(5))
  finally show ?thesis by simp
qed

text \<open>A limiter that lives on its own part \<open>l\<close> does not notice the next handler.\<close>

lemma shadow_limiter_alone:
  assumes "leaves (\<lambda>(r, w, s). (r, l s)) (sm_next m)"
    and "\<And>r k s s'. l s = l s' \<Longrightarrow> l (sm_OnBlock m r k s) = l (sm_OnBlock m r k s')"
    and "stays_in (\<lambda>(r, rec, s). (r, rec, l s)) (sm_limiter m)"
    and "shadow_ServeHTTP m (r, w, s) (r', w', s')"
    and "run_alone (sm_limiter m) (r, NewRecorder, s) = (r1, rec1, s1)"
  shows "l s' = l (if rc_code rec1 = 429 then sm_OnBlock m r1 (sm_KeyFunc m r1) s1 else s1)"
proof -
  let ?v = "\<lambda>(r, w, rec :: recorder, s). (r, rec, l s)"
  let ?p = "on_part limiter_part put_limiter_part (shadow_goroutine m)"
    and ?q = "on_part next_part put_next_part (sm_next m)"
  obtain rec where run: "par_run ?p ?q (r, w, NewRecorder, s) (r', w', rec, s')"
    using assms(4) by (auto simp: shadow_ServeHTTP_def)
  have "leaves ?v ?q" by (rule leaves_on_part [OF assms(1)]) auto
  moreover have "stays_in (\<lambda>(r, rec, s). (r, rec, l s)) (shadow_report m)"
    by (rule stays_in_shadow_report) (rule assms(2))
  with assms(3) have "stays_in (\<lambda>(r, rec, s). (r, rec, l s)) (shadow_goroutine m)"
    unfolding shadow_goroutine_def by (rule stays_in_and_then)
  then have "stays_in ?v ?p" by (rule stays_in_on_part) auto
  ultimately have "?v (r', w', rec, s') = ?v (run_alone ?p (r, w, NewRecorder, s))"
    using par_run_alone [where v = ?v, OF par_run_commute [OF run]] by blast
  also have "run_alone ?p (r, w, NewRecorder, s) =
      (r1, w, rec1, if rc_code rec1 = 429 then sm_OnBlock m r1 (sm_KeyFunc m r1) s1 else s1)"
    by (subst run_alone_on_part) (auto simp: run_shadow_goroutine [OF assms(5)])
  finally show ?thesis by simp
qed

subsection \<open>A burst limiter in shadow mode\<close>

text \<open>The limiter keeps its counts in a \<open>MemoryStore\<close>; what it would have blocked is written down.\<close>

type_synonym shadow_log = "(req \<times> string) list"

fun store_part :: "req \<times> recorder \<times> MemoryStore \<times> shadow_log \<Rightarrow> req \<times> recorder \<times> MemoryStore" where
  "store_part (r, rec, m, lg) = (r, rec, m)"

fun put_store_part ::
  "req \<times> recorder \<times> MemoryStore \<Rightarrow> req \<times> recorder \<times> MemoryStore \<times> shadow_log \<Rightarrow>
   req \<times> recorder \<times> MemoryStore \<times> shadow_log" where
  "put_store_part (r', rec', m') (r, rec, m, lg) = (r', rec', m', lg)"

lemma put_store_part_fst [simp]: "fst (put_store_part a b) = fst a"
  by (cases a; cases b) simp

definition shadowed_burst ::
  "(string \<Rightarrow> string) \<Rightarrow> (recorder, MemoryStore) BurstConfig \<Rightarrow> (req \<Rightarrow> string) \<Rightarrow> wop list \<Rightarrow> gotime \<Rightarrow>
   (conn, MemoryStore \<times> shadow_log) shadowMiddleware" where
  "shadowed_burst sniff cfg kf ops t =
     WithShadowMode
       (on_part store_part put_store_part
         (handler_process (WithBurst (recorder_rw sniff) (\<lambda>_. t) memory_store cfg (writes (recorder_rw sniff) []))))
       (NewShadowConfig [WithShadowKeyFunc (Some kf), WithShadowOnBlock (Some (\<lambda>r k (m, lg). (m, lg @ [(r, k)])))])
       (writes_process conn_rw ops)"

lemma shadowed_burst_sel:
  "sm_next (shadowed_burst sniff cfg kf ops t) = writes_process conn_rw ops"
  "sm_KeyFunc (shadowed_burst sniff cfg kf ops t) = kf"
  "sm_OnBlock (shadowed_burst sniff cfg kf ops t) = (\<lambda>r k (m, lg). (m, lg @ [(r, k)]))"
  "sm_limiter (shadowed_burst sniff cfg kf ops t) = on_part store_part put_store_part
     (handler_process (WithBurst (recorder_rw sniff) (\<lambda>_. t) memory_store cfg (writes (recorder_rw sniff) [])))"
  by (simp_all add: shadowed_burst_def WithShadowMode_def NewShadowConfig_def WithShadowKeyFunc_def
      WithShadowOnBlock_def)

lemma recorder_refused:
  "rc_code (do_wops (recorder_rw sniff) (burst_wops b rem @
      (if ok then [] else error_wops msg StatusTooManyRequests)) NewRecorder) = (if ok then 200 else 429)"
  by (simp add: burst_wops_def error_wops_def rw_simps rw_set_def NewRecorder_def recorder_WriteHeader_def
      recorder_Write_def Let_def)

lemma limiter_run:
  assumes "bm_key cfg r = Inr key" and "bm_LimitExceeded cfg = None"
    and "burst_allow memory_store (bm_Counter cfg) key t m = (ok, m1)"
  shows "\<exists>rec. run_alone (sm_limiter (shadowed_burst sniff cfg kf ops t)) (r, NewRecorder, m, lg) =
      (r, rec, m1, lg) \<and> rc_code rec = (if ok then 200 else 429)"
proof -
  obtain rem where "WithBurst (recorder_rw sniff) (\<lambda>_. t) memory_store cfg (writes (recorder_rw sniff) []) r NewRecorder m =
    (r, do_wops (recorder_rw sniff) (burst_wops (bm_Counter cfg) rem @
          (if ok then [] else error_wops ''rate limit exceeded'' StatusTooManyRequests)) NewRecorder, m1)"
    using WithBurst_wops [OF assms] by blast
  then show ?thesis
    by (subst shadowed_burst_sel, subst run_alone_on_part)
      (auto simp: run_handler_process recorder_refused)
qed

text \<open>One request, in any interleaving.\<close>

lemma shadowed_step:
  assumes "\<And>r. bm_key cfg r = Inr (kf r)" and "bm_LimitExceeded cfg = None"
    and "shadow_ServeHTTP (shadowed_burst sniff cfg kf ops t) (r, new_conn, m, lg) (r', c, m', lg')"
    and "burst_allow memory_store (bm_Counter cfg) (kf r) t m = (ok, m1)"
  shows "c = do_wops conn_rw ops new_conn \<and> m' = m1 \<and> lg' = (if ok then lg else lg @ [(r, kf r)])"
proof -
  let ?m = "shadowed_burst sniff cfg kf ops t"
  have "fst (WithBurst (recorder_rw sniff) (\<lambda>_. t) memory_store cfg (writes (recorder_rw sniff) []) r rec s) = r"
    for r rec s
  proof -
    obtain ok s1 where "burst_allow memory_store (bm_Counter cfg) (kf r) t s = (ok, s1)" by force
    from WithBurst_wops [OF assms(1,2) this, of "recorder_rw sniff" "[]" rec] show ?thesis
      by (auto simp del: do_wops_simps)
  qed
  then have "leaves (\<lambda>(r, rec, s). (r, ())) (sm_limiter ?m)"
    unfolding shadowed_burst_sel handler_process_def by (auto simp: prod_eq_iff split: prod.splits) 
  then have "c = do_wops conn_rw ops new_conn"
    using shadow_next_alone [of "\<lambda>_. ()" ?m r new_conn "(m, lg)" r' c "(m', lg')"] assms(3)
    by (simp add: shadowed_burst_sel stays_in_writes run_writes_process writes_def)
  moreover obtain rec where "run_alone (sm_limiter ?m) (r, NewRecorder, m, lg) = (r, rec, m1, lg)"
    "rc_code rec = (if ok then 200 else 429)"
    using limiter_run [OF assms(1,2,4)] by blast
  then have "(m', lg') = (m1, if ok then lg else lg @ [(r, kf r)])"
    using shadow_limiter_alone [of "\<lambda>s. s" ?m r new_conn "(m, lg)" r' c "(m', lg')" r rec "(m1, lg)"] assms(3)
    by (simp add: shadowed_burst_sel leaves_writes stays_in_inj inj_def)
  ultimately show ?thesis by simp
qed

text \<open>Requests one after another, each in an interleaving of its own.\<close>

inductive shadow_serves ::
  "(gotime \<Rightarrow> (conn, 's) shadowMiddleware) \<Rightarrow> (gotime \<times> req) list \<Rightarrow> 's \<Rightarrow> conn list \<Rightarrow> 's \<Rightarrow> bool"
  for mw where
  no_more: "shadow_serves mw [] s [] s"
| one_more: "shadow_ServeHTTP (mw t) (r, new_conn, s) (r', c, s1) \<Longrightarrow> shadow_serves mw rs s1 cs s' \<Longrightarrow>
    shadow_serves mw ((t, r) # rs) s (c # cs) s'"

lemma shadow_serves_all: "\<exists>cs s'. shadow_serves mw rs s cs s'"
proof (induction rs arbitrary: s)
  case Nil
  show ?case by (intro exI, rule no_more)
next
  case (Cons tr rs)
  obtain t r where tr: "tr = (t, r)" by force
  obtain r' c s1 where one: "shadow_ServeHTTP (mw t) (r, new_conn, s) (r', c, s1)"
    using shadow_returns by (metis surj_pair)
  from Cons.IH obtain cs s' where "shadow_serves mw rs s1 cs s'" by blast
  from one_more [of mw, OF one this] show ?case unfolding tr by blast
qed

lemma shadowed_run:
  assumes "shadow_serves (shadowed_burst sniff cfg kf ops) rs s cs s'"
    and "\<And>r. bm_key cfg r = Inr (kf r)" and "bm_LimitExceeded cfg = None"
    and "run_clients (burst_allow memory_store (bm_Counter cfg)) (map (\<lambda>(t, r). (t, kf r)) rs) (fst s) = (oks, m)"
  shows "cs = replicate (length rs) (do_wops conn_rw ops new_conn) \<and>
    snd s' = snd s @ map (\<lambda>((t, r), ok). (r, kf r)) (filter (\<lambda>(_, ok). \<not> ok) (zip rs oks))"
  using assms(1,4)
proof (induction arbitrary: oks rule: shadow_serves.induct)
  case (one_more t r s r' c s1 rs cs s')
  obtain ok m1 where one: "burst_allow memory_store (bm_Counter cfg) (kf r) t (fst s) = (ok, m1)" by force
  have "shadow_ServeHTTP (shadowed_burst sniff cfg kf ops t) (r, new_conn, fst s, snd s) (r', c, fst s1, snd s1)"
    using one_more.hyps(1) by simp
  note step = shadowed_step [OF assms(2,3) this one]
  obtain oks1 where oks: "oks = ok # oks1"
    and more: "run_clients (burst_allow memory_store (bm_Counter cfg)) (map (\<lambda>(t, r). (t, kf r)) rs) (fst s1) = (oks1, m)"
    using one_more.prems step by (auto simp: one split: prod.splits)
  from one_more.IH [OF more] step show ?case by (auto simp: oks)
qed simp

subsection \<open>Properties\<close>

text \<open>C31. In every interleaving of its goroutines shadow mode gives the client the answer of the next
  handler alone, and calls OnBlock exactly when the limiter alone answers 429, provided that the
  two work on separate parts of the state and neither changes the request.\<close>

theorem shadow_never_interferes:
  assumes "leaves (\<lambda>(r, rec, s). (r, g s)) limiter" and "stays_in (\<lambda>(r, w, s). (r, w, g s)) nxt"
    and "leaves (\<lambda>(r, w, s). (r, l s)) nxt" and "stays_in (\<lambda>(r, rec, s). (r, rec, l s)) limiter"
    and "\<And>r k s. g (onBlock r k s) = g s" and "\<And>r k s s'. l s = l s' \<Longrightarrow> l (onBlock r k s) = l (onBlock r k s')"
    and "run_alone nxt (r, w, s) = (r1, w1, s1)" and "run_alone limiter (r, NewRecorder, s) = (r2, rec2, s2)"
    and "shadow_ServeHTTP (WithShadowMode limiter \<lparr>sh_OnBlock = Some onBlock, sh_KeyFunc = Some kf\<rparr> nxt) (r, w, s) (r', w', s')"
  shows "w' = w1 \<and> g s' = g s1 \<and> l s' = l (if rc_code rec2 = 429 then onBlock r2 (kf r2) s2 else s2)"
proof -
  let ?m = "WithShadowMode limiter \<lparr>sh_OnBlock = Some onBlock, sh_KeyFunc = Some kf\<rparr> nxt"
  have sel: "sm_next ?m = nxt" "sm_limiter ?m = limiter" "sm_OnBlock ?m = onBlock" "sm_KeyFunc ?m = kf"
    by (simp_all add: WithShadowMode_def)
  show ?thesis
    using shadow_next_alone [of g ?m, unfolded sel, OF assms(1,5,2,9,7)]
      shadow_limiter_alone [of l ?m, unfolded sel, OF assms(3,6,4,9,8)] by simp
qed

theorem shadow_never_interferes_witness:
  "\<exists>r' c s'. shadow_ServeHTTP (WithShadowMode (writes_process (recorder_rw (\<lambda>_. [])) [SendHeader 429])
       \<lparr>sh_OnBlock = Some (\<lambda>r k s. k # s), sh_KeyFunc = Some URL_Path\<rparr> (writes_process conn_rw [SendHeader 201, SendBody ''x'']))
     (sample_req ''10.0.0.1:80'' ''/a'' [], new_conn, []) (r', c, s') \<and> resp_code c = 201 \<and> s' = [''/a'']"
proof -
  let ?lim = "writes_process (recorder_rw (\<lambda>_. [])) [SendHeader 429] :: (req \<times> recorder \<times> string list) process"
    and ?next = "writes_process conn_rw [SendHeader 201, SendBody ''x''] :: (req \<times> conn \<times> string list) process"
  obtain r' c s' where run: "shadow_ServeHTTP (WithShadowMode ?lim
      \<lparr>sh_OnBlock = Some (\<lambda>r k s. k # s), sh_KeyFunc = Some URL_Path\<rparr> ?next)
     (sample_req ''10.0.0.1:80'' ''/a'' [], new_conn, []) (r', c, s')"
    using shadow_returns by (metis surj_pair)
  have "resp_code c = 201 \<and> s' = [''/a'']"
    using shadow_never_interferes [where g = "\<lambda>_. ()" and l = "\<lambda>s. s", OF _ stays_in_writes leaves_writes _ _ _ _ _ run]
    by (simp add: leaves_writes stays_in_inj inj_def rw_simps new_conn_def resp_code_def sample_req_def NewRecorder_def
        recorder_WriteHeader_def)
  with run show ?thesis by blast
qed

text \<open>C32. A burst limiter over the in-memory store in shadow mode, with a window of whole
  seconds, the default handler for refused requests and a key function that does not fail, for any
  requests of any clients one after another and any interleaving within each: every request gets the
  handler's answer, and OnBlock is called for exactly those before which limit + burst requests were of
  the same client and window, in order.\<close>

theorem shadow_burst_reports_exactly:
  assumes "shadow_serves (shadowed_burst sniff cfg kf ops) rs (NewMemoryStore, []) cs (m, lg)"
    and "\<And>r. bm_key cfg r = Inr (kf r)" and "bm_LimitExceeded cfg = None"
    and "whole_seconds (bc_window (bm_Counter cfg))"
    and "0 \<le> bc_limit (bm_Counter cfg) + bc_burst (bm_Counter cfg)"
    and "bc_limit (bm_Counter cfg) + bc_burst (bm_Counter cfg) \<le> max_i64" and "int (length rs) \<le> max_i64"
    and "oks = window_verdicts (bc_limit (bm_Counter cfg) + bc_burst (bm_Counter cfg)) (bc_window (bm_Counter cfg))
      (map (\<lambda>(t, r). (t, kf r)) rs)"
  shows "cs = replicate (length rs) (do_wops conn_rw ops new_conn) \<and>
    lg = map (\<lambda>((t, r), ok). (r, kf r)) (filter (\<lambda>(_, ok). \<not> ok) (zip rs oks))"
proof -
  obtain oks' m' where run: "run_clients (burst_allow memory_store (bm_Counter cfg)) (map (\<lambda>(t, r). (t, kf r)) rs)
      NewMemoryStore = (oks', m')" by force
  have "oks' = oks"
    using mem_exact.burst_verdicts [of NewMemoryStore "bm_Counter cfg" "map (\<lambda>(t, r). (t, kf r)) rs"] assms(4-8)
      whole_seconds_pos [OF assms(4)] run by (simp add: mem_live_def NewMemoryStore_def)
  with shadowed_run [OF assms(1-3)] run show ?thesis by simp
qed

theorem shadow_burst_reports_exactly_witness:
  "\<exists>cs m. shadow_serves (shadowed_burst (\<lambda>_. []) \<lparr>bm_Counter = NewBurstCounter 1 0 second,
       bm_KeyFunc = Some (\<lambda>r. Inr (RemoteAddr r)), bm_LimitExceeded = None\<rparr> RemoteAddr [SendBody ''x''])
     [(unix_epoch, sample_req ''a'' ''/1'' []), (unix_epoch, sample_req ''b'' ''/2'' []),
      (unix_epoch, sample_req ''a'' ''/3'' [])] (NewMemoryStore, []) cs
     (m, [(sample_req ''a'' ''/3'' [], ''a'')]) \<and> length cs = 3"
proof -
  let ?cfg = "\<lparr>bm_Counter = NewBurstCounter 1 0 second, bm_KeyFunc = Some (\<lambda>r. Inr (RemoteAddr r)),
      bm_LimitExceeded = None\<rparr> :: (recorder, MemoryStore) BurstConfig"
    and ?rs = "[(unix_epoch, sample_req ''a'' ''/1'' []), (unix_epoch, sample_req ''b'' ''/2'' []),
      (unix_epoch, sample_req ''a'' ''/3'' [])]"
  obtain cs m lg where run: "shadow_serves (shadowed_burst (\<lambda>_. []) ?cfg RemoteAddr [SendBody ''x'']) ?rs
      (NewMemoryStore, []) cs (m, lg)" using shadow_serves_all by (metis surj_pair)
  have "length cs = 3 \<and> lg = [(sample_req ''a'' ''/3'' [], ''a'')]"
    using shadow_burst_reports_exactly [OF run _ _ _ _ _ _ refl]
    by (simp add: NewBurstCounter_def bm_key_def whole_seconds_def window_verdicts_def same_window_def
        Time_Truncate_def unix_epoch_def upt_rec sample_req_def)
  with run show ?thesis by blast
qed

end
