(* ===== verification/Mirror.thy ===== *)
theory Mirror
  imports Process Bodies
begin

section \<open>Request mirroring\<close>

text \<open>
  \<open>src/request_mirroring.go\<close>. The middleware starts a goroutine that reads the body of the request,
  builds a copy of it and sends that to the target, and runs the next handler on the same request
  without waiting. \<open>mirror_step\<close> is the interleaving of the two: the goroutine reads one chunk of the
  body at a time, the next handler is a process. When the handler has returned the server closes
  the body, after which reads fail. The goroutine keeps to the body it has found in the request;
  handlers that put another one in its place are outside the model.
\<close>

text \<open>The request sent to the target. \<open>valid\<close> says whether \<open>http.NewRequest\<close> takes a method and a
  URL; \<open>mc_Client\<close> is the client's \<open>Do\<close>, whose answer is read and thrown away, or its error ignored.\<close>

record mirrored =
  mo_Method :: string
  mo_URL :: string
  mo_Header :: header
  mo_Body :: string

record 's MirrorConfig =
  mc_ShouldMirror :: "(req \<Rightarrow> bool) option"
  mc_MirrorTarget :: string
  mc_Client :: "(mirrored \<Rightarrow> 's \<Rightarrow> 's) option"

definition mirror_headers :: "header \<Rightarrow> header" where
  "mirror_headers h =
     hset ''X-Mirrored-Request'' ''true'' (fold (\<lambda>(k, vals). fold (hadd k) vals) h [])"

definition mirror_copy :: "string \<Rightarrow> string \<Rightarrow> req \<Rightarrow> mirrored" where
  "mirror_copy target bodyBytes r =
     \<lparr>mo_Method = Method r, mo_URL = target @ RequestURI r, mo_Header = mirror_headers (ReqHeader r),
      mo_Body = bodyBytes\<rparr>"

text \<open>The goroutine in one go.\<close>

definition mirrorRequest ::
  "(string \<Rightarrow> string \<Rightarrow> bool) \<Rightarrow> (mirrored \<Rightarrow> 's \<Rightarrow> 's) \<Rightarrow> string \<Rightarrow> req \<Rightarrow> 's \<Rightarrow> req \<times> 's" where
  "mirrorRequest valid client target r s =
     (let (bodyBytes, r) =
            (case Body r of None \<Rightarrow> (Some [], r)
             | Some body \<Rightarrow> let (got, rest) = ReadAll body in (got, r\<lparr>Body := Some rest\<rparr>))
      in case bodyBytes of
           None \<Rightarrow> (r, s)
         | Some b \<Rightarrow>
             let out = mirror_copy target b r
             in if \<not> valid (mo_Method out) (mo_URL out) then (r, s) else (r, client out s))"

text \<open>Where the goroutine is: not started to read, reading with what it has got so far, with the
  whole body, with the request to send, or through.\<close>

datatype mirror_pc = MStart | MRead string | MGot string | MSend mirrored | MDone

type_synonym ('w, 's) mirror_state = "mirror_pc \<times> (req \<times> 'w \<times> 's) process \<times> req \<times> 'w \<times> 's"

inductive mirror_step ::
  "(string \<Rightarrow> string \<Rightarrow> bool) \<Rightarrow> (mirrored \<Rightarrow> 's \<Rightarrow> 's) \<Rightarrow> string \<Rightarrow>
   ('w, 's) mirror_state \<Rightarrow> ('w, 's) mirror_state \<Rightarrow> bool"
  for valid client target where
  no_body: "Body r = None \<Longrightarrow>
    mirror_step valid client target (MStart, q, r, w, s) (MGot [], q, r, w, s)"
| has_body: "Body r = Some b \<Longrightarrow>
    mirror_step valid client target (MStart, q, r, w, s) (MRead [], q, r, w, s)"
| read_chunk: "Body r = Some (c @ b, e) \<Longrightarrow> c \<noteq> [] \<Longrightarrow>
    mirror_step valid client target (MRead got, q, r, w, s) (MRead (got @ c), q, r\<lparr>Body := Some (b, e)\<rparr>, w, s)"
| read_eof: "Body r = Some ([], EOF) \<Longrightarrow>
    mirror_step valid client target (MRead got, q, r, w, s) (MGot got, q, r, w, s)"
| read_error: "Body r = Some ([], ReadError) \<Longrightarrow>
    mirror_step valid client target (MRead got, q, r, w, s) (MDone, q, r, w, s)"
| new_request: "out = mirror_copy target got r \<Longrightarrow> valid (mo_Method out) (mo_URL out) \<Longrightarrow>
    mirror_step valid client target (MGot got, q, r, w, s) (MSend out, q, r, w, s)"
| bad_request: "out = mirror_copy target got r \<Longrightarrow> \<not> valid (mo_Method out) (mo_URL out) \<Longrightarrow>
    mirror_step valid client target (MGot got, q, r, w, s) (MDone, q, r, w, s)"
| send: "mirror_step valid client target (MSend out, q, r, w, s) (MDone, q, r, w, client out s)"
| next_step: "e (r, w, s) = (r', w', s') \<Longrightarrow>
    mirror_step valid client target (pc, Atomic e k, r, w, s) (pc, k (r, w, s), r', w', s')"

text \<open>What \<open>net/http\<close>, not the package, does once the handler has returned: it closes the body.\<close>

definition server_close :: "(req \<times> 'w \<times> 's) process" where
  "server_close =
     Atomic (\<lambda>(r, w, s). (r\<lparr>Body := map_option (\<lambda>_. ([], ReadError)) (Body r)\<rparr>, w, s)) (\<lambda>_. Stop)"

text \<open>The middleware: a panic for an empty target, otherwise the state a request starts in.\<close>

definition WithRequestMirroring ::
  "(mirrored \<Rightarrow> 's \<Rightarrow> 's) \<Rightarrow> 's MirrorConfig \<Rightarrow> (req \<times> 'w \<times> 's) process \<Rightarrow>
   ((mirrored \<Rightarrow> 's \<Rightarrow> 's) \<times> (req \<Rightarrow> 'w \<Rightarrow> 's \<Rightarrow> ('w, 's) mirror_state)) option" where
  "WithRequestMirroring defaultClient cfg next =
     (if mc_MirrorTarget cfg = [] then None
      else let client = (case mc_Client cfg of None \<Rightarrow> defaultClient | Some c \<Rightarrow> c);
               should = (case mc_ShouldMirror cfg of None \<Rightarrow> (\<lambda>_. True) | Some f \<Rightarrow> f)
           in Some (client, \<lambda>r w s. (if should r then MStart else MDone, and_then next server_close, r, w, s)))"

definition mirror_reaches ::
  "(string \<Rightarrow> string \<Rightarrow> bool) \<Rightarrow> (mirrored \<Rightarrow> 's \<Rightarrow> 's) \<Rightarrow> string \<Rightarrow>
   ('w, 's) mirror_state \<Rightarrow> ('w, 's) mirror_state \<Rightarrow> bool" where
  "mirror_reaches valid client target = (mirror_step valid client target)\<^sup>*\<^sup>*"

inductive_cases mirror_stepE: "mirror_step valid client target (pc, q, r, w, s) c"

subsection \<open>The goroutine alone does what mirrorRequest does\<close>

lemma mirror_body_alone:
  assumes "Body r = Some (b, e)"
  shows "mirror_reaches valid client target (MRead got, q, r, w, s)
    (case e of EOF \<Rightarrow> MGot (got @ b) | ReadError \<Rightarrow> MDone, q, r\<lparr>Body := Some ([], e)\<rparr>, w, s)"
proof -
  let ?step = "mirror_step valid client target"
  have "?step\<^sup>*\<^sup>* (MRead got, q, r, w, s) (MRead (got @ b), q, r\<lparr>Body := Some ([], e)\<rparr>, w, s)"
  proof (cases "b = []")
    case True
    with assms have "r\<lparr>Body := Some ([], e)\<rparr> = r" by (cases r) simp
    with True show ?thesis by simp
  next
    case False
    with assms have "?step (MRead got, q, r, w, s) (MRead (got @ b), q, r\<lparr>Body := Some ([], e)\<rparr>, w, s)"
      by (intro read_chunk) simp_all
    then show ?thesis by blast
  qed
  moreover have "?step (MRead (got @ b), q, r\<lparr>Body := Some ([], e)\<rparr>, w, s)
      (case e of EOF \<Rightarrow> MGot (got @ b) | ReadError \<Rightarrow> MDone, q, r\<lparr>Body := Some ([], e)\<rparr>, w, s)"
    by (cases e) (simp_all add: read_eof read_error)
  ultimately show ?thesis unfolding mirror_reaches_def by (rule rtranclp.rtrancl_into_rtrancl)
qed

lemma mirror_rest_alone:
  "mirror_reaches valid client target (MGot b, q, r, w, s)
    (MDone, q, r, w, let out = mirror_copy target b r
       in if valid (mo_Method out) (mo_URL out) then client out s else s)"
proof (cases "valid (mo_Method (mirror_copy target b r)) (mo_URL (mirror_copy target b r))")
  case True
  have "mirror_step valid client target (MGot b, q, r, w, s) (MSend (mirror_copy target b r), q, r, w, s)"
    by (rule new_request) (rule refl, rule True)
  moreover have "mirror_step valid client target (MSend (mirror_copy target b r), q, r, w, s)
      (MDone, q, r, w, client (mirror_copy target b r) s)" by (rule send)
  ultimately show ?thesis using True unfolding mirror_reaches_def Let_def by simp
next
  case False
  have "mirror_step valid client target (MGot b, q, r, w, s) (MDone, q, r, w, s)"
    by (rule bad_request) (rule refl, rule False)
  then show ?thesis using False unfolding mirror_reaches_def Let_def by simp
qed

lemma mirror_alone:
  assumes "mirrorRequest valid client target r s = (r', s')"
  shows "mirror_reaches valid client target (MStart, q, r, w, s) (MDone, q, r', w, s')"
proof (cases "Body r")
  case None
  then have "mirror_step valid client target (MStart, q, r, w, s) (MGot [], q, r, w, s)" by (rule no_body)
  moreover have "mirror_reaches valid client target (MGot [], q, r, w, s) (MDone, q, r', w, s')"
    using None assms mirror_rest_alone [of valid client target "[]" q r w s]
    by (auto simp: mirrorRequest_def Let_def split: if_splits)
  ultimately show ?thesis unfolding mirror_reaches_def by (rule converse_rtranclp_into_rtranclp)
next
  case (Some body)
  obtain b e where body: "body = (b, e)" by force
  have "mirror_step valid client target (MStart, q, r, w, s) (MRead [], q, r, w, s)" by (rule has_body [OF Some])
  moreover have "mirror_reaches valid client target (MRead [], q, r, w, s) (MDone, q, r', w, s')"
  proof (cases e)
    case EOF
    with assms Some body mirror_body_alone [of r b e valid client target "[]" q w s]
      mirror_rest_alone [of valid client target b q "r\<lparr>Body := Some ([], EOF)\<rparr>" w s]
    show ?thesis unfolding mirror_reaches_def
      by (auto simp: mirrorRequest_def Let_def split: if_splits)
  next
    case ReadError
    with assms Some body mirror_body_alone [of r b e valid client target "[]" q w s]
    show ?thesis unfolding mirror_reaches_def by (auto simp: mirrorRequest_def)
  qed
  ultimately show ?thesis unfolding mirror_reaches_def by (rule converse_rtranclp_into_rtranclp)
qed

text \<open>The handler and the server can always go on.\<close>

lemma mirror_next_alone: "mirror_reaches valid client target (pc, q, a) (pc, Stop, run_alone q a)"
proof (induction q arbitrary: a)
  case (Atomic e k)
  obtain r w s r' w' s' where a: "a = (r, w, s)" "e (r, w, s) = (r', w', s')" by (metis prod.exhaust)
  have "mirror_step valid client target (pc, Atomic e k, a) (pc, k a, e a)"
    unfolding a by (rule next_step [where e = e and k = k and r = r and w = w and s = s, OF a(2)])
  moreover have "mirror_reaches valid client target (pc, k a, e a) (pc, Stop, run_alone (k a) (e a))"
    by (rule Atomic.IH)
  ultimately show ?case
    unfolding mirror_reaches_def run_alone.simps by (rule converse_rtranclp_into_rtranclp)
qed (simp add: mirror_reaches_def)

text \<open>So the goroutine may take the whole body before the next handler has made a step.\<close>

lemma mirror_takes_body:
  assumes "Body r = Some (b, EOF)"
  shows "\<exists>s'. mirror_reaches valid client target (MStart, q, r, w, s) (MDone, q, r\<lparr>Body := Some ([], EOF)\<rparr>, w, s')"
proof -
  have "\<exists>s'. mirrorRequest valid client target r s = (r\<lparr>Body := Some ([], EOF)\<rparr>, s')"
    using assms by (simp add: mirrorRequest_def Let_def)
  then obtain s' where "mirrorRequest valid client target r s = (r\<lparr>Body := Some ([], EOF)\<rparr>, s')" by blast
  from mirror_alone [OF this] show ?thesis by (rule exI)
qed

subsection \<open>A next handler that does not read the body\<close>

definition bodiless :: "req \<Rightarrow> req" where
  "bodiless r = r\<lparr>Body := None\<rparr>"

lemma bodiless_Body [simp]: "bodiless (r\<lparr>Body := b\<rparr>) = bodiless r"
  by (simp add: bodiless_def)

lemma mirror_step_view:
  assumes "mirror_step valid client target (pc, q, r, w, s) (pc', q', r', w', s')"
    and "\<And>m s. g (client m s) = g s" and "stays_in (\<lambda>(r, w, s). (bodiless r, w, g s)) q"
  shows "stays_in (\<lambda>(r, w, s). (bodiless r, w, g s)) q' \<and>
    (\<lambda>(r, w, s). (bodiless r, w, g s)) (run_alone q' (r', w', s')) =
    (\<lambda>(r, w, s). (bodiless r, w, g s)) (run_alone q (r, w, s))"
proof -
  let ?v = "\<lambda>(r, w, s). (bodiless r, w, g s)"
  have same: "?v (run_alone q (r', w', s')) = ?v (run_alone q (r, w, s))"
    if "bodiless r' = bodiless r" "w' = w" "g s' = g s"
    using stays_in_alone [OF assms(3), of "(r', w', s')" "(r, w, s)"] that by simp
  from assms(1) show ?thesis
  proof cases
    case (next_step e k)
    have "stays_in ?v (Atomic e k)" using assms(3) next_step by simp
    from stays_in_Atomic(3) [OF this] next_step show ?thesis by simp
  qed (use assms(2,3) same in auto)
qed

lemma mirror_reaches_view:
  assumes "mirror_reaches valid client target (pc, q, r, w, s) (pc', q', r', w', s')"
    and "\<And>m s. g (client m s) = g s" and "stays_in (\<lambda>(r, w, s). (bodiless r, w, g s)) q"
  shows "(\<lambda>(r, w, s). (bodiless r, w, g s)) (run_alone q' (r', w', s')) =
    (\<lambda>(r, w, s). (bodiless r, w, g s)) (run_alone q (r, w, s))"
proof -
  let ?v = "\<lambda>(r, w, s). (bodiless r, w, g s)"
  have "stays_in ?v (fst (snd c)) \<and>
      ?v (run_alone (fst (snd c)) (snd (snd c))) = ?v (run_alone q (r, w, s))"
    if "(mirror_step valid client target)\<^sup>*\<^sup>* (pc, q, r, w, s) c" for c
    using that
  proof (induction rule: rtranclp_induct)
    case (step c d)
    obtain pc1 q1 r1 w1 s1 pc2 q2 r2 w2 s2 where "c = (pc1, q1, r1, w1, s1)" "d = (pc2, q2, r2, w2, s2)"
      by (metis prod.exhaust)
    with mirror_step_view [of valid client target pc1 q1 r1 w1 s1 pc2 q2 r2 w2 s2 g] step assms(2) show ?case
      by simp
  qed (simp add: assms(3))
  from this [OF assms(1) [unfolded mirror_reaches_def]] show ?thesis by simp
qed

subsection \<open>A next handler that reads the body\<close>

text \<open>It reads with buffers of some sizes and writes what it has got.\<close>

definition body_chunk :: "nat \<Rightarrow> req \<Rightarrow> string" where
  "body_chunk n r = (case Body r of None \<Rightarrow> [] | Some (b, _) \<Rightarrow> take n b)"

definition read_body :: "nat \<Rightarrow> req \<Rightarrow> req" where
  "read_body n r = r\<lparr>Body := map_option (\<lambda>(b, e). (drop n b, e)) (Body r)\<rparr>"

primrec echo_process :: "nat list \<Rightarrow> string \<Rightarrow> (req \<times> conn \<times> 's) process" where
  "echo_process [] got = writes_process conn_rw [SendBody got]"
| "echo_process (n # ns) got =
     Atomic (\<lambda>(r, w, s). (read_body n r, w, s)) (\<lambda>(r, w, s). echo_process ns (got @ body_chunk n r))"

text \<open>What the goroutine has read, has still to send or has sent, for a client that keeps a list.\<close>

fun mirror_ok :: "mirror_pc \<Rightarrow> mirrored list \<Rightarrow> string \<Rightarrow> string \<Rightarrow> bool" where
  "mirror_ok MStart sent acc rest \<longleftrightarrow> acc = [] \<and> sent = []"
| "mirror_ok (MRead got) sent acc rest \<longleftrightarrow> acc = got \<and> sent = []"
| "mirror_ok (MGot got) sent acc rest \<longleftrightarrow> acc = got \<and> rest = [] \<and> sent = []"
| "mirror_ok (MSend out) sent acc rest \<longleftrightarrow> acc = mo_Body out \<and> rest = [] \<and> sent = []"
| "mirror_ok MDone sent acc rest \<longleftrightarrow> sent = [] \<or> (rest = [] \<and> (\<exists>out. sent = [out] \<and> mo_Body out = acc))"

text \<open>Before and after the handler has answered, and after the server has closed the body.\<close>

definition echo_at :: "(req \<times> conn \<times> mirrored list) process \<Rightarrow> req \<Rightarrow> conn \<Rightarrow> string \<Rightarrow> string \<Rightarrow> bool" where
  "echo_at q r w got rest \<longleftrightarrow>
     (\<exists>ns. q = and_then (echo_process ns got) server_close \<and> Body r = Some (rest, EOF) \<and> w = new_conn) \<or>
     (q = server_close \<and> Body r = Some (rest, EOF) \<and> cBody w = got) \<or>
     (q = Stop \<and> Body r = Some ([], ReadError) \<and> cBody w = got)"

definition echo_inv :: "string \<Rightarrow> (conn, mirrored list) mirror_state \<Rightarrow> bool" where
  "echo_inv b c \<longleftrightarrow> (case c of (pc, q, r, w, sent) \<Rightarrow>
     \<exists>acc got left rest. left \<in> shuffles acc got \<and> b = left @ rest \<and> mirror_ok pc sent acc rest \<and>
       echo_at q r w got rest)"

lemma echo_invI:
  "left \<in> shuffles acc got \<Longrightarrow> b = left @ rest \<Longrightarrow> mirror_ok pc sent acc rest \<Longrightarrow> echo_at q r w got rest \<Longrightarrow>
   echo_inv b (pc, q, r, w, sent)"
  by (auto simp: echo_inv_def)

lemma echo_invE:
  assumes "echo_inv b (pc, q, r, w, sent)"
  obtains acc got left rest where "left \<in> shuffles acc got" and "b = left @ rest"
    and "mirror_ok pc sent acc rest" and "echo_at q r w got rest"
  using assms by (auto simp: echo_inv_def)

lemma echo_at_chunk:
  assumes "echo_at q r w got rest" and "Body r = Some (c @ b', e)" and "c \<noteq> []"
  shows "rest = c @ b' \<and> echo_at q (r\<lparr>Body := Some (b', e)\<rparr>) w got b'"
  using assms by (auto simp: echo_at_def)

lemma echo_at_eof: "echo_at q r w got rest \<Longrightarrow> Body r = Some ([], EOF) \<Longrightarrow> rest = []"
  by (auto simp: echo_at_def)

text \<open>A step of the handler or of the server.\<close>

lemma echo_at_next:
  assumes "echo_at (Atomic e k) r w got rest" and "e (r, w, sent) = (r', w', sent')"
  shows "sent' = sent \<and> (\<exists>n. echo_at (k (r, w, sent)) r' w' (got @ take n rest) (drop n rest))"
proof -
  from assms(1) consider ns where "Atomic e k = and_then (echo_process ns got) server_close"
      "Body r = Some (rest, EOF)" "w = new_conn"
    | "Atomic e k = server_close" "Body r = Some (rest, EOF)" "cBody w = got"
    by (auto simp: echo_at_def)
  then show ?thesis
  proof cases
    case (1 ns)
    show ?thesis
    proof (cases ns)
      case Nil
      with 1 assms(2) have "w' = conn_Write got new_conn" "r' = r" "sent' = sent" "k (r, w, sent) = server_close"
        by (auto simp: rw_simps)
      then show ?thesis
        using 1 by (intro conjI exI [of _ 0])
          (auto simp: echo_at_def new_conn_def conn_Write_def conn_panicked_def conn_WriteHeader_def)
    next
      case (Cons n ns')
      with 1 assms(2) have "r' = read_body n r" "w' = w" "sent' = sent"
        "k (r, w, sent) = and_then (echo_process ns' (got @ take n rest)) server_close"
        by (auto simp: body_chunk_def)
      with 1 show ?thesis by (intro conjI exI [of _ n]) (auto simp: echo_at_def read_body_def)
    qed
  next
    case 2
    with assms(2) have "r' = r\<lparr>Body := Some ([], ReadError)\<rparr>" "w' = w" "sent' = sent" "k (r, w, sent) = Stop"
      by (auto simp: server_close_def)
    with 2 show ?thesis by (intro conjI exI [of _ 0]) (auto simp: echo_at_def)
  qed
qed

lemma mirror_ok_drop: "mirror_ok pc sent acc rest \<Longrightarrow> mirror_ok pc sent acc (drop n rest)"
  by (cases pc) auto

lemma echo_inv_step:
  assumes "mirror_step valid (\<lambda>out sent. sent @ [out]) target (pc, q, r, w, sent) (pc', q', r', w', sent')"
    and "echo_inv b (pc, q, r, w, sent)"
  shows "echo_inv b (pc', q', r', w', sent')"
proof -
  obtain acc got left rest where inv: "left \<in> shuffles acc got" "b = left @ rest"
    "mirror_ok pc sent acc rest" "echo_at q r w got rest" using assms(2) by (rule echo_invE)
  from assms(1) show ?thesis
  proof cases
    case no_body
    with inv(4) show ?thesis by (auto simp: echo_at_def)
  next
    case (has_body b')
    with inv show ?thesis by (intro echo_invI [of left "[]" got b rest]) auto
  next
    case (read_chunk c b' e acc')
    with echo_at_chunk [OF inv(4), of c b' e] have rest: "rest = c @ b'" "echo_at q' r' w' got b'" by auto
    with inv read_chunk show ?thesis
      by (intro echo_invI [of "left @ c" "acc @ c" got b b']) (auto intro: shuffles_append1)
  next
    case (read_eof acc')
    with inv echo_at_eof [OF inv(4)] show ?thesis by (intro echo_invI [of left acc got b rest]) auto
  next
    case (read_error acc')
    with inv show ?thesis by (intro echo_invI [of left acc got b rest]) auto
  next
    case (new_request out acc')
    with inv show ?thesis by (intro echo_invI [of left acc got b rest]) (auto simp: mirror_copy_def)
  next
    case (bad_request out acc')
    with inv show ?thesis by (intro echo_invI [of left acc got b rest]) auto
  next
    case (send out)
    with inv show ?thesis by (intro echo_invI [of left acc got b rest]) auto
  next
    case (next_step e k)
    with inv(4) have "echo_at (Atomic e k) r w got rest" by simp
    from echo_at_next [OF this next_step(4)] next_step obtain n where "sent' = sent"
      "echo_at q' r' w' (got @ take n rest) (drop n rest)" by auto
    with inv next_step show ?thesis
      by (intro echo_invI [of "left @ take n rest" acc "got @ take n rest" b "drop n rest"])
        (auto intro: shuffles_append2 mirror_ok_drop)
  qed
qed

lemma echo_inv_reaches:
  assumes "mirror_reaches valid (\<lambda>out sent. sent @ [out]) target c d" and "echo_inv b c"
  shows "echo_inv b d"
  using assms(1) unfolding mirror_reaches_def
proof (induction rule: rtranclp_induct)
  case (step d e)
  then show ?case by (cases d; cases e) (auto intro: echo_inv_step)
qed (rule assms(2))

subsection \<open>Properties\<close>

text \<open>C29. Around a next handler that does not look at the body, mirroring does not show: in every
  interleaving, when the handler and the server are through, the response and the handler's part
  of the state are those of the handler alone.\<close>

theorem mirror_transparent:
  assumes "WithRequestMirroring defaultClient cfg nxt = Some (client, start)"
    and "stays_in (\<lambda>(r, w, s). (bodiless r, w, g s)) nxt" and "\<And>m s. g (client m s) = g s"
    and "mirror_reaches valid client (mc_MirrorTarget cfg) (start r w s) (pc, Stop, r', w', s')"
    and "run_alone nxt (r, w, s) = (r1, w1, s1)"
  shows "w' = w1 \<and> g s' = g s1"
proof -
  let ?v = "\<lambda>(r, w, s). (bodiless r, w, g s)"
  have start: "start r w s = (if (case mc_ShouldMirror cfg of None \<Rightarrow> (\<lambda>_. True) | Some f \<Rightarrow> f) r
      then MStart else MDone, and_then nxt server_close, r, w, s)"
    using assms(1) by (auto simp: WithRequestMirroring_def Let_def split: if_splits)
  have "stays_in ?v server_close"
    unfolding server_close_def by (rule stays_in_AtomicI) auto
  with assms(2) have "stays_in ?v (and_then nxt server_close)" by (rule stays_in_and_then)
  from mirror_reaches_view [OF assms(4) [unfolded start] assms(3) this]
  show ?thesis by (simp add: run_alone_and_then assms(5) server_close_def)
qed

theorem mirror_transparent_witness:
  "\<exists>pc r' w' s'. mirror_reaches (\<lambda>_ _. True) (\<lambda>m s. m # s) ''http://shadow''
      (MStart, and_then (writes_process conn_rw [SendHeader 201, SendBody ''x'']) server_close,
       sample_req ''1.2.3.4:5'' ''/'' [], new_conn, []) (pc, Stop, r', w', s') \<and>
    resp_code w' = 201 \<and> length s' = 1"
proof -
  let ?next = "writes_process conn_rw [SendHeader 201, SendBody ''x''] :: (req \<times> conn \<times> mirrored list) process"
    and ?r = "sample_req ''1.2.3.4:5'' ''/'' []"
    and ?cfg = "\<lparr>mc_ShouldMirror = None, mc_MirrorTarget = ''http://shadow'', mc_Client = Some (\<lambda>m s. m # s)\<rparr>"
  let ?start = "\<lambda>r w s. (MStart, and_then ?next server_close, r, w, s)"
  have mw: "WithRequestMirroring (\<lambda>_ s. s) ?cfg ?next = Some (\<lambda>m s. m # s, ?start)"
    by (simp add: WithRequestMirroring_def)
  have alone: "mirror_reaches (\<lambda>_ _. True) (\<lambda>m s. m # s) ''http://shadow'' (?start ?r new_conn [])
      (MDone, and_then ?next server_close, ?r, new_conn, [mirror_copy ''http://shadow'' [] ?r])"
    by (rule mirror_alone) (simp add: mirrorRequest_def sample_req_def Let_def)
  obtain r' w' s' where fin: "run_alone (and_then ?next server_close) (?r, new_conn, [mirror_copy ''http://shadow'' [] ?r]) = (r', w', s')"
    by (metis prod.exhaust)
  have run: "mirror_reaches (\<lambda>_ _. True) (\<lambda>m s. m # s) (mc_MirrorTarget ?cfg) (?start ?r new_conn []) (MDone, Stop, r', w', s')"
    using rtranclp_trans [OF alone [unfolded mirror_reaches_def] mirror_next_alone [unfolded mirror_reaches_def]] fin
    by (simp add: mirror_reaches_def)
  have "resp_code w' = 201"
    using mirror_transparent [OF mw stays_in_writes_view _ run, of "\<lambda>_. ()"]
    by (simp add: resp_code_def new_conn_def rw_simps)
  moreover have "length s' = 1" using fin by (auto simp: server_close_def)
  ultimately show ?thesis using run by (intro exI [of _ MDone] exI [of _ r'] exI [of _ w'] exI [of _ s']) simp
qed

text \<open>C30. Around a next handler that reads the body, with buffers of any sizes, and answers with what it
  has read: in every interleaving the goroutine sends at most one request, and if it has sent one,
  each byte of the body has reached exactly one of the two, in order.\<close>

theorem mirror_splits_body:
  assumes "WithRequestMirroring defaultClient cfg (echo_process ns []) = Some (client, start)"
    and "client = (\<lambda>out sent. sent @ [out])" and "Body r = Some (b, EOF)"
    and "mirror_reaches valid client (mc_MirrorTarget cfg) (start r new_conn []) (pc, Stop, r', c, sent)"
  shows "length sent \<le> 1 \<and> (\<forall>out\<in>set sent. b \<in> shuffles (mo_Body out) (cBody c)) \<and> length (cBody c) \<le> length b"
proof -
  have start: "start r new_conn [] = (if (case mc_ShouldMirror cfg of None \<Rightarrow> (\<lambda>_. True) | Some f \<Rightarrow> f) r
      then MStart else MDone, and_then (echo_process ns []) server_close, r, new_conn, [])"
    using assms(1) by (auto simp: WithRequestMirroring_def Let_def split: if_splits)
  have "echo_inv b (start r new_conn [])"
    unfolding start using assms(3) by (intro echo_invI [of "[]" "[]" "[]" b b]) (auto simp: echo_at_def)
  then have "echo_inv b (pc, Stop, r', c, sent)"
    using echo_inv_reaches assms(2,4) by blast
  then obtain acc got left rest where inv: "left \<in> shuffles acc got" "b = left @ rest"
    "mirror_ok pc sent acc rest" "echo_at Stop r' c got rest" by (rule echo_invE)
  have "Stop \<noteq> and_then (echo_process ms got) server_close" for ms
    by (cases ms) simp_all
  moreover have "Stop \<noteq> server_close" by (simp add: server_close_def)
  ultimately have "cBody c = got" using inv(4) unfolding echo_at_def by blast
  moreover have "length left = length acc + length got" using inv(1) by (rule length_shuffles)
  ultimately show ?thesis using inv(1-3) by (cases pc) auto
qed

text \<open>The goroutine takes the body and the client gets an empty answer.\<close>

theorem mirror_splits_body_witness:
  "\<exists>r' c. mirror_reaches (\<lambda>_ _. True) (\<lambda>out sent. sent @ [out]) ''http://shadow''
      (MStart, and_then (echo_process [512] []) server_close,
       (sample_req ''1.2.3.4:5'' ''/'' [])\<lparr>Body := Some (''hello'', EOF)\<rparr>, new_conn, [])
      (MDone, Stop, r', c, [mirror_copy ''http://shadow'' ''hello'' (sample_req ''1.2.3.4:5'' ''/'' [])]) \<and>
    cBody c = []"
proof -
  let ?r = "(sample_req ''1.2.3.4:5'' ''/'' [])\<lparr>Body := Some (''hello'', EOF)\<rparr>"
    and ?cfg = "\<lparr>mc_ShouldMirror = None, mc_MirrorTarget = ''http://shadow'', mc_Client = Some (\<lambda>out sent. sent @ [out])\<rparr>"
    and ?out = "mirror_copy ''http://shadow'' ''hello'' (sample_req ''1.2.3.4:5'' ''/'' [])"
  let ?q = "and_then (echo_process [512] []) server_close :: (req \<times> conn \<times> mirrored list) process"
  let ?start = "\<lambda>r w s. (MStart, ?q, r, w, s)"
  have mw: "WithRequestMirroring (\<lambda>_ s. s) ?cfg (echo_process [512] []) = Some (\<lambda>out sent. sent @ [out], ?start)"
    by (simp add: WithRequestMirroring_def)
  have "mirror_reaches (\<lambda>_ _. True) (\<lambda>out sent. sent @ [out]) ''http://shadow'' (?start ?r new_conn [])
      (MDone, ?q, ?r\<lparr>Body := Some ([], EOF)\<rparr>, new_conn, [?out])"
    by (rule mirror_alone) (simp add: mirrorRequest_def mirror_copy_def sample_req_def Let_def)
  moreover obtain r' c where "run_alone ?q (?r\<lparr>Body := Some ([], EOF)\<rparr>, new_conn, [?out]) = (r', c, [?out])"
    by (simp add: server_close_def)
  then have "mirror_reaches (\<lambda>_ _. True) (\<lambda>out sent. sent @ [out]) ''http://shadow''
      (MDone, ?q, ?r\<lparr>Body := Some ([], EOF)\<rparr>, new_conn, [?out]) (MDone, Stop, r', c, [?out])"
    using mirror_next_alone by metis
  ultimately have run: "mirror_reaches (\<lambda>_ _. True) (\<lambda>out sent. sent @ [out]) (mc_MirrorTarget ?cfg) (?start ?r new_conn [])
      (MDone, Stop, r', c, [?out])"
    unfolding mirror_reaches_def by simp
  have "cBody c = []"
    using mirror_splits_body [OF mw refl _ run] by (auto simp: mirror_copy_def dest: length_shuffles)
  with run show ?thesis by (intro exI [of _ r'] exI [of _ c]) simp
qed

end
