(* ===== verification/StoreSpec.thy ===== *)
theory StoreSpec
  imports Store
begin

section \<open>What a MemoryStore keeps\<close>

text \<open>
  \<open>src/memory_store.go\<close> deletes an expired entry when a call comes across it, whatever the call. The
  specification knows no deletion and no map: it has one cell per key, with a value and a
  deadline. Reading leaves a cell alone, one past its deadline counts as empty, and only a call that
  writes changes it. A \<open>MemoryStore\<close> gives, on any calls, the answers that each key's calls
  get from a cell of their own.
\<close>

datatype store_call =
    CIncrement string duration
  | CGet string
  | CSet string int duration
  | CSetNX string int duration
  | CTTL string
  | CDelete string
  | CPing

datatype answer = ACount int | ADone | AFirst bool | ALife duration | AError err

definition answer_with :: "('a \<Rightarrow> answer) \<Rightarrow> err + 'a \<Rightarrow> answer" where
  "answer_with f r = (case r of Inl e \<Rightarrow> AError e | Inr x \<Rightarrow> f x)"

lemma answer_with_simps [simp]: "answer_with f (Inr x) = f x" "answer_with f (Inl e) = AError e"
  by (simp_all add: answer_with_def)

fun do_call :: "'s Store \<Rightarrow> gotime \<Rightarrow> store_call \<Rightarrow> 's \<Rightarrow> answer \<times> 's" where
  "do_call S t (CIncrement k w) s = (case Increment S t k w s of (r, s') \<Rightarrow> (answer_with ACount r, s'))"
| "do_call S t (CGet k) s = (case Get S t k s of (r, s') \<Rightarrow> (answer_with ACount r, s'))"
| "do_call S t (CSet k v w) s = (case Set S t k v w s of (r, s') \<Rightarrow> (answer_with (\<lambda>_. ADone) r, s'))"
| "do_call S t (CSetNX k v w) s = (case SetNX S t k v w s of (r, s') \<Rightarrow> (answer_with AFirst r, s'))"
| "do_call S t (CTTL k) s = (case TTL S t k s of (r, s') \<Rightarrow> (answer_with ALife r, s'))"
| "do_call S t (CDelete k) s = (case Delete S t k s of (r, s') \<Rightarrow> (answer_with (\<lambda>_. ADone) r, s'))"
| "do_call S t CPing s = (case Ping S t s of (r, s') \<Rightarrow> (answer_with (\<lambda>_. ADone) r, s'))"

fun do_calls :: "'s Store \<Rightarrow> (gotime \<times> store_call) list \<Rightarrow> 's \<Rightarrow> answer list \<times> 's" where
  "do_calls S [] s = ([], s)"
| "do_calls S ((t, c) # cs) s =
     (case do_call S t c s of (a, s1) \<Rightarrow> case do_calls S cs s1 of (as, s2) \<Rightarrow> (a # as, s2))"

fun call_key :: "store_call \<Rightarrow> string option" where
  "call_key (CIncrement k w) = Some k"
| "call_key (CGet k) = Some k"
| "call_key (CSet k v w) = Some k"
| "call_key (CSetNX k v w) = Some k"
| "call_key (CTTL k) = Some k"
| "call_key (CDelete k) = Some k"
| "call_key CPing = None"

text \<open>The calls on a key, and their answers.\<close>

definition calls_on :: "string \<Rightarrow> (gotime \<times> store_call) list \<Rightarrow> (gotime \<times> store_call) list" where
  "calls_on k cs = filter (\<lambda>(t, c). call_key c = Some k) cs"

definition answers_on :: "string \<Rightarrow> (gotime \<times> store_call) list \<Rightarrow> answer list \<Rightarrow> answer list" where
  "answers_on k cs as = map snd (filter (\<lambda>((t, c), a). call_key c = Some k) (zip cs as))"

lemma on_simps [simp]:
  "calls_on k [] = []"
  "calls_on k ((t, c) # cs) = (if call_key c = Some k then (t, c) # calls_on k cs else calls_on k cs)"
  "answers_on k [] as = []"
  "answers_on k ((t, c) # cs) (a # as) =
    (if call_key c = Some k then a # answers_on k cs as else answers_on k cs as)"
  by (simp_all add: calls_on_def answers_on_def)

subsection \<open>A cell\<close>

text \<open>A value and its deadline; Go's zero time is no deadline.\<close>

type_synonym cell = "(int \<times> gotime) option"

definition cell_value :: "gotime \<Rightarrow> cell \<Rightarrow> cell" where
  "cell_value t c = (case c of None \<Rightarrow> None | Some (v, d) \<Rightarrow> if d \<noteq> 0 \<and> d < t then None else c)"

fun cell_call :: "gotime \<Rightarrow> store_call \<Rightarrow> cell \<Rightarrow> answer \<times> cell" where
  "cell_call t (CIncrement k w) c =
     (case cell_value t c of None \<Rightarrow> (ACount 1, Some (1, t + w))
      | Some (v, d) \<Rightarrow> (ACount (i64 (v + 1)), Some (i64 (v + 1), d)))"
| "cell_call t (CGet k) c = (ACount (case cell_value t c of None \<Rightarrow> 0 | Some (v, d) \<Rightarrow> v), c)"
| "cell_call t (CSet k v w) c = (ADone, Some (v, t + w))"
| "cell_call t (CSetNX k v w) c =
     (if cell_value t c = None then (AFirst True, Some (v, t + w)) else (AFirst False, c))"
| "cell_call t (CTTL k) c = (ALife (case cell_value t c of None \<Rightarrow> - 1 | Some (v, d) \<Rightarrow> Time_Sub d t), c)"
| "cell_call t (CDelete k) c = (ADone, None)"
| "cell_call t CPing c = (ADone, c)"

fun cell_calls :: "(gotime \<times> store_call) list \<Rightarrow> cell \<Rightarrow> answer list" where
  "cell_calls [] c = []"
| "cell_calls ((t, x) # cs) c = (case cell_call t x c of (a, c') \<Rightarrow> a # cell_calls cs c')"

subsection \<open>The refinement\<close>

text \<open>From a time on, the entry of a key and its cell are seen alike: they are the same, or the cell
  is past its deadline and the entry gone.\<close>

definition entry_cell :: "memEntry option \<Rightarrow> cell" where
  "entry_cell e = map_option (\<lambda>e. (me_value e, me_expiry e)) e"

definition cells_rel :: "gotime \<Rightarrow> MemoryStore \<Rightarrow> (string \<Rightarrow> cell) \<Rightarrow> bool" where
  "cells_rel t m cell \<longleftrightarrow>
     (\<forall>k. entry_cell (mem_data m k) = cell k \<or> mem_data m k = None \<and> cell_value t (cell k) = None)"

lemma cell_value_later: "t \<le> t' \<Longrightarrow> cell_value t c = None \<Longrightarrow> cell_value t' c = None"
  by (auto simp: cell_value_def split: option.splits if_splits)

lemma cells_rel_later: "cells_rel t m cell \<Longrightarrow> t \<le> t' \<Longrightarrow> cells_rel t' m cell"
  unfolding cells_rel_def using cell_value_later by blast

lemma cells_rel_upd:
  assumes "cells_rel t m cell" and "entry_cell e = c \<or> e = None \<and> cell_value t c = None"
  shows "cells_rel t (m\<lparr>mem_data := (mem_data m)(k := e)\<rparr>) (cell(k := c))"
  using assms by (simp add: cells_rel_def)

lemma entry_cell_None [simp]: "entry_cell e = None \<longleftrightarrow> e = None" "None = entry_cell e \<longleftrightarrow> e = None"
  by (auto simp: entry_cell_def)

lemma entry_cell_simps [simp]: "entry_cell (Some e) = Some (me_value e, me_expiry e)" "entry_cell None = None"
  by (simp_all add: entry_cell_def)

lemma cell_value_simps [simp]:
  "cell_value t None = None"
  "cell_value t (Some (v, d)) = (if d \<noteq> 0 \<and> d < t then None else Some (v, d))"
  by (simp_all add: cell_value_def)

text \<open>What the code's \<open>get\<close> sees is the value of the cell.\<close>

lemma get_cell:
  assumes "cells_rel t m cell" and "MemoryStore_get t k m = (e, m')"
  shows "cells_rel t m' cell \<and> entry_cell e = cell_value t (cell k) \<and>
    (e \<noteq> None \<longrightarrow> m' = m \<and> mem_data m k = e \<and> cell_value t (cell k) = cell k)"
proof (cases "mem_data m k")
  case None
  then have "cell_value t (cell k) = None" using assms(1) by (auto simp: cells_rel_def dest: spec [of _ k])
  with None assms show ?thesis by (simp add: MemoryStore_get_cases)
next
  case (Some e0)
  then have c: "cell k = Some (me_value e0, me_expiry e0)"
    using assms(1) by (auto simp: cells_rel_def dest: spec [of _ k])
  show ?thesis
  proof (cases "entry_expired t e0")
    case True
    then have dead: "cell_value t (cell k) = None" by (simp add: c entry_expired_def)
    then have "cells_rel t (m\<lparr>mem_data := (mem_data m)(k := None)\<rparr>) cell"
      using cells_rel_upd [OF assms(1), of None "cell k" k] by simp
    with True Some assms(2) dead show ?thesis by (auto simp: MemoryStore_get_cases)
  next
    case False
    then have "e = Some e0" "m' = m" using assms(2) by (simp_all add: MemoryStore_get_cases Some)
    with False assms(1) show ?thesis by (simp add: c Some entry_expired_def)
  qed
qed

text \<open>A call answers as the cell of its key does, and leaves the other cells alone.\<close>

definition cells_step :: "gotime \<Rightarrow> store_call \<Rightarrow> (string \<Rightarrow> cell) \<Rightarrow> string \<Rightarrow> cell" where
  "cells_step t x cell = (\<lambda>k. if call_key x = Some k then snd (cell_call t x (cell k)) else cell k)"

lemma cells_step_upd: "call_key x = Some k \<Longrightarrow> cells_step t x cell = cell(k := snd (cell_call t x (cell k)))"
  by (auto simp: cells_step_def)

lemma call_cell:
  assumes rel: "cells_rel t m cell" and run: "do_call memory_store t x m = (a, m')"
  shows "cells_rel t m' (cells_step t x cell) \<and> (\<forall>k. call_key x = Some k \<longrightarrow> a = fst (cell_call t x (cell k)))"
proof (cases x)
  case (CIncrement k w)
  obtain e m1 where get: "MemoryStore_get t k m = (e, m1)" by force
  note g = get_cell [OF rel get]
  show ?thesis
  proof (cases e)
    case None
    then show ?thesis
      using g run cells_rel_upd [of t m1 cell "Some \<lparr>me_value = 1, me_expiry = t + w\<rparr>" "Some (1, t + w)" k]
      by (auto simp: CIncrement cells_step_upd memory_store_sel MemoryStore_Increment_def get)
  next
    case (Some e0)
    let ?e = "e0\<lparr>me_value := i64 (me_value e0 + 1)\<rparr>"
    have "cell_value t (cell k) = Some (me_value e0, me_expiry e0)" using g Some by auto
    then show ?thesis
      using g run Some cells_rel_upd [of t m1 cell "Some ?e" "Some (i64 (me_value e0 + 1), me_expiry e0)" k]
      by (auto simp: CIncrement cells_step_upd memory_store_sel MemoryStore_Increment_def get Let_def)
  qed
next
  case (CGet k)
  obtain e m1 where get: "MemoryStore_get t k m = (e, m1)" by force
  note g = get_cell [OF rel get]
  then have c: "cell_value t (cell k) = entry_cell e" by simp
  have keep: "cells_step t x cell = cell" by (auto simp: CGet cells_step_def)
  show ?thesis
    using conjunct1 [OF g] run unfolding keep by (cases e) (auto simp: CGet c memory_store_sel MemoryStore_Get_def get)
next
  case (CSet k v w)
  then show ?thesis
    using run cells_rel_upd [OF rel, of "Some \<lparr>me_value = v, me_expiry = t + w\<rparr>" "Some (v, t + w)" k]
    by (auto simp: cells_step_upd memory_store_sel MemoryStore_Set_def)
next
  case (CSetNX k v w)
  obtain e m1 where get: "MemoryStore_get t k m = (e, m1)" by force
  note g = get_cell [OF rel get]
  then have c: "cell_value t (cell k) = entry_cell e" by simp
  have keep: "cells_step t x cell = cell" if "e \<noteq> None" using that c by (auto simp: CSetNX cells_step_def fun_eq_iff)
  show ?thesis
    using g run keep cells_rel_upd [of t m1 cell "Some \<lparr>me_value = v, me_expiry = t + w\<rparr>" "Some (v, t + w)" k]
    by (cases e) (auto simp: CSetNX cells_step_upd memory_store_sel MemoryStore_SetNX_def get c)
next
  case (CTTL k)
  obtain e m1 where get: "MemoryStore_get t k m = (e, m1)" by force
  note g = get_cell [OF rel get]
  then have c: "cell_value t (cell k) = entry_cell e" by simp
  have keep: "cells_step t x cell = cell" by (auto simp: CTTL cells_step_def)
  show ?thesis
    using conjunct1 [OF g] run unfolding keep by (cases e) (auto simp: CTTL c memory_store_sel MemoryStore_TTL_def get)
next
  case (CDelete k)
  then show ?thesis
    using run cells_rel_upd [OF rel, of None None k]
    by (auto simp: cells_step_upd memory_store_sel MemoryStore_Delete_def)
next
  case CPing
  with rel run show ?thesis by (auto simp: cells_step_def memory_store_sel MemoryStore_Ping_def)
qed

lemma calls_cell:
  assumes "cells_rel t0 m cell" and "sorted (t0 # map fst cs)" and "do_calls memory_store cs m = (as, m')"
  shows "answers_on k cs as = cell_calls (calls_on k cs) (cell k)"
  using assms
proof (induction cs arbitrary: t0 m cell as)
  case (Cons tx cs)
  obtain t x where tx: "tx = (t, x)" by force
  obtain a m1 where one: "do_call memory_store t x m = (a, m1)" by force
  obtain as' where rest: "do_calls memory_store cs m1 = (as', m')" "as = a # as'"
    using Cons.prems(3) by (auto simp: tx one split: prod.splits)
  have "cells_rel t m cell" using cells_rel_later [OF Cons.prems(1)] Cons.prems(2) by (simp add: tx)
  note step = call_cell [OF this one]
  have "answers_on k cs as' = cell_calls (calls_on k cs) (cells_step t x cell k)"
    using Cons.IH [OF conjunct1 [OF step] _ rest(1)] Cons.prems(2) by (simp add: tx)
  then show ?case
    using step by (simp add: tx rest(2) cells_step_def case_prod_beta)
qed simp

subsection \<open>Properties\<close>

text \<open>C14. Through any calls of all its methods, on any keys and in the order of time, a new in-memory
  store answers the calls on a key as a cell of that key alone would: an increment counts on from the live value
  and keeps its deadline, or starts at 1 with a new one; SetNX writes only when there is no live value; a read shows
  the live value and changes nothing; an entry past its deadline is as good as none, whichever call
  the store deletes it in.\<close>

theorem memory_store_refines_cells:
  assumes "sorted (map fst cs)" and "do_calls memory_store cs NewMemoryStore = (as, m)"
  shows "answers_on k cs as = cell_calls (calls_on k cs) None"
proof (cases cs)
  case (Cons tx cs')
  have "cells_rel (fst tx) NewMemoryStore (\<lambda>_. None)" by (simp add: cells_rel_def NewMemoryStore_def)
  from calls_cell [OF this _ assms(2)] assms(1) show ?thesis by (simp add: Cons)
qed simp

text \<open>A counter and a lock: within their lifetimes the count goes on and the lock is held; after them the
  count starts anew and the lock can be taken.\<close>

definition sample_calls :: "(gotime \<times> store_call) list" where
  "sample_calls =
     [(1, CIncrement ''n'' 10), (2, CSetNX ''lock'' 7 5), (3, CIncrement ''n'' 10), (4, CSetNX ''lock'' 8 5),
      (5, CTTL ''n''), (7, CGet ''lock''), (8, CGet ''lock''), (8, CSetNX ''lock'' 9 5), (9, CSet ''n'' 41 1),
      (10, CIncrement ''n'' 10), (12, CIncrement ''n'' 10), (12, CDelete ''lock''), (12, CTTL ''lock'')]"

theorem memory_store_refines_cells_witness:
  "\<exists>as m. do_calls memory_store sample_calls NewMemoryStore = (as, m) \<and>
    answers_on ''n'' sample_calls as = [ACount 1, ACount 2, ALife 6, ADone, ACount 42, ACount 1] \<and>
    answers_on ''lock'' sample_calls as =
      [AFirst True, AFirst False, ACount 7, ACount 0, AFirst True, ADone, ALife (- 1)]"
proof -
  obtain as m where run: "do_calls memory_store sample_calls NewMemoryStore = (as, m)" by (metis surj_pair)
  have ord: "sorted (map fst sample_calls)" by (simp add: sample_calls_def)
  have n: "cell_calls (calls_on ''n'' sample_calls) None = [ACount 1, ACount 2, ALife 6, ADone, ACount 42, ACount 1]"
    by (simp add: sample_calls_def i64_id Time_Sub_def)
  have lock: "cell_calls (calls_on ''lock'' sample_calls) None =
      [AFirst True, AFirst False, ACount 7, ACount 0, AFirst True, ADone, ALife (- 1)]"
    by (simp add: sample_calls_def)
  from memory_store_refines_cells [OF ord run] run show ?thesis
    by (metis n lock)
qed

end
