(* ===== verification/Construct.thy ===== *)
theory Construct
  imports Metrics Filters Dedup Fingerprint RequestId Pause ResponseCache
begin

section \<open>Constructors that refuse nil\<close>

text \<open>
  Seven constructors of the package panic when the object they are to work on is nil (an eighth is
  \<open>WithRequestCoalescing\<close>, and \<open>WithRequestMirroring\<close> refuses an empty target). A pointer is an
  \<open>option\<close>; the result is \<open>None\<close> for the panic, otherwise the middleware of the component's theory, with
  the object where the middleware keeps it in its state.
\<close>

definition checked_WithMetrics ::
  "('w metricsResponseWriter, 's) handler \<Rightarrow> Metrics option \<Rightarrow> (('w, Metrics \<times> 's) handler \<times> Metrics) option" where
  "checked_WithMetrics next metrics = (case metrics of None \<Rightarrow> None | Some m \<Rightarrow> Some (WithMetrics next, m))"

definition checked_WithGeoFilter ::
  "'w rwriter \<Rightarrow> GeoFilter option \<Rightarrow> ('w, 's) handler option \<Rightarrow> (('w, 's) handler \<Rightarrow> ('w, 's) handler) option" where
  "checked_WithGeoFilter W gf blockedHandler =
     (case gf of None \<Rightarrow> None | Some f \<Rightarrow> Some (WithGeoFilter W f blockedHandler))"

definition checked_WithRequestDedup ::
  "'w rwriter \<Rightarrow> ('s \<Rightarrow> gotime) \<Rightarrow> ('s \<Rightarrow> gotime) \<Rightarrow> DedupStore option \<Rightarrow> (req \<Rightarrow> string) option \<Rightarrow>
   ((('w, DedupStore \<times> 's) handler \<Rightarrow> ('w, DedupStore \<times> 's) handler) \<times> DedupStore) option" where
  "checked_WithRequestDedup W clk clk2 store keyFunc =
     (case store of None \<Rightarrow> None | Some d \<Rightarrow> Some (WithRequestDedup W clk clk2 keyFunc, d))"

definition checked_WithRequestFingerprint ::
  "'w rwriter \<Rightarrow> FingerprintConfig option \<Rightarrow> (('w, 's) handler \<Rightarrow> ('w, 's) handler) option" where
  "checked_WithRequestFingerprint W cfg =
     (case cfg of None \<Rightarrow> None | Some c \<Rightarrow> Some (WithRequestFingerprint W c))"

definition checked_WithRequestTagging ::
  "'w rwriter \<Rightarrow> TagConfig option \<Rightarrow> (('w, 's) handler \<Rightarrow> ('w, 's) handler) option" where
  "checked_WithRequestTagging W cfg = (case cfg of None \<Rightarrow> None | Some c \<Rightarrow> Some (WithRequestTagging W c))"

definition checked_WithRequestPause ::
  "(PauseController \<Rightarrow> 's \<Rightarrow> 's) \<Rightarrow> PauseController option \<Rightarrow> (('w, 's) handler \<Rightarrow> ('w, 's) handler) option" where
  "checked_WithRequestPause wait pc = (case pc of None \<Rightarrow> None | Some p \<Rightarrow> Some (WithRequestPause (wait p)))"

definition checked_WithResponseCache ::
  "'w rwriter \<Rightarrow> ('s \<Rightarrow> gotime) \<Rightarrow> ResponseCache option \<Rightarrow> (req \<Rightarrow> string) option \<Rightarrow>
   ((('w, ResponseCache \<times> 's) handler \<Rightarrow> (recorder, ResponseCache \<times> 's) handler \<Rightarrow>
     ('w, ResponseCache \<times> 's) handler) \<times> ResponseCache) option" where
  "checked_WithResponseCache W clk cache keyFunc =
     (case cache of None \<Rightarrow> None | Some c \<Rightarrow> Some (WithResponseCache W clk keyFunc, c))"

lemmas checked_defs = checked_WithMetrics_def checked_WithGeoFilter_def checked_WithRequestDedup_def
  checked_WithRequestFingerprint_def checked_WithRequestTagging_def checked_WithRequestPause_def
  checked_WithResponseCache_def

end
