(* ===== verification/Spec2Isabelle.thy ===== *)
theory Spec2Isabelle
  imports Burst FixedWindow SlidingWindow LeakyBucket TokenBucket Strategy Quota RateLimiter
    Breaker Metrics Adaptive Priority Filters PerRoute Throttle Pause Dedup Signing Fingerprint
    RequestId Tracing Enrichment ResponseCache HeaderRewrite Hedging Timeout Coalescing Bodies
    Observe Metered Guarded Windows FixedWindows SlidingWindows Process Shadow Mirror StoreSpec Construct
begin

text \<open>
  \<^bold>\<open>A rate limiting library for net/http over Redis\<close>

  The Go package \<open>ratelimiter\<close> (\<open>src/*.go\<close>) counts the requests of clients, in Redis or in
  memory, and answers 429 to those over a limit; around that core it has some thirty middlewares,
  each of which wraps a \<open>http.Handler\<close>. This development models all of its implementation files.

  \<^bold>\<open>How the parts interact.\<close> A request goes through a chain of middlewares. Each of them may change
  the request, wrap the response writer in one of its own, answer itself, or run the next handler.
  A limiting middleware takes a key from the request (\<open>KeyFunc\<close>), asks a counter, and the counter
  keeps its state behind the \<open>Store\<close> interface or directly in Redis. The concurrent middlewares
  share a structure under a mutex between the goroutines of all requests.

  \<^bold>\<open>Common ground.\<close>
  \<^item> \<open>Prelude\<close>: 64-bit integers as \<open>int\<close> with the wrap-around \<open>i64\<close>, the clock in nanoseconds
    since year 1, durations. \<open>Text\<close>: byte strings, \<open>strconv\<close>, \<open>strings\<close>, and the package's own
    \<open>itoa\<close> (\<open>adaptive_limit.go\<close>). \<open>GoFloat\<close>: float64 as rationals rounded to 53 bits.
    \<open>Sha256\<close>: SHA-256, HMAC and hexadecimal text on 32-bit words.
  \<^item> \<open>Http\<close>: headers with canonical keys, requests, handlers as functions on request, writer and the
    rest of the world, the writer interface as a record of its methods, the server's own writer
    \<open>conn\<close>. The locale \<open>response_writer\<close> is the contract of a writer; every wrapper of the package
    is shown to keep it (\<open>retry\<close>, \<open>breaker\<close>, \<open>metrics\<close>, \<open>logger\<close>, \<open>enrichment\<close>, and the recorder of
    \<open>httptest\<close> in \<open>Recorder\<close>), except for the writers that hold a response back
    (\<open>headerCapture\<close>, \<open>singleUseResponseWriter\<close>), which do not. \<open>writes\<close> makes a handler from a list of
    writer calls.
  \<^item> \<open>Store\<close> (\<open>store.go\<close>, \<open>memory_store.go\<close>): the interface as a record, its contract as the locale
    \<open>store\<close>, interpreted on \<open>MemoryStore\<close>. \<open>Redis\<close>: the client as a record of commands, with the locales
    \<open>redis_client\<close> and \<open>reliable_redis\<close>, interpreted on a reference server, one that can be down, and
    one that fails on a schedule. \<open>RedisStore\<close> (\<open>redis_store.go\<close>): the store over such a client.
    \<open>StoreSpec\<close>: the in-memory store, which deletes expired entries as it comes across them, answers
    any calls of its methods as one cell per key would, whose value only counts up to its deadline.
  \<^item> \<open>Windows\<close>: a store whose increments do not fail (the locale \<open>exact_store\<close>, interpreted on the
    in-memory store and on \<open>RedisStore\<close> over a Redis that answers), and an abstract machine of window counters of any number of clients, which the burst
    counter simulates over every such store. So the two stores admit the same calls.
  \<^item> \<open>Process\<close>: code that other goroutines interleave with, as a sequence of atomic steps; two
    processes in parallel, and when one of them does what it does alone.
  \<^item> \<open>Limiter\<close>: what every counter promises, as the locales \<open>window_limiter\<close> and
    \<open>exact_window_limiter\<close>, interpreted on the counters.

  \<^bold>\<open>Counters.\<close> \<open>Burst\<close> (\<open>burst.go\<close>), \<open>FixedWindow\<close> (\<open>fixed_window.go\<close>), \<open>SlidingWindow\<close>
  (\<open>sliding_window.go\<close>), \<open>LeakyBucket\<close> (\<open>leaky_bucket.go\<close>), \<open>TokenBucket\<close> (\<open>token_bucket.go\<close>, its Lua
  script as a function on the key space), \<open>Quota\<close> (\<open>quota.go\<close>, \<open>quota_middleware.go\<close>), \<open>Strategy\<close>
  (\<open>strategy.go\<close>). Their lemmas show how many calls are admitted, in a window or between two points
  in time, over any client or store that keeps the contract, failures included; that the admitted
  number is reached when nothing fails; and the cases in which the code admits too many or refuses
  too much. The leaky bucket reads and writes in two transactions: calls of a client that follow one
  another are shown to refine an abstract bucket, and calls that overlap to be admitted without a
  bound. What is shown of quotas holds whatever the method \<open>Decrement\<close> does, which their code calls and
  \<open>Store\<close> does not have. \<open>FixedWindows\<close> and \<open>SlidingWindows\<close>
  give the verdicts of these two counters for any number of clients: the fixed window is the machine of
  \<open>Windows\<close>, the sliding window a count of the earlier calls, refused ones included.

  \<^bold>\<open>Middlewares without concurrency.\<close> \<open>KeyFunc\<close> (\<open>ip_key_func.go\<close>), \<open>RateLimiter\<close> (\<open>ratelimiter.go\<close>,
  \<open>burst_middleware.go\<close>, \<open>retry_after.go\<close>, \<open>retry_after_option.go\<close>), \<open>Adaptive\<close>
  (\<open>adaptive_limit.go\<close>), \<open>Priority\<close> (\<open>request_priority.go\<close>, \<open>request_priority_option.go\<close>), \<open>Filters\<close>
  (\<open>whitelist.go\<close>, \<open>ip_blacklist.go\<close>, \<open>blacklist_option.go\<close>, \<open>geo_filter.go\<close>, \<open>geo_filter_option.go\<close>,
  \<open>geo_filter_middleware.go\<close>), \<open>PerRoute\<close> (\<open>per_route_config.go\<close>), \<open>Dedup\<close> (\<open>request_dedup.go\<close>,
  \<open>request_dedup_option.go\<close>), \<open>Signing\<close> (\<open>request_signing.go\<close>, \<open>request_signing_option.go\<close>), \<open>Fingerprint\<close>
  (\<open>request_fingerprint.go\<close>, \<open>request_fingerprint_option.go\<close>), \<open>RequestId\<close> (\<open>request_id.go\<close>,
  \<open>request_id_option.go\<close>, \<open>request_correlation.go\<close>, \<open>request_tagging.go\<close>), \<open>Tracing\<close>
  (\<open>request_tracing.go\<close>, \<open>request_tracing_middleware.go\<close>, \<open>request_tracing_option.go\<close>), \<open>Enrichment\<close>
  (\<open>request_enrichment.go\<close>), \<open>ResponseCache\<close> (\<open>response_cache.go\<close>, \<open>response_cache_option.go\<close>),
  \<open>HeaderRewrite\<close> (\<open>header_rewrite.go\<close>, \<open>header_rewrite_option.go\<close>), \<open>Bodies\<close> (\<open>request_body_logger.go\<close>,
  \<open>request_size_limit.go\<close>), \<open>Observe\<close> (\<open>request_logger.go\<close>, \<open>request_logger_option.go\<close>,
  \<open>request_sampling.go\<close>). \<open>Construct\<close> says which of the constructors panic on a nil argument.
  A struct is a record, a functional option a function on it, the constructor the fold over the
  options; the lemmas say which requests reach the next handler, what the client receives on every
  branch, and what two middlewares do to each other.

  \<^bold>\<open>Concurrent structures.\<close> The code under a mutex, or one atomic operation, is one function; an
  inductive relation interleaves these functions for any number of requests, and the properties are
  invariants of all reachable states. The state of \<open>Breaker\<close> is a function of the calls made so far. \<open>Breaker\<close> (\<open>circuit_breaker.go\<close>,
  \<open>circuit_breaker_middleware.go\<close>), \<open>Metrics\<close> (\<open>metrics.go\<close>, \<open>metrics_middleware.go\<close>), \<open>Throttle\<close>
  (\<open>request_throttle.go\<close>, \<open>request_throttle_option.go\<close>), \<open>Pause\<close> (\<open>request_pause.go\<close>), \<open>Hedging\<close>
  (\<open>request_hedging.go\<close>), \<open>Timeout\<close> (\<open>request_timeout.go\<close>), \<open>Coalescing\<close> (\<open>request_coalescing.go\<close>,
  \<open>request_coalescing_option.go\<close>), \<open>Shadow\<close> (\<open>request_shadow.go\<close>, \<open>request_shadow_option.go\<close>) and
  \<open>Mirror\<close> (\<open>request_mirroring.go\<close>), whose goroutines share the request, the body reader or the
  limiter's state with the next handler and interleave with it step by step. The evictions of \<open>Dedup\<close> are interleaved with its calls in the same
  way.

  \<^bold>\<open>Composition.\<close> \<open>Metered\<close> puts the metrics middleware around the burst limiter over the in-memory
  store and shows, for any handler and any requests of any clients at any times, the status of every
  answer and the counters at the end. \<open>Shadow\<close> runs the burst limiter in shadow mode beside any
  handler and shows that exactly the requests it would refuse are reported, in order. \<open>Guarded\<close> puts
  the circuit breaker around the burst limiter, as its documentation does, and shows that the pair
  refines a machine of window counters with one guard, and how one client can shut out all others. The other compositions are \<open>RateLimiter\<close>'s
  (Retry-After around \<open>New\<close>, the burst limiter over any store) and \<open>Bodies\<close>' (the body logger behind a
  size limit).

  \<^bold>\<open>Bounds.\<close> There is no fuel: every function is structurally recursive or comes with a measure. The
  number of processes of \<open>Throttle\<close> is below the largest \<open>int\<close>, as its counter wraps otherwise; the
  counters' theorems bound times and limits so that no 64-bit sum wraps where the code relies on it.

  \<^bold>\<open>Not modelled.\<close> Code outside \<open>src/\<close> is a parameter: the Redis server, the user's handlers, key
  functions and callbacks, the HTTP client of the mirror. So are the parts of the standard library
  whose result the code only passes on: content sniffing, random sources, \<open>Duration.String\<close> and the
  checks of \<open>http.NewRequest\<close>. What the conversion of a float64 out of range to an int gives, which Go
  leaves to the implementation, is a parameter of \<open>Priority\<close>. Contexts are left out, except that the throttle can see a request end.
  Handlers return: a panic is modelled where the package's own code causes it. The package does not
  compile as it stands (a method missing from \<open>Store\<close>, constructors called with other arguments, two
  declarations of one type, misplaced imports and declarations); what such code calls is a parameter
  or is read as its signature suggests, and said where it happens. The mirror is interleaved with handlers
  that read the body of the request, not with those that replace it.
\<close>

end
